(* ===== verification/Prelude.thy ===== *)
theory Prelude
  imports Main "HOL-Library.Word" "HOL-Library.Finite_Map" "HOL-Library.List_Lexorder" "HOL-Library.Multiset"
begin

text \<open>
  Shared vocabulary of the development.

  \<^item> Names for the Rust machine types: \<open>u8\<close>, \<open>u64\<close>, \<open>u128\<close>, \<open>u256\<close> are words, so that \<open>+\<close> wraps
    as it does in the release profile of the workspace (\<^verbatim>\<open>[profile.release]\<close> sets no
    \<^verbatim>\<open>overflow-checks\<close>); \<open>b256\<close> hashes and 20-byte addresses are words too.
  \<^item> The standard-library operations the sources use: \<^verbatim>\<open>saturating_add\<close>, \<^verbatim>\<open>saturating_sub\<close>,
    \<^verbatim>\<open>saturating_mul\<close>, \<^verbatim>\<open>checked_add\<close>, \<^verbatim>\<open>Vec::swap_remove\<close>, \<^verbatim>\<open>Iterator::position\<close>,
    \<^verbatim>\<open>Vec::pop\<close> and the order in which a hash container is iterated.
  \<^item> Conventions: a \<^verbatim>\<open>HashMap\<close> is a finite map, a \<^verbatim>\<open>HashSet\<close> a finite set, a result is
    \<open>'e + 'a\<close> with \<open>Inl\<close> for \<^verbatim>\<open>Err\<close>, and an operation that can panic has an \<open>option\<close> result in
    which \<open>None\<close> is the panic.
  \<^item> The locale \<open>op_system\<close>: an invariant kept by every operation of a component is kept by every
    run of operations, and no run panics. Each stateful component interprets it.
\<close>

section \<open>Types and collections of facts\<close>

type_synonym u8 = "8 word"
type_synonym u32 = "32 word"
type_synonym u64 = "64 word"
type_synonym u128 = "128 word"
type_synonym u256 = "256 word"
type_synonym b256 = "256 word"
type_synonym address = "160 word"
type_synonym tx_hash = b256

type_synonym ('e, 'a) result = "'e + 'a"

named_theorems sat_simps \<open>unat of the saturating operations\<close>
named_theorems vec_simps \<open>multisets, sets and lengths after a vector operation\<close>

section \<open>Saturating and checked arithmetic\<close>

definition saturating_add :: "'a::len word \<Rightarrow> 'a word \<Rightarrow> 'a word" where
  "saturating_add a b = (if unat a + unat b < 2 ^ LENGTH('a) then a + b else - 1)"

definition saturating_sub :: "'a::len word \<Rightarrow> 'a word \<Rightarrow> 'a word" where
  "saturating_sub a b = (if b \<le> a then a - b else 0)"

definition saturating_mul :: "'a::len word \<Rightarrow> 'a word \<Rightarrow> 'a word" where
  "saturating_mul a b = (if unat a * unat b < 2 ^ LENGTH('a) then a * b else - 1)"

definition checked_add :: "'a::len word \<Rightarrow> 'a word \<Rightarrow> 'a word option" where
  "checked_add a b = (if unat a + unat b < 2 ^ LENGTH('a) then Some (a + b) else None)"

lemma unat_minus_one_word_eq: "unat (- 1 :: 'a::len word) = 2 ^ LENGTH('a) - 1"
  by (simp add: unsigned_minus_1_eq_mask mask_eq_exp_minus_1)

lemma unat_word_of_nat: "n < 2 ^ LENGTH('a) \<Longrightarrow> unat (word_of_nat n :: 'a::len word) = n"
  by (simp add: unat_of_nat)

lemma word_eq_unat: "a = b \<longleftrightarrow> unat a = unat b" for a b :: "'a::len word"
  by (simp add: word_eq_iff_unsigned [where ?'a = nat])

lemma unat_add_1: "a \<noteq> - 1 \<Longrightarrow> unat (a + 1) = Suc (unat a)" for a :: "'a::len word"
proof -
  assume "a \<noteq> - 1"
  then have "unat a \<noteq> 2 ^ LENGTH('a) - 1" by (simp add: word_eq_unat unat_minus_one_word_eq)
  then have "Suc (unat a) < 2 ^ LENGTH('a)" using unsigned_less [of a, where ?'a = nat] by linarith
  then show ?thesis by (simp add: unat_word_ariths)
qed

lemma unat_ucast_mod: "unat (ucast (x :: 'a::len word) :: 'b::len word) = unat x mod 2 ^ LENGTH('b)"
  by (simp add: unsigned_ucast_eq take_bit_eq_mod)

lemma less_add_1: "a \<noteq> - 1 \<Longrightarrow> a < a + 1" for a :: "'a::len word"
  by (simp add: word_less_nat_alt unat_add_1)

lemma unat_saturating_add [sat_simps]:
  "unat (saturating_add a b) = min (unat a + unat b) (2 ^ LENGTH('a) - 1)"
  for a b :: "'a::len word"
  by (auto simp: saturating_add_def unat_word_ariths unat_minus_one_word_eq)

lemma saturating_add_0 [simp]: "saturating_add a 0 = a"
  by (simp add: saturating_add_def)

lemma saturating_add_1: "a \<noteq> - 1 \<Longrightarrow> saturating_add a 1 = a + 1" for a :: "'a::len word"
  using unat_add_1 [of a] unsigned_less [of "a + 1", where ?'a = nat] by (simp add: saturating_add_def)

lemma saturating_add_mono: "b \<le> b' \<Longrightarrow> saturating_add a b \<le> saturating_add a b'" for a b b' :: "'a::len word"
  by (simp add: word_le_nat_alt sat_simps min.coboundedI1)

lemma unat_saturating_sub [sat_simps]: "unat (saturating_sub a b) = unat a - unat b"
  for a b :: "'a::len word"
  by (auto simp: saturating_sub_def unat_sub word_le_nat_alt)

lemma unat_saturating_mul [sat_simps]:
  "unat (saturating_mul a b) = min (unat a * unat b) (2 ^ LENGTH('a) - 1)"
  for a b :: "'a::len word"
  by (auto simp: saturating_mul_def unat_word_ariths unat_minus_one_word_eq)

lemma checked_add_Some: "checked_add a b = Some c \<Longrightarrow> unat c = unat a + unat b"
  by (auto simp: checked_add_def unat_word_ariths split: if_splits)

lemma checked_add_None_iff:
  "checked_add a b = None \<longleftrightarrow> 2 ^ LENGTH('a) \<le> unat a + unat b" for a b :: "'a::len word"
  by (auto simp: checked_add_def)

lemma unat_lt_max: "unat (a :: 'a::len word) \<le> 2 ^ LENGTH('a) - 1"
  using unsigned_less [of a, where ?'a = nat] by linarith

lemma saturating_add_ge: "a \<le> saturating_add a b" for a b :: "'a::len word"
  using unat_lt_max [of a] by (simp add: word_le_nat_alt sat_simps)

lemma saturating_sub_le: "saturating_sub a b \<le> a" for a b :: "'a::len word"
  by (simp add: word_le_nat_alt sat_simps)

section \<open>Vectors\<close>

text \<open>\<^verbatim>\<open>Vec::swap_remove(i)\<close> removes element \<open>i\<close> and moves the last element into its place.\<close>

definition swap_remove :: "nat \<Rightarrow> 'a list \<Rightarrow> 'a list" where
  "swap_remove i xs = (if i < length xs then butlast (xs[i := last xs]) else xs)"

text \<open>\<^verbatim>\<open>iter().position(p)\<close>.\<close>

fun position :: "('a \<Rightarrow> bool) \<Rightarrow> 'a list \<Rightarrow> nat option" where
  "position p [] = None"
| "position p (x # xs) = (if p x then Some 0 else map_option Suc (position p xs))"

text \<open>Removal of the first occurrence of \<open>x\<close> by \<open>position\<close> and \<open>swap_remove\<close>, as the sources write it.\<close>

definition swap_remove_first :: "'a \<Rightarrow> 'a list \<Rightarrow> 'a list" where
  "swap_remove_first x xs =
     (case position (\<lambda>y. y = x) xs of None \<Rightarrow> xs | Some i \<Rightarrow> swap_remove i xs)"

lemma position_None_iff: "position p xs = None \<longleftrightarrow> (\<forall>x\<in>set xs. \<not> p x)"
  by (induction xs) auto

lemma position_SomeD: "position p xs = Some i \<Longrightarrow> i < length xs \<and> p (xs ! i)"
  by (induction xs arbitrary: i) (auto split: if_splits)

lemma mset_swap_remove [vec_simps]:
  assumes "i < length xs"
  shows "mset (swap_remove i xs) = mset xs - {# xs ! i #}"
proof -
  let ?l = "xs[i := last xs]"
  have ne: "?l \<noteq> []" using assms by auto
  have last: "last ?l = last xs"
    using assms by (subst last_list_update) auto
  have "mset ?l = add_mset (last xs) (mset xs - {# xs ! i #})"
    using assms by (simp add: mset_update)
  moreover have "mset ?l = add_mset (last ?l) (mset (butlast ?l))"
    using ne append_butlast_last_id [OF ne] by (metis mset_append mset_single_iff_right add_mset_add_single)
  ultimately have "mset (butlast ?l) = mset xs - {# xs ! i #}"
    using last by simp
  then show ?thesis using assms by (simp add: swap_remove_def)
qed

lemma mset_swap_remove_first [vec_simps]:
  "mset (swap_remove_first x xs) = mset xs - {# x #}"
proof (cases "position (\<lambda>y. y = x) xs")
  case None
  then have "x \<notin> set xs" by (auto simp: position_None_iff)
  then show ?thesis using None by (simp add: swap_remove_first_def diff_single_trivial)
next
  case (Some i)
  then show ?thesis
    using position_SomeD [OF Some] by (simp add: swap_remove_first_def mset_swap_remove)
qed

lemma set_swap_remove_first: "set (swap_remove_first x xs) \<subseteq> set xs"
  using mset_swap_remove_first [of x xs] by (metis diff_subset_eq_self set_mset_mono set_mset_mset)

lemma count_list_swap_remove_first:
  "count (mset (swap_remove_first x xs)) y = count (mset xs) y - (if x = y then 1 else 0)"
  by (simp add: mset_swap_remove_first)

section \<open>Iteration order of hash containers\<close>

text \<open>
  The standard library fixes no iteration order for \<^verbatim>\<open>HashSet\<close> and \<^verbatim>\<open>HashMap\<close>. An operation that
  iterates one takes the order as an argument \<open>it\<close>; all that is known of it is that every element
  is visited, exactly once.
\<close>

type_synonym 'a iter_order = "'a fset \<Rightarrow> 'a list"

definition iter_ok :: "'a iter_order \<Rightarrow> bool" where
  "iter_ok it \<longleftrightarrow> (\<forall>S. set (it S) = fset S \<and> distinct (it S))"

lemma iter_okD: "iter_ok it \<Longrightarrow> set (it S) = fset S" "iter_ok it \<Longrightarrow> distinct (it S)"
  by (auto simp: iter_ok_def)

text \<open>One admissible order: ascending.\<close>

lemma iter_ok_sorted: "iter_ok (sorted_list_of_fset :: 'a::linorder fset \<Rightarrow> 'a list)"
  by (auto simp: iter_ok_def sorted_list_of_fset.rep_eq)

section \<open>Finite maps\<close>

lemma fcard_fmdom_drop:
  "fmlookup m k = Some v \<Longrightarrow> Suc (fcard (fmdom (fmdrop k m))) = fcard (fmdom m)"
  using fcard_Suc_fminus1 [of k "fmdom m"] by (auto simp: fmdomI fmdom_drop)

lemma fcard_fmdom_remove_less:
  "fmlookup m k = Some v \<Longrightarrow> fcard (fmdom m |-| {|k|}) < fcard (fmdom m)"
  by (rule fcard_fminus1_less) (rule fmdomI)

lemma fcard_fmdom_drop_le: "fcard (fmdom (fmdrop k m)) \<le> fcard (fmdom m)"
  by (simp add: fcard_fminus1_le)

lemma fcard_fmdom_upd_same:
  "fmlookup m k = Some v \<Longrightarrow> fcard (fmdom (fmupd k v' m)) = fcard (fmdom m)"
  by (simp add: fmdomI finsert_absorb)

section \<open>Components as systems of operations\<close>

text \<open>
  A component offers operations; \<open>step s op = None\<close> means that the code panics. When every
  admissible operation keeps the invariant and returns, so does every finite run.
\<close>

fun run_ops :: "('s \<Rightarrow> 'op \<Rightarrow> 's option) \<Rightarrow> 's \<Rightarrow> 'op list \<Rightarrow> 's option" where
  "run_ops step s [] = Some s"
| "run_ops step s (x # xs) =
     (case step s x of None \<Rightarrow> None | Some s' \<Rightarrow> run_ops step s' xs)"

locale op_system =
  fixes step :: "'s \<Rightarrow> 'op \<Rightarrow> 's option"
    and ok :: "'op \<Rightarrow> bool"
    and inv :: "'s \<Rightarrow> bool"
  assumes step_ok: "inv s \<Longrightarrow> ok x \<Longrightarrow> \<exists>s'. step s x = Some s' \<and> inv s'"
begin

lemma run_ok: "inv s \<Longrightarrow> list_all ok xs \<Longrightarrow> \<exists>s'. run_ops step s xs = Some s' \<and> inv s'"
proof (induction xs arbitrary: s)
  case Nil
  then show ?case by simp
next
  case (Cons x xs)
  then obtain s' where "step s x = Some s'" "inv s'" using step_ok by fastforce
  with Cons show ?case by simp
qed

lemma run_inv: "inv s \<Longrightarrow> list_all ok xs \<Longrightarrow> run_ops step s xs = Some s' \<Longrightarrow> inv s'"
  using run_ok by fastforce

end

end
