(* ===== verification/Eth_Tx.thy ===== *)
theory Eth_Tx
  imports Prelude
begin

text \<open>
  Transactions as the node keeps them (\<^verbatim>\<open>crates/anvil/core/src/eth/transaction\<close>).

  The signed payloads are structs of the \<^verbatim>\<open>alloy\<close> crates; they are records with the public fields
  the sources read. The blob gas of an EIP-4844 payload is computed by that crate and is the argument
  \<open>bg\<close> of the definitions that need it. On top of them: the accessors of \<^verbatim>\<open>TypedTransaction\<close>, its
  maximal cost, \<^verbatim>\<open>PendingTransaction\<close>, and the EIP-155 check.
\<close>

section \<open>Payloads\<close>

datatype tx_kind = Create | Call address

datatype parity = Eip155 u64 | NonEip155 bool | Parity bool

record signature =
  sig_v :: parity
  sig_r :: u256
  sig_s :: u256

type_synonym access_list = "(address \<times> b256 list) list"

record 'a signed =
  sg_tx :: 'a
  sg_signature :: signature
  sg_hash :: b256

record tx_legacy =
  legacy_chain_id :: "u64 option"
  legacy_nonce :: u64
  legacy_gas_price :: u128
  legacy_gas_limit :: u128
  legacy_to :: tx_kind
  legacy_value :: u256
  legacy_input :: "u8 list"

record tx_eip2930 =
  e2930_chain_id :: u64
  e2930_nonce :: u64
  e2930_gas_price :: u128
  e2930_gas_limit :: u128
  e2930_to :: tx_kind
  e2930_value :: u256
  e2930_access_list :: access_list
  e2930_input :: "u8 list"

record tx_eip1559 =
  e1559_chain_id :: u64
  e1559_nonce :: u64
  e1559_gas_limit :: u128
  e1559_max_fee_per_gas :: u128
  e1559_max_priority_fee_per_gas :: u128
  e1559_to :: tx_kind
  e1559_value :: u256
  e1559_access_list :: access_list
  e1559_input :: "u8 list"

record tx_eip4844 =
  e4844_chain_id :: u64
  e4844_nonce :: u64
  e4844_gas_limit :: u128
  e4844_max_fee_per_gas :: u128
  e4844_max_priority_fee_per_gas :: u128
  e4844_to :: address
  e4844_value :: u256
  e4844_access_list :: access_list
  e4844_blob_versioned_hashes :: "b256 list"
  e4844_max_fee_per_blob_gas :: u128
  e4844_input :: "u8 list"

record deposit_transaction =
  dep_nonce :: u64
  dep_source_hash :: b256
  dep_from :: address
  dep_kind :: tx_kind
  dep_mint :: u256
  dep_value :: u256
  dep_gas_limit :: u128
  dep_is_system_tx :: bool
  dep_input :: "u8 list"

datatype typed_transaction =
    Legacy "tx_legacy signed"
  | EIP2930 "tx_eip2930 signed"
  | EIP1559 "tx_eip1559 signed"
  | EIP4844 "tx_eip4844 signed"
  | Deposit deposit_transaction

section \<open>Accessors of \<^verbatim>\<open>TypedTransaction\<close>\<close>

fun is_dynamic_fee :: "typed_transaction \<Rightarrow> bool" where
  "is_dynamic_fee (EIP1559 _) = True"
| "is_dynamic_fee (EIP4844 _) = True"
| "is_dynamic_fee _ = False"

fun gas_price :: "typed_transaction \<Rightarrow> u128" where
  "gas_price (Legacy tx) = legacy_gas_price (sg_tx tx)"
| "gas_price (EIP2930 tx) = e2930_gas_price (sg_tx tx)"
| "gas_price (EIP1559 tx) = e1559_max_fee_per_gas (sg_tx tx)"
| "gas_price (EIP4844 tx) = e4844_max_fee_per_gas (sg_tx tx)"
| "gas_price (Deposit _) = 0"

fun gas_limit :: "typed_transaction \<Rightarrow> u128" where
  "gas_limit (Legacy tx) = legacy_gas_limit (sg_tx tx)"
| "gas_limit (EIP2930 tx) = e2930_gas_limit (sg_tx tx)"
| "gas_limit (EIP1559 tx) = e1559_gas_limit (sg_tx tx)"
| "gas_limit (EIP4844 tx) = e4844_gas_limit (sg_tx tx)"
| "gas_limit (Deposit tx) = dep_gas_limit tx"

fun tx_value :: "typed_transaction \<Rightarrow> u256" where
  "tx_value (Legacy tx) = legacy_value (sg_tx tx)"
| "tx_value (EIP2930 tx) = e2930_value (sg_tx tx)"
| "tx_value (EIP1559 tx) = e1559_value (sg_tx tx)"
| "tx_value (EIP4844 tx) = e4844_value (sg_tx tx)"
| "tx_value (Deposit tx) = dep_value tx"

fun tx_data :: "typed_transaction \<Rightarrow> u8 list" where
  "tx_data (Legacy tx) = legacy_input (sg_tx tx)"
| "tx_data (EIP2930 tx) = e2930_input (sg_tx tx)"
| "tx_data (EIP1559 tx) = e1559_input (sg_tx tx)"
| "tx_data (EIP4844 tx) = e4844_input (sg_tx tx)"
| "tx_data (Deposit tx) = dep_input tx"

fun tx_type :: "typed_transaction \<Rightarrow> u8 option" where
  "tx_type (Legacy _) = None"
| "tx_type (EIP2930 _) = Some 1"
| "tx_type (EIP1559 _) = Some 2"
| "tx_type (EIP4844 _) = Some 3"
| "tx_type (Deposit _) = Some 0x7E"

fun is_legacy :: "typed_transaction \<Rightarrow> bool" where
  "is_legacy (Legacy _) = True" | "is_legacy _ = False"

fun is_eip1559 :: "typed_transaction \<Rightarrow> bool" where
  "is_eip1559 (EIP1559 _) = True" | "is_eip1559 _ = False"

fun is_eip2930 :: "typed_transaction \<Rightarrow> bool" where
  "is_eip2930 (EIP2930 _) = True" | "is_eip2930 _ = False"

fun is_eip4844 :: "typed_transaction \<Rightarrow> bool" where
  "is_eip4844 (EIP4844 _) = True" | "is_eip4844 _ = False"

fun as_legacy :: "typed_transaction \<Rightarrow> tx_legacy signed option" where
  "as_legacy (Legacy tx) = Some tx" | "as_legacy _ = None"

fun blob_gas :: "(tx_eip4844 \<Rightarrow> u64) \<Rightarrow> typed_transaction \<Rightarrow> u128 option" where
  "blob_gas bg (EIP4844 tx) = Some (ucast (bg (sg_tx tx)))"
| "blob_gas bg _ = None"

fun max_fee_per_blob_gas :: "typed_transaction \<Rightarrow> u128 option" where
  "max_fee_per_blob_gas (EIP4844 tx) = Some (e4844_max_fee_per_blob_gas (sg_tx tx))"
| "max_fee_per_blob_gas _ = None"

text \<open>\<^verbatim>\<open>unwrap_or\<close> on options.\<close>

definition unwrap_or :: "'a option \<Rightarrow> 'a \<Rightarrow> 'a" where
  "unwrap_or x d = (case x of None \<Rightarrow> d | Some v \<Rightarrow> v)"

lemma unwrap_or_simps [simp]: "unwrap_or None d = d" "unwrap_or (Some v) d = v"
  by (simp_all add: unwrap_or_def)

text \<open>The gas part saturates; the blob part is a plain \<^verbatim>\<open>mul\<close>, which wraps.\<close>

definition max_cost :: "(tx_eip4844 \<Rightarrow> u64) \<Rightarrow> typed_transaction \<Rightarrow> u128" where
  "max_cost bg tx =
     (let c = saturating_mul (gas_limit tx) (gas_price tx) in
      if is_eip4844 tx
      then saturating_add c (unwrap_or (blob_gas bg tx) 0 * unwrap_or (max_fee_per_blob_gas tx) 0)
      else c)"

record transaction_essentials =
  ess_kind :: tx_kind
  ess_input :: "u8 list"
  ess_nonce :: u64
  ess_gas_limit :: u128
  ess_gas_price :: "u256 option"
  ess_max_fee_per_gas :: "u256 option"
  ess_max_priority_fee_per_gas :: "u256 option"
  ess_max_fee_per_blob_gas :: "u256 option"
  ess_blob_versioned_hashes :: "b256 list option"
  ess_value :: u256
  ess_chain_id :: "u64 option"
  ess_access_list :: access_list

definition deposit_chain_id :: "deposit_transaction \<Rightarrow> u64 option" where
  "deposit_chain_id t = None"

fun essentials :: "typed_transaction \<Rightarrow> transaction_essentials" where
  "essentials (Legacy s) = (let t = sg_tx s in
     \<lparr> ess_kind = legacy_to t, ess_input = legacy_input t, ess_nonce = legacy_nonce t,
       ess_gas_limit = legacy_gas_limit t, ess_gas_price = Some (ucast (legacy_gas_price t)),
       ess_max_fee_per_gas = None, ess_max_priority_fee_per_gas = None,
       ess_max_fee_per_blob_gas = None, ess_blob_versioned_hashes = None,
       ess_value = legacy_value t, ess_chain_id = legacy_chain_id t, ess_access_list = [] \<rparr>)"
| "essentials (EIP2930 s) = (let t = sg_tx s in
     \<lparr> ess_kind = e2930_to t, ess_input = e2930_input t, ess_nonce = e2930_nonce t,
       ess_gas_limit = e2930_gas_limit t, ess_gas_price = Some (ucast (e2930_gas_price t)),
       ess_max_fee_per_gas = None, ess_max_priority_fee_per_gas = None,
       ess_max_fee_per_blob_gas = None, ess_blob_versioned_hashes = None,
       ess_value = e2930_value t, ess_chain_id = Some (e2930_chain_id t),
       ess_access_list = e2930_access_list t \<rparr>)"
| "essentials (EIP1559 s) = (let t = sg_tx s in
     \<lparr> ess_kind = e1559_to t, ess_input = e1559_input t, ess_nonce = e1559_nonce t,
       ess_gas_limit = e1559_gas_limit t, ess_gas_price = None,
       ess_max_fee_per_gas = Some (ucast (e1559_max_fee_per_gas t)),
       ess_max_priority_fee_per_gas = Some (ucast (e1559_max_priority_fee_per_gas t)),
       ess_max_fee_per_blob_gas = None, ess_blob_versioned_hashes = None,
       ess_value = e1559_value t, ess_chain_id = Some (e1559_chain_id t),
       ess_access_list = e1559_access_list t \<rparr>)"
| "essentials (EIP4844 s) = (let t = sg_tx s in
     \<lparr> ess_kind = Call (e4844_to t), ess_input = e4844_input t, ess_nonce = e4844_nonce t,
       ess_gas_limit = e4844_gas_limit t,
       ess_gas_price = Some (ucast (e4844_max_fee_per_blob_gas t)),
       ess_max_fee_per_gas = Some (ucast (e4844_max_fee_per_gas t)),
       ess_max_priority_fee_per_gas = Some (ucast (e4844_max_priority_fee_per_gas t)),
       ess_max_fee_per_blob_gas = Some (ucast (e4844_max_fee_per_blob_gas t)),
       ess_blob_versioned_hashes = Some (e4844_blob_versioned_hashes t),
       ess_value = e4844_value t, ess_chain_id = Some (e4844_chain_id t),
       ess_access_list = e4844_access_list t \<rparr>)"
| "essentials (Deposit t) =
     \<lparr> ess_kind = dep_kind t, ess_input = dep_input t, ess_nonce = dep_nonce t,
       ess_gas_limit = dep_gas_limit t, ess_gas_price = Some 0,
       ess_max_fee_per_gas = None, ess_max_priority_fee_per_gas = None,
       ess_max_fee_per_blob_gas = None, ess_blob_versioned_hashes = None,
       ess_value = dep_value t, ess_chain_id = deposit_chain_id t, ess_access_list = [] \<rparr>"

fun tx_nonce :: "typed_transaction \<Rightarrow> u64" where
  "tx_nonce (Legacy t) = legacy_nonce (sg_tx t)"
| "tx_nonce (EIP2930 t) = e2930_nonce (sg_tx t)"
| "tx_nonce (EIP1559 t) = e1559_nonce (sg_tx t)"
| "tx_nonce (EIP4844 t) = e4844_nonce (sg_tx t)"
| "tx_nonce (Deposit t) = dep_nonce t"

fun chain_id :: "typed_transaction \<Rightarrow> u64 option" where
  "chain_id (Legacy t) = legacy_chain_id (sg_tx t)"
| "chain_id (EIP2930 t) = Some (e2930_chain_id (sg_tx t))"
| "chain_id (EIP1559 t) = Some (e1559_chain_id (sg_tx t))"
| "chain_id (EIP4844 t) = Some (e4844_chain_id (sg_tx t))"
| "chain_id (Deposit t) = deposit_chain_id t"

fun kind :: "typed_transaction \<Rightarrow> tx_kind" where
  "kind (Legacy tx) = legacy_to (sg_tx tx)"
| "kind (EIP2930 tx) = e2930_to (sg_tx tx)"
| "kind (EIP1559 tx) = e1559_to (sg_tx tx)"
| "kind (EIP4844 tx) = Call (e4844_to (sg_tx tx))"
| "kind (Deposit tx) = dep_kind tx"

definition tx_to :: "typed_transaction \<Rightarrow> address option" where
  "tx_to tx = (case kind tx of Create \<Rightarrow> None | Call a \<Rightarrow> Some a)"

text \<open>
  The fixed signature of impersonated transactions:
  \<^verbatim>\<open>from_scalars_and_parity\<close> of two ones and an even parity.
\<close>

definition impersonated_signature :: signature where
  "impersonated_signature = \<lparr> sig_v = Parity False, sig_r = 1, sig_s = 1 \<rparr>"

fun tx_signature :: "typed_transaction \<Rightarrow> signature" where
  "tx_signature (Legacy tx) = sg_signature tx"
| "tx_signature (EIP2930 tx) = sg_signature tx"
| "tx_signature (EIP1559 tx) = sg_signature tx"
| "tx_signature (EIP4844 tx) = sg_signature tx"
| "tx_signature (Deposit _) = \<lparr> sig_v = Parity False, sig_r = 1, sig_s = 1 \<rparr>"

definition is_impersonated :: "typed_transaction \<Rightarrow> bool" where
  "is_impersonated tx \<longleftrightarrow> tx_signature tx = impersonated_signature"

section \<open>Wrapped transactions\<close>

record maybe_impersonated_transaction =
  mi_transaction :: typed_transaction
  mi_impersonated_sender :: "address option"

definition mi_new :: "typed_transaction \<Rightarrow> maybe_impersonated_transaction" where
  "mi_new tx = \<lparr> mi_transaction = tx, mi_impersonated_sender = None \<rparr>"

definition mi_impersonated :: "typed_transaction \<Rightarrow> address \<Rightarrow> maybe_impersonated_transaction" where
  "mi_impersonated tx a = \<lparr> mi_transaction = tx, mi_impersonated_sender = Some a \<rparr>"

text \<open>
  The hash of the payload is stored with the signature; that of a deposit and of an impersonated
  transaction is computed with keccak-256 over the encoding, an argument here.
\<close>

fun typed_hash :: "(deposit_transaction \<Rightarrow> b256) \<Rightarrow> typed_transaction \<Rightarrow> b256" where
  "typed_hash dep_hash (Legacy t) = sg_hash t"
| "typed_hash dep_hash (EIP2930 t) = sg_hash t"
| "typed_hash dep_hash (EIP1559 t) = sg_hash t"
| "typed_hash dep_hash (EIP4844 t) = sg_hash t"
| "typed_hash dep_hash (Deposit t) = dep_hash t"

definition mi_hash ::
  "(deposit_transaction \<Rightarrow> b256) \<Rightarrow> (typed_transaction \<Rightarrow> address \<Rightarrow> b256) \<Rightarrow> maybe_impersonated_transaction \<Rightarrow> b256" where
  "mi_hash dep_hash impersonated_hash m =
     (let hash = typed_hash dep_hash (mi_transaction m) in
      if is_impersonated (mi_transaction m)
      then (case mi_impersonated_sender m of Some sender \<Rightarrow> impersonated_hash (mi_transaction m) sender | None \<Rightarrow> hash)
      else hash)"

record pending_transaction =
  pe_transaction :: maybe_impersonated_transaction
  pe_sender :: address
  pe_hash :: tx_hash

definition pe_nonce :: "pending_transaction \<Rightarrow> u64" where
  "pe_nonce p = tx_nonce (mi_transaction (pe_transaction p))"

section \<open>EIP-155\<close>

fun meets_eip155 :: "u64 \<Rightarrow> parity \<Rightarrow> bool" where
  "meets_eip155 c (Eip155 v) =
     (let d = saturating_mul c 2 in v = d + 35 \<or> v = d + 36)"
| "meets_eip155 c _ = False"

section \<open>Facts\<close>

text \<open>The accessors agree with the fields of \<^verbatim>\<open>essentials\<close>.\<close>

lemma essentials_accessors:
  "ess_kind (essentials tx) = kind tx"
  "ess_input (essentials tx) = tx_data tx"
  "ess_nonce (essentials tx) = tx_nonce tx"
  "ess_gas_limit (essentials tx) = gas_limit tx"
  "ess_value (essentials tx) = tx_value tx"
  "ess_chain_id (essentials tx) = chain_id tx"
  by (cases tx; simp add: Let_def)+

lemma essentials_max_fee:
  "ess_max_fee_per_gas (essentials tx) =
     (if is_dynamic_fee tx then Some (ucast (gas_price tx)) else None)"
  by (cases tx) (simp_all add: Let_def)

lemma is_eip4844_iff_blob_gas: "is_eip4844 tx \<longleftrightarrow> blob_gas bg tx \<noteq> None"
  by (cases tx) auto

lemma max_cost_no_blobs:
  "\<not> is_eip4844 tx \<Longrightarrow>
   unat (max_cost bg tx) = min (unat (gas_limit tx) * unat (gas_price tx)) (2 ^ 128 - 1)"
  by (simp add: max_cost_def sat_simps)

lemma max_cost_ge_gas_cost:
  "min (unat (gas_limit tx) * unat (gas_price tx)) (2 ^ 128 - 1) \<le> unat (max_cost bg tx)"
  by (auto simp: max_cost_def sat_simps Let_def)

lemma max_cost_blobs:
  assumes "is_eip4844 tx"
    and "unat (unwrap_or (blob_gas bg tx) 0) * unat (unwrap_or (max_fee_per_blob_gas tx) 0) < 2 ^ 128"
  shows "unat (max_cost bg tx) =
    min (unat (gas_limit tx) * unat (gas_price tx)
         + unat (unwrap_or (blob_gas bg tx) 0) * unat (unwrap_or (max_fee_per_blob_gas tx) 0))
      (2 ^ 128 - 1)"
proof -
  have "unat (unwrap_or (blob_gas bg tx) 0 * unwrap_or (max_fee_per_blob_gas tx) 0) =
      unat (unwrap_or (blob_gas bg tx) 0) * unat (unwrap_or (max_fee_per_blob_gas tx) 0)"
    using assms(2) by (simp add: unat_word_ariths)
  then show ?thesis using assms(1) by (simp add: max_cost_def sat_simps)
qed

end
