(* ===== verification/Pool_Pending.thy ===== *)
theory Pool_Pending
  imports Eth_Tx
begin

text \<open>
  The waiting half of the transaction pool (\<^verbatim>\<open>crates/anvil/src/eth/pool/transactions.rs\<close>): markers,
  pool transactions and \<^verbatim>\<open>PendingTransactions\<close>, the transactions that still miss a marker.

  \<^verbatim>\<open>required_markers\<close> is an index over \<^verbatim>\<open>waiting_queue\<close>. The invariant \<open>pending_inv\<close> says that it is
  exactly the inverse of "misses marker", which is what makes the two \<^verbatim>\<open>expect("tx is included;")\<close> of
  \<^verbatim>\<open>mark_and_unlock\<close> unreachable. \<open>mark_and_unlock_refines\<close> gives the abstract meaning of that
  operation: the given markers are struck from every waiting transaction, and those with none left
  leave the queue.
\<close>

section \<open>Markers\<close>

type_synonym tx_marker = "u8 list"

text \<open>The eight little-endian bytes of a \<^verbatim>\<open>u64\<close> and the twenty bytes of an address.\<close>

definition u64_to_le_bytes :: "u64 \<Rightarrow> u8 list" where
  "u64_to_le_bytes n = map (\<lambda>i. ucast (drop_bit (8 * i) n)) [0..<8]"

definition address_bytes :: "address \<Rightarrow> u8 list" where
  "address_bytes a = map (\<lambda>i. ucast (drop_bit (8 * (19 - i)) a)) [0..<20]"

definition to_marker :: "u64 \<Rightarrow> address \<Rightarrow> tx_marker" where
  "to_marker nonce from = u64_to_le_bytes nonce @ address_bytes from"

section \<open>Pool transactions\<close>

datatype transaction_order = Fifo | Fees

type_synonym transaction_priority = u128

fun order_priority :: "transaction_order \<Rightarrow> typed_transaction \<Rightarrow> transaction_priority" where
  "order_priority Fifo tx = 0"
| "order_priority Fees tx = gas_price tx"

record pool_transaction =
  pt_pending_transaction :: pending_transaction
  pt_requires :: "tx_marker list"
  pt_provides :: "tx_marker list"
  pt_priority :: transaction_priority

definition pt_hash :: "pool_transaction \<Rightarrow> tx_hash" where
  "pt_hash tx = pe_hash (pt_pending_transaction tx)"

definition pt_gas_price :: "pool_transaction \<Rightarrow> u128" where
  "pt_gas_price tx = gas_price (mi_transaction (pe_transaction (pt_pending_transaction tx)))"

datatype pool_error =
    CyclicTransaction
  | ReplacementUnderpriced pool_transaction
  | AlreadyImported pool_transaction

record pending_pool_transaction =
  ppt_transaction :: pool_transaction
  ppt_missing_markers :: "tx_marker fset"
  ppt_added_at :: nat

text \<open>\<open>now\<close> is the value of \<^verbatim>\<open>Instant::now()\<close>.\<close>

definition ppt_new ::
  "nat \<Rightarrow> pool_transaction \<Rightarrow> (tx_marker, tx_hash) fmap \<Rightarrow> pending_pool_transaction" where
  "ppt_new now tx provided =
     \<lparr> ppt_transaction = tx,
       ppt_missing_markers =
         fset_of_list (filter (\<lambda>m. fmlookup provided m = None) (pt_requires tx)),
       ppt_added_at = now \<rparr>"

definition ppt_mark :: "tx_marker \<Rightarrow> pending_pool_transaction \<Rightarrow> pending_pool_transaction" where
  "ppt_mark m tx = tx\<lparr> ppt_missing_markers := ppt_missing_markers tx |-| {|m|} \<rparr>"

definition ppt_is_ready :: "pending_pool_transaction \<Rightarrow> bool" where
  "ppt_is_ready tx \<longleftrightarrow> ppt_missing_markers tx = {||}"

abbreviation ppt_hash :: "pending_pool_transaction \<Rightarrow> tx_hash" where
  "ppt_hash tx \<equiv> pt_hash (ppt_transaction tx)"

abbreviation ppt_provides :: "pending_pool_transaction \<Rightarrow> tx_marker list" where
  "ppt_provides tx \<equiv> pt_provides (ppt_transaction tx)"

section \<open>The waiting transactions\<close>

record pending_transactions =
  required_markers :: "(tx_marker, tx_hash fset) fmap"
  waiting_markers :: "(tx_marker list, tx_hash) fmap"
  waiting_queue :: "(tx_hash, pending_pool_transaction) fmap"

definition pending_default :: pending_transactions where
  "pending_default = \<lparr> required_markers = fmempty, waiting_markers = fmempty, waiting_queue = fmempty \<rparr>"

definition pending_len :: "pending_transactions \<Rightarrow> nat" where
  "pending_len s = fcard (fmdom (waiting_queue s))"

definition pending_is_empty :: "pending_transactions \<Rightarrow> bool" where
  "pending_is_empty s \<longleftrightarrow> waiting_queue s = fmempty"

definition pending_clear :: "pending_transactions \<Rightarrow> pending_transactions" where
  "pending_clear s =
     s\<lparr> required_markers := fmempty, waiting_markers := fmempty, waiting_queue := fmempty \<rparr>"

text \<open>\<^verbatim>\<open>waiting_queue.values()\<close>, in the container's order.\<close>

definition pending_iter :: "tx_hash iter_order \<Rightarrow> pending_transactions \<Rightarrow> pool_transaction list" where
  "pending_iter it s =
     map ppt_transaction (List.map_filter (fmlookup (waiting_queue s)) (it (fmdom (waiting_queue s))))"

definition pending_contains :: "pending_transactions \<Rightarrow> tx_hash \<Rightarrow> bool" where
  "pending_contains s h \<longleftrightarrow> fmlookup (waiting_queue s) h \<noteq> None"

definition pending_get :: "pending_transactions \<Rightarrow> tx_hash \<Rightarrow> pending_pool_transaction option" where
  "pending_get s h = fmlookup (waiting_queue s) h"

text \<open>\<^verbatim>\<open>required_markers.entry(marker).or_default().insert(hash)\<close> for every missing marker.\<close>

definition require_marker ::
  "tx_hash \<Rightarrow> tx_marker \<Rightarrow> (tx_marker, tx_hash fset) fmap \<Rightarrow> (tx_marker, tx_hash fset) fmap" where
  "require_marker h m rm = fmupd m (finsert h (unwrap_or (fmlookup rm m) {||})) rm"

text \<open>
  \<^verbatim>\<open>add_transaction\<close>: \<open>None\<close> when one of the two \<^verbatim>\<open>assert!\<close>s fails. The result carries the state,
  unchanged on an error.
\<close>

definition pending_add_transaction ::
  "tx_marker iter_order \<Rightarrow> pending_transactions \<Rightarrow> pending_pool_transaction \<Rightarrow>
   (pending_transactions \<times> (pool_error, unit) result) option" where
  "pending_add_transaction it s tx =
     (if ppt_is_ready tx \<or> fmlookup (waiting_queue s) (ppt_hash tx) \<noteq> None then None
      else if (case Option.bind (fmlookup (waiting_markers s) (ppt_provides tx))
                     (fmlookup (waiting_queue s)) of
                 None \<Rightarrow> False
               | Some replace \<Rightarrow>
                   pt_gas_price (ppt_transaction tx) < pt_gas_price (ppt_transaction replace))
      then Some (s, Inl (ReplacementUnderpriced (ppt_transaction tx)))
      else Some (s\<lparr> required_markers :=
                      fold (require_marker (ppt_hash tx)) (it (ppt_missing_markers tx)) (required_markers s),
                    waiting_markers := fmupd (ppt_provides tx) (ppt_hash tx) (waiting_markers s),
                    waiting_queue := fmupd (ppt_hash tx) tx (waiting_queue s) \<rparr>, Inr ()))"

text \<open>The inner loop of \<^verbatim>\<open>mark_and_unlock\<close>: \<^verbatim>\<open>for hash in tx_hashes\<close>.\<close>

fun mark_hashes ::
  "tx_marker \<Rightarrow> tx_hash list \<Rightarrow> pending_transactions \<Rightarrow>
   (pending_transactions \<times> pending_pool_transaction list) option" where
  "mark_hashes m [] s = Some (s, [])"
| "mark_hashes m (h # hs) s =
     (case fmlookup (waiting_queue s) h of
        None \<Rightarrow> None
      | Some tx \<Rightarrow>
          let tx' = ppt_mark m tx in
          if ppt_is_ready tx'
          then (case mark_hashes m hs
                  (s\<lparr> waiting_queue := fmdrop h (waiting_queue s),
                      waiting_markers := fmdrop (ppt_provides tx') (waiting_markers s) \<rparr>) of
                  None \<Rightarrow> None
                | Some (s', us) \<Rightarrow> Some (s', tx' # us))
          else mark_hashes m hs (s\<lparr> waiting_queue := fmupd h tx' (waiting_queue s) \<rparr>))"

fun mark_and_unlock ::
  "tx_hash iter_order \<Rightarrow> tx_marker list \<Rightarrow> pending_transactions \<Rightarrow>
   (pending_transactions \<times> pending_pool_transaction list) option" where
  "mark_and_unlock it [] s = Some (s, [])"
| "mark_and_unlock it (m # ms) s =
     (case fmlookup (required_markers s) m of
        None \<Rightarrow> mark_and_unlock it ms s
      | Some hs \<Rightarrow>
          (case mark_hashes m (it hs)
                  (s\<lparr> required_markers := fmdrop m (required_markers s) \<rparr>) of
             None \<Rightarrow> None
           | Some (s', us) \<Rightarrow>
               (case mark_and_unlock it ms s' of
                  None \<Rightarrow> None
                | Some (s'', us') \<Rightarrow> Some (s'', us @ us'))))"

text \<open>The part of \<^verbatim>\<open>remove\<close> that takes \<open>hash\<close> out of the index, for one missing marker.\<close>

definition unrequire_marker ::
  "tx_hash \<Rightarrow> tx_marker \<Rightarrow> (tx_marker, tx_hash fset) fmap \<Rightarrow> (tx_marker, tx_hash fset) fmap" where
  "unrequire_marker h m rm =
     (case fmlookup rm m of
        None \<Rightarrow> rm
      | Some required \<Rightarrow>
          let required' = required |-| {|h|} in
          if required' = {||} then fmdrop m rm else fmupd m required' rm)"

fun pending_remove ::
  "tx_marker iter_order \<Rightarrow> tx_hash list \<Rightarrow> pending_transactions \<Rightarrow>
   pending_transactions \<times> pool_transaction list" where
  "pending_remove it [] s = (s, [])"
| "pending_remove it (h # hs) s =
     (case fmlookup (waiting_queue s) h of
        None \<Rightarrow> pending_remove it hs s
      | Some tx \<Rightarrow>
          let (s', removed) = pending_remove it hs
                (s\<lparr> waiting_queue := fmdrop h (waiting_queue s),
                    waiting_markers := fmdrop (ppt_provides tx) (waiting_markers s),
                    required_markers :=
                      fold (unrequire_marker h) (it (ppt_missing_markers tx)) (required_markers s) \<rparr>)
          in (s', ppt_transaction tx # removed))"

section \<open>Markers identify a nonce and a sender\<close>

lemma ucast_bytes_eqD:
  assumes "\<forall>i<n. (ucast (drop_bit (8 * i) a) :: u8) = ucast (drop_bit (8 * i) b)"
    and "LENGTH('a) = 8 * n"
  shows "a = (b :: 'a::len word)"
proof (rule bit_word_eqI)
  fix k assume k: "k < LENGTH('a)"
  let ?i = "k div 8"
  have "?i < n" using k assms(2) by auto
  then have "bit (ucast (drop_bit (8 * ?i) a) :: u8) (k mod 8) = bit (ucast (drop_bit (8 * ?i) b) :: u8) (k mod 8)"
    using assms(1) by simp
  then show "bit a k = bit b k"
    by (simp add: bit_ucast_iff bit_drop_bit_eq)
qed

lemma length_u64_to_le_bytes [simp]: "length (u64_to_le_bytes n) = 8"
  by (simp add: u64_to_le_bytes_def)

lemma u64_to_le_bytes_inject [simp]: "u64_to_le_bytes a = u64_to_le_bytes b \<longleftrightarrow> a = b"
proof
  assume "u64_to_le_bytes a = u64_to_le_bytes b"
  then have "\<forall>i<8. (ucast (drop_bit (8 * i) a) :: u8) = ucast (drop_bit (8 * i) b)"
    by (simp add: u64_to_le_bytes_def)
  then show "a = b" by (rule ucast_bytes_eqD) simp
qed simp

lemma address_bytes_inject [simp]: "address_bytes a = address_bytes b \<longleftrightarrow> a = b"
proof
  assume "address_bytes a = address_bytes b"
  then have e: "\<forall>i<20. (ucast (drop_bit (8 * (19 - i)) a) :: u8) = ucast (drop_bit (8 * (19 - i)) b)"
    by (simp add: address_bytes_def)
  have "\<forall>i<20. (ucast (drop_bit (8 * i) a) :: u8) = ucast (drop_bit (8 * i) b)"
  proof (intro allI impI)
    fix i :: nat assume "i < 20"
    then show "(ucast (drop_bit (8 * i) a) :: u8) = ucast (drop_bit (8 * i) b)"
      using e [rule_format, of "19 - i"] by simp
  qed
  then show "a = b" by (rule ucast_bytes_eqD) simp
qed simp

lemma to_marker_inject [simp]: "to_marker n a = to_marker n' a' \<longleftrightarrow> n = n' \<and> a = a'"
  by (simp add: to_marker_def)

section \<open>The invariant of the waiting transactions\<close>

abbreviation required_by :: "pending_transactions \<Rightarrow> tx_marker \<Rightarrow> tx_hash fset" where
  "required_by s m \<equiv> unwrap_or (fmlookup (required_markers s) m) {||}"

definition misses :: "pending_transactions \<Rightarrow> tx_hash \<Rightarrow> tx_marker \<Rightarrow> bool" where
  "misses s h m \<longleftrightarrow>
     (\<exists>tx. fmlookup (waiting_queue s) h = Some tx \<and> m |\<in>| ppt_missing_markers tx)"

definition pending_inv :: "pending_transactions \<Rightarrow> bool" where
  "pending_inv s \<longleftrightarrow>
     (\<forall>m h. h |\<in>| required_by s m \<longleftrightarrow> misses s h m) \<and>
     (\<forall>m hs. fmlookup (required_markers s) m = Some hs \<longrightarrow> hs \<noteq> {||}) \<and>
     (\<forall>h tx. fmlookup (waiting_queue s) h = Some tx \<longrightarrow> ppt_hash tx = h \<and> \<not> ppt_is_ready tx) \<and>
     (\<forall>ps h. fmlookup (waiting_markers s) ps = Some h \<longrightarrow>
        (\<exists>tx. fmlookup (waiting_queue s) h = Some tx \<and> ppt_provides tx = ps))"

lemma pending_invI:
  assumes "\<And>m h. h |\<in>| required_by s m \<longleftrightarrow> misses s h m"
    and "\<And>m hs. fmlookup (required_markers s) m = Some hs \<Longrightarrow> hs \<noteq> {||}"
    and "\<And>h tx. fmlookup (waiting_queue s) h = Some tx \<Longrightarrow> ppt_hash tx = h \<and> \<not> ppt_is_ready tx"
    and "\<And>ps h. fmlookup (waiting_markers s) ps = Some h \<Longrightarrow>
        \<exists>tx. fmlookup (waiting_queue s) h = Some tx \<and> ppt_provides tx = ps"
  shows "pending_inv s"
  using assms by (simp add: pending_inv_def)

lemma pending_invD:
  assumes "pending_inv s"
  shows "h |\<in>| required_by s m \<longleftrightarrow> misses s h m"
    and "fmlookup (required_markers s) m = Some hs \<Longrightarrow> hs \<noteq> {||}"
    and "fmlookup (waiting_queue s) h = Some tx \<Longrightarrow> ppt_hash tx = h"
    and "fmlookup (waiting_queue s) h = Some tx \<Longrightarrow> \<not> ppt_is_ready tx"
    and "fmlookup (waiting_markers s) ps = Some h \<Longrightarrow>
      \<exists>tx. fmlookup (waiting_queue s) h = Some tx \<and> ppt_provides tx = ps"
  using assms by (auto simp: pending_inv_def)

lemma pending_inv_default: "pending_inv pending_default"
  by (simp add: pending_inv_def pending_default_def misses_def)

lemma pending_inv_clear: "pending_inv (pending_clear s)"
  by (simp add: pending_inv_def pending_clear_def misses_def)

section \<open>Unlocking\<close>

definition strike :: "tx_marker fset \<Rightarrow> pending_pool_transaction \<Rightarrow> pending_pool_transaction" where
  "strike M tx = tx\<lparr> ppt_missing_markers := ppt_missing_markers tx |-| M \<rparr>"

text \<open>What is left of a waiting transaction when the markers \<open>M\<close> are struck.\<close>

definition strike_wait ::
  "tx_marker fset \<Rightarrow> pending_pool_transaction \<Rightarrow> pending_pool_transaction option" where
  "strike_wait M tx = (if ppt_is_ready (strike M tx) then None else Some (strike M tx))"

lemma strike_sel [simp]:
  "ppt_transaction (strike M tx) = ppt_transaction tx"
  "ppt_missing_markers (strike M tx) = ppt_missing_markers tx |-| M"
  "ppt_added_at (strike M tx) = ppt_added_at tx"
  by (simp_all add: strike_def)

lemma ppt_mark_strike: "ppt_mark m tx = strike {|m|} tx"
  by (simp add: ppt_mark_def strike_def)

lemma strike_empty [simp]: "strike {||} tx = tx"
  by (simp add: strike_def)

lemma strike_strike [simp]: "strike N (strike M tx) = strike (M |\<union>| N) tx"
proof -
  have "ppt_missing_markers tx |-| M |-| N = ppt_missing_markers tx |-| (M |\<union>| N)" by auto
  then show ?thesis by (simp add: strike_def)
qed

lemma strike_idle: "m |\<notin>| ppt_missing_markers tx \<Longrightarrow> strike {|m|} tx = tx"
  by (cases tx) (auto simp: strike_def)

lemma strike_ready_mono: "ppt_is_ready (strike M tx) \<Longrightarrow> ppt_is_ready (strike (M |\<union>| N) tx)"
  by (auto simp: ppt_is_ready_def)

definition marked :: "pending_transactions \<Rightarrow> tx_marker \<Rightarrow> tx_hash \<Rightarrow> pending_pool_transaction" where
  "marked s m h = strike {|m|} (the (fmlookup (waiting_queue s) h))"

lemma mark_hashes_spec:
  assumes "distinct hs" and "set hs \<subseteq> fset (fmdom (waiting_queue s))"
  shows "\<exists>s'. mark_hashes m hs s = Some (s', filter ppt_is_ready (map (marked s m) hs)) \<and>
    required_markers s' = required_markers s \<and>
    (\<forall>h. fmlookup (waiting_queue s') h =
       (if h \<in> set hs then (if ppt_is_ready (marked s m h) then None else Some (marked s m h))
        else fmlookup (waiting_queue s) h)) \<and>
    (\<forall>ps. fmlookup (waiting_markers s') ps =
       (if \<exists>h\<in>set hs. ppt_is_ready (marked s m h) \<and> ppt_provides (marked s m h) = ps then None
        else fmlookup (waiting_markers s) ps))"
  using assms
proof (induction hs arbitrary: s)
  case Nil
  then show ?case by simp
next
  case (Cons h hs)
  then obtain tx where tx: "fmlookup (waiting_queue s) h = Some tx" by (auto simp: fmlookup_dom_iff)
  let ?tx = "strike {|m|} tx"
  define t where "t = (if ppt_is_ready ?tx
     then s\<lparr> waiting_queue := fmdrop h (waiting_queue s),
            waiting_markers := fmdrop (ppt_provides ?tx) (waiting_markers s) \<rparr>
     else s\<lparr> waiting_queue := fmupd h ?tx (waiting_queue s) \<rparr>)"
  have h: "marked s m h = ?tx" using tx by (simp add: marked_def)
  have old: "marked t m k = marked s m k" if "k \<in> set hs" for k
    using that Cons.prems(1) by (auto simp: t_def marked_def)
  have sub: "set hs \<subseteq> fset (fmdom (waiting_queue t))"
    using Cons.prems by (auto simp: t_def fmlookup_dom_iff)
  have m: "map (marked t m) hs = map (marked s m) hs"
    using old by (intro map_cong) auto
  obtain s' where
    s': "mark_hashes m hs t = Some (s', filter ppt_is_ready (map (marked s m) hs))"
    and rm: "required_markers s' = required_markers t"
    and wq: "\<And>k. fmlookup (waiting_queue s') k =
       (if k \<in> set hs then (if ppt_is_ready (marked t m k) then None else Some (marked t m k))
        else fmlookup (waiting_queue t) k)"
    and wm: "\<And>ps. fmlookup (waiting_markers s') ps =
       (if \<exists>h\<in>set hs. ppt_is_ready (marked t m h) \<and> ppt_provides (marked t m h) = ps then None
        else fmlookup (waiting_markers t) ps)"
    using Cons.IH [of t] Cons.prems(1) sub unfolding m by auto
  show ?case
  proof (intro exI [of _ s'] conjI allI)
    show "mark_hashes m (h # hs) s = Some (s', filter ppt_is_ready (map (marked s m) (h # hs)))"
      using s' tx h by (simp add: ppt_mark_strike Let_def t_def split: if_splits)
    show "required_markers s' = required_markers s" using rm by (simp add: t_def split: if_splits)
    fix k
    show "fmlookup (waiting_queue s') k =
       (if k \<in> set (h # hs) then (if ppt_is_ready (marked s m k) then None else Some (marked s m k))
        else fmlookup (waiting_queue s) k)"
      using wq [of k] h old Cons.prems(1)
      by (cases "k \<in> set hs"; cases "k = h") (auto simp: t_def)
  next
    fix ps
    have "(\<exists>h\<in>set hs. ppt_is_ready (marked t m h) \<and> ppt_provides (marked t m h) = ps) \<longleftrightarrow>
          (\<exists>h\<in>set hs. ppt_is_ready (marked s m h) \<and> ppt_provides (marked s m h) = ps)"
      using old by auto
    then show "fmlookup (waiting_markers s') ps =
       (if \<exists>h\<in>set (h # hs). ppt_is_ready (marked s m h) \<and> ppt_provides (marked s m h) = ps then None
        else fmlookup (waiting_markers s) ps)"
      using wm [of ps] h by (auto simp: t_def)
  qed
qed

text \<open>One marker, under the invariant.\<close>

lemma mark_one:
  assumes it: "iter_ok it" and inv: "pending_inv s"
    and hs: "fmlookup (required_markers s) m = Some hs"
  defines "t \<equiv> s\<lparr> required_markers := fmdrop m (required_markers s) \<rparr>"
  shows "\<exists>s' us. mark_hashes m (it hs) t = Some (s', us) \<and> pending_inv s' \<and>
    (\<forall>h. fmlookup (waiting_queue s') h = Option.bind (fmlookup (waiting_queue s) h) (strike_wait {|m|})) \<and>
    distinct (map ppt_hash us) \<and>
    set us = {tx'. \<exists>h tx. fmlookup (waiting_queue s) h = Some tx \<and> tx' = strike {|m|} tx \<and> ppt_is_ready tx'}"
proof -
  have in_hs: "h \<in> set (it hs) \<longleftrightarrow> misses s h m" for h
    using pending_invD(1) [OF inv, of h m] hs by (simp add: iter_okD(1) [OF it])
  have mk: "marked t m h = strike {|m|} (the (fmlookup (waiting_queue s) h))" for h
    by (simp add: marked_def t_def)
  have "set (it hs) \<subseteq> fset (fmdom (waiting_queue t))"
    using in_hs by (auto simp: misses_def t_def fmlookup_dom_iff)
  from mark_hashes_spec [OF iter_okD(2) [OF it] this, of m] obtain s' where
    s': "mark_hashes m (it hs) t = Some (s', filter ppt_is_ready (map (marked t m) (it hs)))"
    and rm: "required_markers s' = required_markers t"
    and wq0: "\<forall>h. fmlookup (waiting_queue s') h =
       (if h \<in> set (it hs) then (if ppt_is_ready (marked t m h) then None else Some (marked t m h))
        else fmlookup (waiting_queue t) h)"
    and wm: "\<forall>ps. fmlookup (waiting_markers s') ps =
       (if \<exists>h\<in>set (it hs). ppt_is_ready (marked t m h) \<and> ppt_provides (marked t m h) = ps then None
        else fmlookup (waiting_markers t) ps)"
    by blast
  let ?us = "filter ppt_is_ready (map (marked t m) (it hs))"
  have wq: "fmlookup (waiting_queue s') h = Option.bind (fmlookup (waiting_queue s) h) (strike_wait {|m|})" for h
  proof (cases "fmlookup (waiting_queue s) h")
    case None
    then show ?thesis using wq0 in_hs [of h] by (simp add: misses_def t_def)
  next
    case (Some tx)
    show ?thesis
    proof (cases "m |\<in>| ppt_missing_markers tx")
      case True
      then have "h \<in> set (it hs)" using in_hs Some by (auto simp: misses_def)
      then show ?thesis using wq0 Some by (simp add: mk strike_wait_def)
    next
      case False
      then have "h \<notin> set (it hs)" using in_hs Some by (auto simp: misses_def)
      then show ?thesis
        using wq0 Some False pending_invD(4) [OF inv Some] by (simp add: t_def strike_wait_def strike_idle)
    qed
  qed
  have "pending_inv s'"
  proof (rule pending_invI)
    fix m' h
    have "misses s' h m' \<longleftrightarrow> m' \<noteq> m \<and> misses s h m'"
      by (cases "fmlookup (waiting_queue s) h")
        (auto simp: misses_def wq strike_wait_def ppt_is_ready_def)
    then show "h |\<in>| required_by s' m' \<longleftrightarrow> misses s' h m'"
      using pending_invD(1) [OF inv, of h m'] by (simp add: rm t_def)
  next
    fix m' hs' assume "fmlookup (required_markers s') m' = Some hs'"
    then show "hs' \<noteq> {||}" using pending_invD(2) [OF inv] by (auto simp: rm t_def split: if_splits)
  next
    fix h tx assume "fmlookup (waiting_queue s') h = Some tx"
    then show "ppt_hash tx = h \<and> \<not> ppt_is_ready tx"
      using pending_invD(3) [OF inv] by (auto simp: wq bind_eq_Some_conv strike_wait_def split: if_splits)
  next
    fix ps h assume a: "fmlookup (waiting_markers s') ps = Some h"
    then have ps: "fmlookup (waiting_markers s) ps = Some h"
      and no: "\<not> (\<exists>h\<in>set (it hs). ppt_is_ready (marked t m h) \<and> ppt_provides (marked t m h) = ps)"
      using wm by (auto simp: t_def split: if_splits)
    from pending_invD(5) [OF inv ps] obtain tx where
      tx: "fmlookup (waiting_queue s) h = Some tx" "ppt_provides tx = ps" by blast
    have "\<not> ppt_is_ready (strike {|m|} tx)"
    proof
      assume r: "ppt_is_ready (strike {|m|} tx)"
      then have "m |\<in>| ppt_missing_markers tx"
        using pending_invD(4) [OF inv tx(1)] strike_idle by fastforce
      then have "h \<in> set (it hs)" using in_hs tx by (auto simp: misses_def)
      with no r tx show False by (auto simp: mk)
    qed
    then show "\<exists>tx. fmlookup (waiting_queue s') h = Some tx \<and> ppt_provides tx = ps"
      using tx by (simp add: wq strike_wait_def)
  qed
  moreover have "distinct (map ppt_hash ?us)"
  proof -
    have "map (\<lambda>h. ppt_hash (marked t m h)) (it hs) = it hs"
      using in_hs pending_invD(3) [OF inv] by (intro map_idI) (auto simp: mk misses_def)
    then have "distinct (map ppt_hash (map (marked t m) (it hs)))"
      using iter_okD(2) [OF it] by (simp add: comp_def)
    then show ?thesis by (rule distinct_map_filter)
  qed
  moreover have "set ?us = {tx'. \<exists>h tx. fmlookup (waiting_queue s) h = Some tx \<and>
      tx' = strike {|m|} tx \<and> ppt_is_ready tx'}" (is "_ = ?R")
  proof (intro equalityI subsetI)
    fix tx' assume "tx' \<in> set ?us"
    then obtain h where "h \<in> set (it hs)" "tx' = marked t m h" "ppt_is_ready tx'" by auto
    then show "tx' \<in> ?R" using in_hs unfolding mk misses_def by fastforce
  next
    fix tx' assume "tx' \<in> ?R"
    then obtain h tx where r: "fmlookup (waiting_queue s) h = Some tx" "tx' = strike {|m|} tx" "ppt_is_ready tx'"
      by blast
    then have "m |\<in>| ppt_missing_markers tx"
      using pending_invD(4) [OF inv r(1)] strike_idle by fastforce
    then have "h \<in> set (it hs)" using in_hs r by (auto simp: misses_def)
    then show "tx' \<in> set ?us" using r by (auto simp: mk intro!: image_eqI [of _ _ h])
  qed
  ultimately show ?thesis using s' wq by blast
qed

text \<open>A marker that nobody misses changes nothing.\<close>

lemma strike_unrequired:
  assumes inv: "pending_inv s" and "fmlookup (required_markers s) m = None"
    and tx: "fmlookup (waiting_queue s) h = Some tx"
  shows "strike {|m|} tx = tx"
  using pending_invD(1) [OF inv, of h m] assms by (intro strike_idle) (auto simp: misses_def)

lemma strike_wait_bind:
  "Option.bind (strike_wait M tx) (strike_wait N) = strike_wait (M |\<union>| N) tx"
  using strike_ready_mono [of M tx N] by (auto simp: strike_wait_def)

definition unlocked_by :: "tx_marker fset \<Rightarrow> pending_transactions \<Rightarrow> pending_pool_transaction set" where
  "unlocked_by M s =
     {tx'. \<exists>h tx. fmlookup (waiting_queue s) h = Some tx \<and> tx' = strike M tx \<and> ppt_is_ready tx'}"

lemma mark_and_unlock_refines:
  assumes it: "iter_ok it" and inv: "pending_inv s"
  shows "\<exists>s' us. mark_and_unlock it ms s = Some (s', us) \<and> pending_inv s' \<and>
    (\<forall>h. fmlookup (waiting_queue s') h =
       Option.bind (fmlookup (waiting_queue s) h) (strike_wait (fset_of_list ms))) \<and>
    distinct (map ppt_hash us) \<and> set us = unlocked_by (fset_of_list ms) s"
  using inv
proof (induction ms arbitrary: s)
  case Nil
  have "Option.bind (fmlookup (waiting_queue s) h) (strike_wait {||}) = fmlookup (waiting_queue s) h" for h
    using pending_invD(4) [OF Nil] by (cases "fmlookup (waiting_queue s) h") (auto simp: strike_wait_def)
  then show ?case using Nil pending_invD(4) [OF Nil] by (auto simp: unlocked_by_def)
next
  case (Cons m ms)
  let ?M = "fset_of_list ms"
  show ?case
  proof (cases "fmlookup (required_markers s) m")
    case None
    have w: "Option.bind (fmlookup (waiting_queue s) h) (strike_wait (finsert m ?M)) =
        Option.bind (fmlookup (waiting_queue s) h) (strike_wait ?M)" for h
    proof (cases "fmlookup (waiting_queue s) h")
      case (Some tx)
      have "strike (finsert m ?M) tx = strike ?M (strike {|m|} tx)" by simp
      then show ?thesis
        using strike_unrequired [OF Cons.prems None Some] Some by (simp add: strike_wait_def)
    qed simp
    have u: "unlocked_by (finsert m ?M) s = unlocked_by ?M s"
    proof -
      have "strike (finsert m ?M) tx = strike ?M tx" if "fmlookup (waiting_queue s) h = Some tx" for h tx
        using strike_strike [of ?M "{|m|}" tx] strike_unrequired [OF Cons.prems None that] by simp
      then show ?thesis by (fastforce simp: unlocked_by_def)
    qed
    show ?thesis using Cons.IH [OF Cons.prems] None by (simp add: w u)
  next
    case (Some hs)
    define t where "t = s\<lparr> required_markers := fmdrop m (required_markers s) \<rparr>"
    from mark_one [OF it Cons.prems Some] obtain s1 us1 where
      s1: "mark_hashes m (it hs) t = Some (s1, us1)" "pending_inv s1"
      and wq1: "\<And>h. fmlookup (waiting_queue s1) h = Option.bind (fmlookup (waiting_queue s) h) (strike_wait {|m|})"
      and us1: "distinct (map ppt_hash us1)" "set us1 = unlocked_by {|m|} s"
      unfolding t_def unlocked_by_def by blast
    from Cons.IH [OF s1(2)] obtain s2 us2 where
      s2: "mark_and_unlock it ms s1 = Some (s2, us2)" "pending_inv s2"
      and wq2: "\<And>h. fmlookup (waiting_queue s2) h = Option.bind (fmlookup (waiting_queue s1) h) (strike_wait ?M)"
      and us2: "distinct (map ppt_hash us2)" "set us2 = unlocked_by ?M s1"
      by blast
    have wq: "fmlookup (waiting_queue s2) h =
        Option.bind (fmlookup (waiting_queue s) h) (strike_wait (fset_of_list (m # ms)))" for h
      by (cases "fmlookup (waiting_queue s) h") (simp_all add: wq2 wq1 strike_wait_bind)
    have later: "tx' \<in> unlocked_by ?M s1 \<longleftrightarrow>
       (\<exists>h tx. fmlookup (waiting_queue s) h = Some tx \<and> \<not> ppt_is_ready (strike {|m|} tx) \<and>
          tx' = strike (fset_of_list (m # ms)) tx \<and> ppt_is_ready tx')" for tx'
    proof -
      have "fmlookup (waiting_queue s1) h = Some tx1 \<longleftrightarrow>
        (\<exists>tx. fmlookup (waiting_queue s) h = Some tx \<and> \<not> ppt_is_ready (strike {|m|} tx) \<and>
           tx1 = strike {|m|} tx)" for h tx1
        by (cases "fmlookup (waiting_queue s) h") (auto simp: wq1 strike_wait_def)
      then show ?thesis unfolding unlocked_by_def by fastforce
    qed
    have now: "tx' \<in> unlocked_by {|m|} s \<longleftrightarrow>
       (\<exists>h tx. fmlookup (waiting_queue s) h = Some tx \<and> ppt_is_ready (strike {|m|} tx) \<and>
          tx' = strike (fset_of_list (m # ms)) tx \<and> ppt_is_ready tx')" for tx'
    proof -
      have "strike (fset_of_list (m # ms)) tx = strike {|m|} tx" if "ppt_is_ready (strike {|m|} tx)" for tx
        using that by (cases tx) (auto simp: strike_def ppt_is_ready_def)
      then show ?thesis by (auto simp: unlocked_by_def) metis+
    qed
    have us: "set (us1 @ us2) = unlocked_by (fset_of_list (m # ms)) s"
    proof -
      have "tx' \<in> unlocked_by (fset_of_list (m # ms)) s \<longleftrightarrow>
          tx' \<in> unlocked_by {|m|} s \<or> tx' \<in> unlocked_by ?M s1" for tx'
        unfolding later now by (subst unlocked_by_def) blast
      then show ?thesis using us1 us2 by auto
    qed
    have "ppt_hash ` set us1 \<inter> ppt_hash ` set us2 = {}"
    proof (rule ccontr)
      assume "ppt_hash ` set us1 \<inter> ppt_hash ` set us2 \<noteq> {}"
      then obtain a b where ab: "a \<in> unlocked_by {|m|} s" "b \<in> unlocked_by ?M s1" "ppt_hash a = ppt_hash b"
        using us1 us2 by auto
      then obtain h k ta tb where "fmlookup (waiting_queue s) h = Some ta" "ppt_is_ready (strike {|m|} ta)"
        "fmlookup (waiting_queue s) k = Some tb" "\<not> ppt_is_ready (strike {|m|} tb)"
        "ppt_hash ta = ppt_hash tb"
        using now later by fastforce
      then show False using pending_invD(3) [OF Cons.prems] by fastforce
    qed
    then have "distinct (map ppt_hash (us1 @ us2))" using us1 us2 by simp
    moreover have "mark_and_unlock it (m # ms) s = Some (s2, us1 @ us2)"
      using Some s1(1) s2(1) by (simp add: t_def)
    ultimately show ?thesis using s2(2) wq us by blast
  qed
qed

section \<open>Adding and removing\<close>

lemma fmlookup_fold_require:
  "fmlookup (fold (require_marker h) ms rm) m =
     (if m \<in> set ms then Some (finsert h (unwrap_or (fmlookup rm m) {||})) else fmlookup rm m)"
  by (induction ms arbitrary: rm) (auto simp: require_marker_def)

lemma fmlookup_fold_unrequire:
  "fmlookup (fold (unrequire_marker h) ms rm) m =
     (if m \<in> set ms
      then Option.bind (fmlookup rm m) (\<lambda>r. if r |-| {|h|} = {||} then None else Some (r |-| {|h|}))
      else fmlookup rm m)"
proof (induction ms arbitrary: rm)
  case (Cons k ms)
  have "fmlookup (unrequire_marker h k rm) m =
    (if m = k then Option.bind (fmlookup rm m) (\<lambda>r. if r |-| {|h|} = {||} then None else Some (r |-| {|h|}))
     else fmlookup rm m)"
    by (auto simp: unrequire_marker_def Let_def split: option.split)
  then show ?case
    using Cons [of "unrequire_marker h k rm"]
    by (cases "fmlookup rm m"; cases "m = k"; cases "m \<in> set ms") (auto split: if_splits)
qed simp

lemma pending_add_spec:
  assumes it: "iter_ok it" and inv: "pending_inv s"
    and new: "\<not> ppt_is_ready tx" "fmlookup (waiting_queue s) (ppt_hash tx) = None"
  shows "\<exists>s' r. pending_add_transaction it s tx = Some (s', r) \<and> pending_inv s' \<and>
    (case r of
       Inl e \<Rightarrow> s' = s \<and> e = ReplacementUnderpriced (ppt_transaction tx)
     | Inr _ \<Rightarrow> waiting_queue s' = fmupd (ppt_hash tx) tx (waiting_queue s))"
proof (cases "case Option.bind (fmlookup (waiting_markers s) (ppt_provides tx)) (fmlookup (waiting_queue s)) of
     None \<Rightarrow> False
   | Some replace \<Rightarrow> pt_gas_price (ppt_transaction tx) < pt_gas_price (ppt_transaction replace)")
  case True
  then show ?thesis using new inv by (simp add: pending_add_transaction_def)
next
  case False
  define s' where "s' = s\<lparr> required_markers :=
        fold (require_marker (ppt_hash tx)) (it (ppt_missing_markers tx)) (required_markers s),
      waiting_markers := fmupd (ppt_provides tx) (ppt_hash tx) (waiting_markers s),
      waiting_queue := fmupd (ppt_hash tx) tx (waiting_queue s) \<rparr>"
  have rm: "fmlookup (required_markers s') m =
     (if m |\<in>| ppt_missing_markers tx then Some (finsert (ppt_hash tx) (required_by s m))
      else fmlookup (required_markers s) m)" for m
    by (simp add: s'_def fmlookup_fold_require iter_okD(1) [OF it])
  have wq: "waiting_queue s' = fmupd (ppt_hash tx) tx (waiting_queue s)"
    and wm: "waiting_markers s' = fmupd (ppt_provides tx) (ppt_hash tx) (waiting_markers s)"
    by (simp_all add: s'_def)
  have "pending_inv s'"
  proof (rule pending_invI)
    fix m h
    show "h |\<in>| required_by s' m \<longleftrightarrow> misses s' h m"
      using pending_invD(1) [OF inv, of h m] new(2) by (auto simp: rm misses_def wq)
  next
    fix m hs assume "fmlookup (required_markers s') m = Some hs"
    then show "hs \<noteq> {||}" using pending_invD(2) [OF inv] by (auto simp: rm split: if_splits)
  next
    fix h tx' assume "fmlookup (waiting_queue s') h = Some tx'"
    then show "ppt_hash tx' = h \<and> \<not> ppt_is_ready tx'"
      using pending_invD(3,4) [OF inv] new by (auto simp: wq split: if_splits)
  next
    fix ps h assume "fmlookup (waiting_markers s') ps = Some h"
    then show "\<exists>tx. fmlookup (waiting_queue s') h = Some tx \<and> ppt_provides tx = ps"
      using pending_invD(5) [OF inv, of ps h] new(2) by (auto simp: wq wm split: if_splits)
  qed
  moreover have "pending_add_transaction it s tx = Some (s', Inr ())"
    using False new by (auto simp: pending_add_transaction_def s'_def)
  ultimately show ?thesis by (auto simp: wq)
qed

lemma pending_remove_one:
  assumes it: "iter_ok it" and inv: "pending_inv s" and tx: "fmlookup (waiting_queue s) h = Some tx"
  shows "pending_inv (s\<lparr> waiting_queue := fmdrop h (waiting_queue s),
      waiting_markers := fmdrop (ppt_provides tx) (waiting_markers s),
      required_markers :=
        fold (unrequire_marker h) (it (ppt_missing_markers tx)) (required_markers s) \<rparr>)"
proof -
  have mm: "h |\<in>| required_by s m \<longleftrightarrow> m |\<in>| ppt_missing_markers tx" for m
    using pending_invD(1) [OF inv, of h m] tx by (simp add: misses_def)
  show ?thesis
  proof (rule pending_invI, goal_cases)
    case (1 m k)
    show ?case
      using pending_invD(1) [OF inv, of k m] mm [of m] tx
      by (cases "fmlookup (required_markers s) m")
        (auto simp: misses_def fmlookup_fold_unrequire iter_okD(1) [OF it])
  next
    case (2 m hs)
    then show ?case
      using pending_invD(2) [OF inv, of m]
      by (cases "fmlookup (required_markers s) m")
        (auto simp: fmlookup_fold_unrequire split: if_splits)
  next
    case (3 k tx')
    then show ?case using pending_invD(3,4) [OF inv] by (auto split: if_splits)
  next
    case (4 ps k)
    then show ?case using pending_invD(5) [OF inv, of ps k] tx by (auto split: if_splits)
  qed
qed

lemma pending_remove_spec:
  assumes it: "iter_ok it" and "pending_inv s" and "pending_remove it hs s = (s', removed)"
  shows "pending_inv s' \<and>
    (\<forall>h. fmlookup (waiting_queue s') h = (if h \<in> set hs then None else fmlookup (waiting_queue s) h)) \<and>
    distinct (map pt_hash removed) \<and>
    set removed = {ppt_transaction tx | tx h. h \<in> set hs \<and> fmlookup (waiting_queue s) h = Some tx}"
  using assms(2,3)
proof (induction hs arbitrary: s s' removed)
  case Nil
  then show ?case by simp
next
  case (Cons h hs)
  show ?case
  proof (cases "fmlookup (waiting_queue s) h")
    case None
    with Cons.prems have "pending_remove it hs s = (s', removed)" by simp
    from Cons.IH [OF Cons.prems(1) this] show ?thesis using None by fastforce
  next
    case (Some tx)
    define t where "t = s\<lparr> waiting_queue := fmdrop h (waiting_queue s),
      waiting_markers := fmdrop (ppt_provides tx) (waiting_markers s),
      required_markers :=
        fold (unrequire_marker h) (it (ppt_missing_markers tx)) (required_markers s) \<rparr>"
    obtain rs where rs: "pending_remove it hs t = (s', rs)" "removed = ppt_transaction tx # rs"
      using Cons.prems(2) Some by (auto simp: t_def Let_def split: prod.splits)
    have inv: "pending_inv t"
      using pending_remove_one [OF it Cons.prems(1) Some] by (simp add: t_def)
    have wq: "fmlookup (waiting_queue t) k = (if k = h then None else fmlookup (waiting_queue s) k)" for k
      by (simp add: t_def)
    note IH = Cons.IH [OF inv rs(1)]
    have hash: "ppt_hash tx = h" using pending_invD(3) [OF Cons.prems(1) Some] .
    have "h \<notin> pt_hash ` set rs"
    proof
      assume "h \<in> pt_hash ` set rs"
      then obtain tx' k where "fmlookup (waiting_queue t) k = Some tx'" "ppt_hash tx' = h"
        using IH by auto
      then show False using pending_invD(3) [OF inv] wq by auto
    qed
    then have "distinct (map pt_hash removed)" using IH rs(2) hash by auto
    moreover have "set removed = {ppt_transaction tx | tx k. k \<in> set (h # hs) \<and>
        fmlookup (waiting_queue s) k = Some tx}"
    proof -
      have "set rs = {ppt_transaction tx | tx k. k \<in> set hs \<and> k \<noteq> h \<and> fmlookup (waiting_queue s) k = Some tx}"
        using IH wq by (auto split: if_splits)
      then show ?thesis using rs(2) Some by (auto; metis option.inject)
    qed
    ultimately show ?thesis using IH wq by auto
  qed
qed

text \<open>Nothing but the missing markers of a waiting transaction ever changes.\<close>

lemma strike_waitD: "strike_wait M tx = Some tx' \<Longrightarrow> ppt_transaction tx' = ppt_transaction tx"
  by (auto simp: strike_wait_def split: if_splits)

lemma unlocked_byD:
  "tx' \<in> unlocked_by M s \<Longrightarrow> ppt_is_ready tx' \<and>
     (\<exists>h tx. fmlookup (waiting_queue s) h = Some tx \<and> ppt_transaction tx' = ppt_transaction tx)"
  unfolding unlocked_by_def by fastforce

end
