(* ===== verification/Pool_Ready.thy ===== *)
theory Pool_Ready
  imports Pool_Pending
begin

text \<open>
  The ready half of the transaction pool (\<^verbatim>\<open>crates/anvil/src/eth/pool/transactions.rs\<close>):
  \<^verbatim>\<open>ReadyTransactions\<close> and the iterator that hands its transactions to the miner.

  The invariant \<open>ready_inv\<close> says that \<^verbatim>\<open>provided_markers\<close> maps a marker to the one ready transaction
  that provides it. It makes the \<^verbatim>\<open>expect("hash included;")\<close> of \<^verbatim>\<open>add_transaction\<close> and the
  \<^verbatim>\<open>assert_eq!\<close> of \<^verbatim>\<open>prune_tags\<close> unreachable. The two work-list loops (\<^verbatim>\<open>remove_with_markers\<close> and
  \<^verbatim>\<open>prune_tags\<close>) terminate: every round takes a transaction out of the pool or shortens the list.
\<close>

section \<open>References and their order\<close>

datatype ordering = Less | Equal | Greater

definition cmp_word :: "'a::len word \<Rightarrow> 'a word \<Rightarrow> ordering" where
  "cmp_word a b = (if a < b then Less else if a = b then Equal else Greater)"

fun then_with :: "ordering \<Rightarrow> ordering \<Rightarrow> ordering" where
  "then_with Equal b = b"
| "then_with a b = a"

record pool_transaction_ref =
  ptr_transaction :: pool_transaction
  ptr_id :: u64

text \<open>\<^verbatim>\<open>Ord for PoolTransactionRef\<close>: higher priority is greater; within a priority, the smaller id is.\<close>

definition ptr_cmp :: "pool_transaction_ref \<Rightarrow> pool_transaction_ref \<Rightarrow> ordering" where
  "ptr_cmp a b =
     then_with (cmp_word (pt_priority (ptr_transaction a)) (pt_priority (ptr_transaction b)))
       (cmp_word (ptr_id b) (ptr_id a))"

text \<open>
  A \<^verbatim>\<open>BTreeSet\<close> is an ascending list. Inserting an element that compares equal to one present
  keeps the old one; \<^verbatim>\<open>remove\<close> takes out the element that compares equal.
\<close>

fun bts_insert :: "pool_transaction_ref \<Rightarrow> pool_transaction_ref list \<Rightarrow> pool_transaction_ref list" where
  "bts_insert x [] = [x]"
| "bts_insert x (y # ys) =
     (case ptr_cmp x y of
        Less \<Rightarrow> x # y # ys
      | Equal \<Rightarrow> y # ys
      | Greater \<Rightarrow> y # bts_insert x ys)"

fun bts_remove :: "pool_transaction_ref \<Rightarrow> pool_transaction_ref list \<Rightarrow> pool_transaction_ref list" where
  "bts_remove x [] = []"
| "bts_remove x (y # ys) =
     (case ptr_cmp x y of Equal \<Rightarrow> ys | _ \<Rightarrow> y # bts_remove x ys)"

section \<open>State\<close>

record ready_transaction =
  rt_transaction :: pool_transaction_ref
  rt_unlocks :: "tx_hash list"
  rt_requires_offset :: nat

abbreviation rt_tx :: "ready_transaction \<Rightarrow> pool_transaction" where
  "rt_tx rt \<equiv> ptr_transaction (rt_transaction rt)"

definition rt_provides :: "ready_transaction \<Rightarrow> tx_marker list" where
  "rt_provides rt = pt_provides (rt_tx rt)"

definition rt_gas_price :: "ready_transaction \<Rightarrow> u128" where
  "rt_gas_price rt = pt_gas_price (rt_tx rt)"

type_synonym provided_map = "(tx_marker, tx_hash) fmap"
type_synonym ready_map = "(tx_hash, ready_transaction) fmap"

record ready_transactions =
  rd_id :: u64
  rd_provided_markers :: provided_map
  rd_ready_tx :: ready_map
  rd_independent :: "pool_transaction_ref list"

definition ready_default :: ready_transactions where
  "ready_default =
     \<lparr> rd_id = 0, rd_provided_markers = fmempty, rd_ready_tx = fmempty, rd_independent = [] \<rparr>"

definition ready_clear :: "ready_transactions \<Rightarrow> ready_transactions" where
  "ready_clear s = s\<lparr> rd_provided_markers := fmempty, rd_ready_tx := fmempty, rd_independent := [] \<rparr>"

definition ready_contains :: "ready_transactions \<Rightarrow> tx_hash \<Rightarrow> bool" where
  "ready_contains s h \<longleftrightarrow> fmlookup (rd_ready_tx s) h \<noteq> None"

definition ready_get :: "ready_transactions \<Rightarrow> tx_hash \<Rightarrow> ready_transaction option" where
  "ready_get s h = fmlookup (rd_ready_tx s) h"

definition ready_next_id :: "ready_transactions \<Rightarrow> ready_transactions \<times> u64" where
  "ready_next_id s = (s\<lparr> rd_id := rd_id s + 1 \<rparr>, rd_id s)"

section \<open>Removing transactions and their dependents\<close>

text \<open>
  The loop marked "remove from unlocks" in \<^verbatim>\<open>remove_with_markers\<close>. The pattern
  \<^verbatim>\<open>if let Some(hash)\<close> rebinds \<^verbatim>\<open>hash\<close> to the provider of the marker, and it is this hash that is looked
  for in the provider's own \<^verbatim>\<open>unlocks\<close>.
\<close>

definition unlink_marker :: "provided_map \<Rightarrow> tx_marker \<Rightarrow> ready_map \<Rightarrow> ready_map" where
  "unlink_marker provided mark ready =
     (case fmlookup provided mark of
        None \<Rightarrow> ready
      | Some hash \<Rightarrow>
          (case fmlookup ready hash of
             None \<Rightarrow> ready
           | Some tx \<Rightarrow>
               fmupd hash (tx\<lparr> rt_unlocks := swap_remove_first hash (rt_unlocks tx) \<rparr>) ready))"

definition invalidated_by :: "tx_marker fset option \<Rightarrow> pool_transaction \<Rightarrow> tx_marker list" where
  "invalidated_by marker_filter tx =
     filter (\<lambda>mark. case marker_filter of None \<Rightarrow> True | Some f \<Rightarrow> mark |\<notin>| f) (pt_provides tx)"

text \<open>One round of the loop on a transaction that is in the pool.\<close>

definition remove_one ::
  "tx_marker fset option \<Rightarrow> tx_hash \<Rightarrow> ready_transaction \<Rightarrow> ready_transactions \<Rightarrow> ready_transactions" where
  "remove_one marker_filter h tx s =
     (let provided = fold fmdrop (invalidated_by marker_filter (rt_tx tx)) (rd_provided_markers s) in
      s\<lparr> rd_provided_markers := provided,
         rd_ready_tx :=
           fold (unlink_marker provided) (pt_requires (rt_tx tx)) (fmdrop h (rd_ready_tx s)),
         rd_independent := bts_remove (rt_transaction tx) (rd_independent s) \<rparr>)"

lemma fmdom_unlink_marker [simp]: "fmdom (unlink_marker provided mark ready) = fmdom ready"
  by (auto simp: unlink_marker_def fmdomI finsert_absorb split: option.split)

lemma fmdom_fold_unlink [simp]: "fmdom (fold (unlink_marker provided) marks ready) = fmdom ready"
  by (induction marks arbitrary: ready) auto

lemma fmdom_remove_one [simp]: "fmdom (rd_ready_tx (remove_one f h tx s)) = fmdom (rd_ready_tx s) |-| {|h|}"
  by (simp add: remove_one_def Let_def)

text \<open>\<^verbatim>\<open>tx_hashes\<close> is a stack: \<^verbatim>\<open>pop\<close> takes the last element, \<^verbatim>\<open>append\<close> adds at the end.\<close>

function remove_with_markers ::
  "tx_hash list \<Rightarrow> tx_marker fset option \<Rightarrow> ready_transactions \<Rightarrow>
   ready_transactions \<times> pool_transaction list" where
  "remove_with_markers tx_hashes marker_filter s =
     (if tx_hashes = [] then (s, [])
      else let hash = last tx_hashes; rest = butlast tx_hashes in
        case fmlookup (rd_ready_tx s) hash of
          None \<Rightarrow> remove_with_markers rest marker_filter s
        | Some tx \<Rightarrow>
            let (s', removed) = remove_with_markers
                  (if invalidated_by marker_filter (rt_tx tx) \<noteq> [] then rest @ rt_unlocks tx else rest)
                  marker_filter (remove_one marker_filter hash tx s)
            in (s', rt_tx tx # removed))"
  by pat_completeness auto
termination
proof (relation "measures [\<lambda>(hs, f, s). fcard (fmdom (rd_ready_tx s)), \<lambda>(hs, f, s). length hs]", goal_cases)
  case 1
  show ?case by simp
next
  case (2 tx_hashes marker_filter s hash rest)
  then show ?case by simp
next
  case (3 tx_hashes marker_filter s hash rest tx)
  then have "fcard (fmdom (rd_ready_tx (remove_one marker_filter hash tx s))) < fcard (fmdom (rd_ready_tx s))"
    unfolding fmdom_remove_one by (intro fcard_fmdom_remove_less)
  then show ?case by (simp del: fmdom_remove_one)
qed

declare remove_with_markers.simps [simp del]

definition clear_transactions ::
  "tx_hash list \<Rightarrow> ready_transactions \<Rightarrow> ready_transactions \<times> pool_transaction list" where
  "clear_transactions tx_hashes s = remove_with_markers tx_hashes None s"

section \<open>Pruning\<close>

text \<open>
  The closure \<^verbatim>\<open>previous_markers\<close> and the loop over \<^verbatim>\<open>tx.requires\<close> that calls it: the pruned hash
  leaves the \<^verbatim>\<open>unlocks\<close> of its predecessors; a predecessor with none left is pruned too.
\<close>

definition previous_markers ::
  "provided_map \<Rightarrow> tx_hash \<Rightarrow> tx_marker \<Rightarrow> ready_map \<Rightarrow> ready_map \<times> tx_marker list" where
  "previous_markers provided hash marker ready =
     (case fmlookup provided marker of
        None \<Rightarrow> (ready, [])
      | Some prev_hash \<Rightarrow>
          (case fmlookup ready prev_hash of
             None \<Rightarrow> (ready, [])
           | Some tx2 \<Rightarrow>
               let unlocks' = swap_remove_first hash (rt_unlocks tx2) in
               (fmupd prev_hash (tx2\<lparr> rt_unlocks := unlocks' \<rparr>) ready,
                if unlocks' = [] then pt_provides (rt_tx tx2) else [])))"

fun prune_previous ::
  "provided_map \<Rightarrow> tx_hash \<Rightarrow> tx_marker list \<Rightarrow> ready_map \<Rightarrow> ready_map \<times> tx_marker list" where
  "prune_previous provided hash [] ready = (ready, [])"
| "prune_previous provided hash (m # ms) ready =
     (let (ready', tags) = previous_markers provided hash m ready;
          (ready'', tags') = prune_previous provided hash ms ready'
      in (ready'', tags @ tags'))"

text \<open>\<^verbatim>\<open>for hash in unlocks\<close>: one more marker of each dependent is satisfied.\<close>

fun prune_unlock ::
  "tx_hash list \<Rightarrow> ready_map \<Rightarrow> pool_transaction_ref list \<Rightarrow> ready_map \<times> pool_transaction_ref list" where
  "prune_unlock [] ready ind = (ready, ind)"
| "prune_unlock (h # hs) ready ind =
     (case fmlookup ready h of
        None \<Rightarrow> prune_unlock hs ready ind
      | Some tx \<Rightarrow>
          let tx' = tx\<lparr> rt_requires_offset := rt_requires_offset tx + 1 \<rparr> in
          prune_unlock hs (fmupd h tx' ready)
            (if rt_requires_offset tx' = length (pt_requires (rt_tx tx'))
             then bts_insert (rt_transaction tx') ind else ind))"

text \<open>The closing loop, with its \<^verbatim>\<open>assert_eq!\<close>.\<close>

fun drop_provides :: "tx_marker \<Rightarrow> tx_hash \<Rightarrow> tx_marker list \<Rightarrow> provided_map \<Rightarrow> provided_map option" where
  "drop_provides current hash [] provided = Some provided"
| "drop_provides current hash (m # ms) provided =
     (if fmlookup provided m = (if current = m then None else Some hash)
      then drop_provides current hash ms (fmdrop m provided) else None)"

lemma drop_provides_Some:
  "drop_provides cur h ms provided = Some provided' \<Longrightarrow>
   fmlookup provided' m = (if m \<in> set ms then None else fmlookup provided m)"
  by (induction ms arbitrary: provided) (auto split: if_splits)

lemma drop_provides_fcard:
  assumes "drop_provides cur h ms provided = Some provided'"
  shows "fcard (fmdom provided') \<le> fcard (fmdom provided)"
proof (rule fcard_mono)
  show "fmdom provided' |\<subseteq>| fmdom provided"
    using drop_provides_Some [OF assms] by (fastforce simp: fmlookup_dom_iff split: if_splits)
qed

definition prune_one ::
  "tx_marker \<Rightarrow> tx_hash \<Rightarrow> ready_transaction \<Rightarrow> ready_transactions \<Rightarrow>
   (ready_transactions \<times> tx_marker list) option" where
  "prune_one marker h tx s =
     (let ptx = rt_tx tx;
          (ready1, tags) = prune_previous (rd_provided_markers s) (pt_hash ptx) (pt_requires ptx)
             (fmdrop h (rd_ready_tx s));
          (ready2, ind) = prune_unlock (rt_unlocks tx) ready1
             (bts_remove (rt_transaction tx) (rd_independent s))
      in case drop_provides marker (pt_hash ptx) (pt_provides ptx) (rd_provided_markers s) of
           None \<Rightarrow> None
         | Some provided \<Rightarrow>
             Some (s\<lparr> rd_provided_markers := provided, rd_ready_tx := ready2, rd_independent := ind \<rparr>,
                   tags))"

lemma prune_one_provided:
  "prune_one m h tx s = Some (s', tags) \<Longrightarrow>
   fcard (fmdom (rd_provided_markers s')) \<le> fcard (fmdom (rd_provided_markers s))"
  by (auto simp: prune_one_def Let_def drop_provides_fcard split: option.splits prod.splits)

text \<open>\<open>None\<close> is the failed assertion.\<close>

function prune_loop ::
  "tx_marker list \<Rightarrow> ready_transactions \<Rightarrow> (ready_transactions \<times> pool_transaction list) option" where
  "prune_loop remove s =
     (if remove = [] then Some (s, [])
      else let marker = last remove; rest = butlast remove in
        case fmlookup (rd_provided_markers s) marker of
          None \<Rightarrow> prune_loop rest s
        | Some hash \<Rightarrow>
            let s1 = s\<lparr> rd_provided_markers := fmdrop marker (rd_provided_markers s) \<rparr> in
            (case fmlookup (rd_ready_tx s1) hash of
               None \<Rightarrow> prune_loop rest s1
             | Some tx \<Rightarrow>
                 (case prune_one marker hash tx s1 of
                    None \<Rightarrow> None
                  | Some (s2, tags) \<Rightarrow>
                      (case prune_loop (rest @ tags) s2 of
                         None \<Rightarrow> None
                       | Some (s3, removed) \<Rightarrow> Some (s3, rt_tx tx # removed)))))"
  by pat_completeness auto
termination
proof (relation "measures [\<lambda>(ms, s). fcard (fmdom (rd_provided_markers s)), \<lambda>(ms, s). length ms]", goal_cases)
  case 1
  show ?case by simp
next
  case (2 remove s marker rest)
  then show ?case by simp
next
  case (3 remove s marker rest hash s1)
  then have "fcard (fmdom (rd_provided_markers s1)) < fcard (fmdom (rd_provided_markers s))"
    by (simp add: fmdom_drop fcard_fmdom_remove_less del: fcard_fminus_fsingleton)
  then show ?case by simp
next
  case (4 remove s marker rest hash s1 tx p s2 tags)
  then have "fcard (fmdom (rd_provided_markers s2)) \<le> fcard (fmdom (rd_provided_markers s1))"
    by (auto dest: prune_one_provided)
  also have "\<dots> < fcard (fmdom (rd_provided_markers s))"
    using 4 by (simp add: fmdom_drop fcard_fmdom_remove_less del: fcard_fminus_fsingleton)
  finally show ?case by simp
qed

declare prune_loop.simps [simp del]

definition prune_tags ::
  "tx_marker \<Rightarrow> ready_transactions \<Rightarrow> (ready_transactions \<times> pool_transaction list) option" where
  "prune_tags marker s = prune_loop [marker] s"

section \<open>Adding\<close>

text \<open>The price check of \<^verbatim>\<open>replaced_transactions\<close> and the dependents it collects.\<close>

fun replaced_unlocks ::
  "pool_transaction \<Rightarrow> ready_map \<Rightarrow> tx_hash list \<Rightarrow> (pool_error, tx_hash list) result" where
  "replaced_unlocks tx ready [] = Inr []"
| "replaced_unlocks tx ready (h # hs) =
     (case fmlookup ready h of
        None \<Rightarrow> replaced_unlocks tx ready hs
      | Some to_remove \<Rightarrow>
          if rt_provides to_remove = pt_provides tx \<and> pt_gas_price tx \<le> rt_gas_price to_remove
          then Inl (ReplacementUnderpriced tx)
          else (case replaced_unlocks tx ready hs of
                  Inl e \<Rightarrow> Inl e
                | Inr us \<Rightarrow> Inr (rt_unlocks to_remove @ us)))"

definition replaced_transactions ::
  "tx_hash iter_order \<Rightarrow> pool_transaction \<Rightarrow> ready_transactions \<Rightarrow>
   ready_transactions \<times> (pool_error, pool_transaction list \<times> tx_hash list) result" where
  "replaced_transactions it tx s =
     (let remove_hashes =
            fset_of_list (List.map_filter (fmlookup (rd_provided_markers s)) (pt_provides tx)) in
      if remove_hashes = {||} then (s, Inr ([], []))
      else case replaced_unlocks tx (rd_ready_tx s) (it remove_hashes) of
             Inl e \<Rightarrow> (s, Inl e)
           | Inr unlocked_tx \<Rightarrow>
               let (s', removed_tx) =
                     remove_with_markers (it remove_hashes) (Some (fset_of_list (pt_provides tx))) s
               in (s', Inr (removed_tx, unlocked_tx)))"

text \<open>\<^verbatim>\<open>for mark in &tx.transaction.requires\<close>; \<open>None\<close> is the failed \<^verbatim>\<open>expect\<close>.\<close>

fun add_links ::
  "provided_map \<Rightarrow> tx_hash \<Rightarrow> tx_marker list \<Rightarrow> ready_map \<times> bool \<times> nat \<Rightarrow> (ready_map \<times> bool \<times> nat) option" where
  "add_links provided hash [] st = Some st"
| "add_links provided hash (mark # marks) (ready, independent, requires_offset) =
     (case fmlookup provided mark of
        Some other \<Rightarrow>
          (case fmlookup ready other of
             None \<Rightarrow> None
           | Some tx \<Rightarrow>
               add_links provided hash marks
                 (fmupd other (tx\<lparr> rt_unlocks := rt_unlocks tx @ [hash] \<rparr>) ready, False, requires_offset))
      | None \<Rightarrow> add_links provided hash marks (ready, independent, requires_offset + 1))"

definition ready_add_transaction ::
  "tx_hash iter_order \<Rightarrow> ready_transactions \<Rightarrow> pending_pool_transaction \<Rightarrow>
   (ready_transactions \<times> (pool_error, pool_transaction list) result) option" where
  "ready_add_transaction it s ptx =
     (let tx = ppt_transaction ptx; hash = pt_hash tx in
      if \<not> ppt_is_ready ptx \<or> fmlookup (rd_ready_tx s) hash \<noteq> None then None
      else case replaced_transactions it tx s of
             (s1, Inl e) \<Rightarrow> Some (s1, Inl e)
           | (s1, Inr (replaced_tx, unlocks)) \<Rightarrow>
               let (s2, id) = ready_next_id s1 in
               (case add_links (rd_provided_markers s2) hash (pt_requires tx)
                       (rd_ready_tx s2, True, 0) of
                  None \<Rightarrow> None
                | Some (ready, independent, requires_offset) \<Rightarrow>
                    let transaction = \<lparr> ptr_transaction = tx, ptr_id = id \<rparr> in
                    Some (s2\<lparr> rd_provided_markers :=
                               fold (\<lambda>mark. fmupd mark hash) (pt_provides tx) (rd_provided_markers s2),
                             rd_independent :=
                               (if independent then bts_insert transaction (rd_independent s2)
                                else rd_independent s2),
                             rd_ready_tx := fmupd hash
                               \<lparr> rt_transaction = transaction, rt_unlocks = unlocks,
                                 rt_requires_offset = requires_offset \<rparr> ready \<rparr>,
                          Inr replaced_tx)))"

section \<open>The iterator\<close>

record transactions_iterator =
  ti_all :: ready_map
  ti_awaiting :: "(tx_hash, nat \<times> pool_transaction_ref) fmap"
  ti_independent :: "pool_transaction_ref list"
  ti_invalid :: "tx_hash fset"

definition get_transactions :: "ready_transactions \<Rightarrow> transactions_iterator" where
  "get_transactions s =
     \<lparr> ti_all = rd_ready_tx s, ti_awaiting = fmempty, ti_independent = rd_independent s,
       ti_invalid = {||} \<rparr>"

definition independent_or_awaiting ::
  "nat \<Rightarrow> pool_transaction_ref \<Rightarrow> transactions_iterator \<Rightarrow> transactions_iterator" where
  "independent_or_awaiting satisfied tx_ref i =
     (if length (pt_requires (ptr_transaction tx_ref)) \<le> satisfied
      then i\<lparr> ti_independent := bts_insert tx_ref (ti_independent i) \<rparr>
      else i\<lparr> ti_awaiting := fmupd (pt_hash (ptr_transaction tx_ref)) (satisfied, tx_ref) (ti_awaiting i) \<rparr>)"

text \<open>\<^verbatim>\<open>for hash in &ready.unlocks\<close> in \<^verbatim>\<open>next\<close>.\<close>

definition iter_unlock :: "tx_hash \<Rightarrow> transactions_iterator \<Rightarrow> transactions_iterator" where
  "iter_unlock h i =
     (case fmlookup (ti_awaiting i) h of
        Some (satisfied, tx_ref) \<Rightarrow>
          independent_or_awaiting (satisfied + 1) tx_ref (i\<lparr> ti_awaiting := fmdrop h (ti_awaiting i) \<rparr>)
      | None \<Rightarrow>
          (case fmlookup (ti_all i) h of
             Some next \<Rightarrow> independent_or_awaiting (rt_requires_offset next + 1) (rt_transaction next) i
           | None \<Rightarrow> i))"

lemma cmp_word_refl [simp]: "cmp_word a a = Equal"
  by (simp add: cmp_word_def)

lemma ptr_cmp_refl [simp]: "ptr_cmp a a = Equal"
  by (simp add: ptr_cmp_def)

lemma length_bts_remove: "x \<in> set xs \<Longrightarrow> length (bts_remove x xs) < length xs"
  by (induction xs) (auto split: ordering.split)

function iter_next :: "transactions_iterator \<Rightarrow> transactions_iterator \<times> pool_transaction option" where
  "iter_next i =
     (if ti_independent i = [] then (i, None)
      else let best = last (ti_independent i);
               i1 = i\<lparr> ti_independent := bts_remove best (ti_independent i) \<rparr> in
        case fmlookup (ti_all i) (pt_hash (ptr_transaction best)) of
          None \<Rightarrow> iter_next i1
        | Some ready \<Rightarrow> (fold iter_unlock (rt_unlocks ready) i1, Some (ptr_transaction best)))"
  by pat_completeness auto
termination
  by (relation "measure (length \<circ> ti_independent)") (auto intro!: length_bts_remove)

declare iter_next.simps [simp del]

text \<open>\<^verbatim>\<open>take(n).collect()\<close>.\<close>

fun iter_take :: "nat \<Rightarrow> transactions_iterator \<Rightarrow> pool_transaction list" where
  "iter_take 0 i = []"
| "iter_take (Suc n) i =
     (case iter_next i of
        (i', None) \<Rightarrow> []
      | (i', Some tx) \<Rightarrow> tx # iter_take n i')"

text \<open>\<^verbatim>\<open>collect()\<close>: \<open>None\<close> if it does not return.\<close>

partial_function (option) iter_collect ::
  "transactions_iterator \<Rightarrow> pool_transaction list option" where
  "iter_collect i =
     (case iter_next i of
        (i', None) \<Rightarrow> Some []
      | (i', Some tx) \<Rightarrow> Option.bind (iter_collect i') (\<lambda>txs. Some (tx # txs)))"

end
