(* ===== verification/Ready_Invariant.thy ===== *)
theory Ready_Invariant
  imports Pool_Ready
begin

text \<open>
  The invariant of the ready transactions: the map, the marker index and the ordered set of
  independent transactions agree. Removal, pruning and insertion keep it, and none of them panics.
\<close>

section \<open>The ordered set of references\<close>

definition ptr_key :: "pool_transaction_ref \<Rightarrow> u128 \<times> u64" where
  "ptr_key r = (pt_priority (ptr_transaction r), ptr_id r)"

definition ptr_lt :: "pool_transaction_ref \<Rightarrow> pool_transaction_ref \<Rightarrow> bool" where
  "ptr_lt a b \<longleftrightarrow>
     pt_priority (ptr_transaction a) < pt_priority (ptr_transaction b) \<or>
     pt_priority (ptr_transaction a) = pt_priority (ptr_transaction b) \<and> ptr_id b < ptr_id a"

lemma ptr_cmp_iff [simp]:
  "ptr_cmp a b = Less \<longleftrightarrow> ptr_lt a b"
  "ptr_cmp a b = Equal \<longleftrightarrow> ptr_key a = ptr_key b"
  "ptr_cmp a b = Greater \<longleftrightarrow> ptr_lt b a"
  by (auto simp: ptr_cmp_def ptr_lt_def ptr_key_def cmp_word_def)

lemma ptr_lt_trans: "ptr_lt a b \<Longrightarrow> ptr_lt b c \<Longrightarrow> ptr_lt a c"
  by (auto simp: ptr_lt_def)

lemma ptr_lt_key: "ptr_lt a b \<Longrightarrow> ptr_key a \<noteq> ptr_key b"
  by (auto simp: ptr_lt_def ptr_key_def)

lemma ptr_lt_key_cong: "ptr_key a = ptr_key b \<Longrightarrow> ptr_lt a c \<longleftrightarrow> ptr_lt b c"
  by (auto simp: ptr_lt_def ptr_key_def)

lemma ptr_cmp_case:
  "(case ptr_cmp a b of Less \<Rightarrow> x | Equal \<Rightarrow> y | Greater \<Rightarrow> z) =
     (if ptr_lt a b then x else if ptr_key a = ptr_key b then y else z)"
  by (cases "ptr_cmp a b") (auto dest: ptr_lt_key simp flip: ptr_cmp_iff)

abbreviation bts_ok :: "pool_transaction_ref list \<Rightarrow> bool" where
  "bts_ok \<equiv> sorted_wrt ptr_lt"

lemma set_bts_insert_subset: "set (bts_insert x xs) \<subseteq> insert x (set xs)"
  by (induction xs) (auto simp: ptr_cmp_case)

lemma bts_ok_insert: "bts_ok xs \<Longrightarrow> bts_ok (bts_insert x xs)"
proof (induction xs)
  case (Cons y ys)
  have "ptr_lt y x" if "\<not> ptr_lt x y" "ptr_key x \<noteq> ptr_key y"
    using that by (auto simp: ptr_lt_def ptr_key_def)
  then show ?case
    using Cons set_bts_insert_subset [of x ys] by (auto simp: ptr_cmp_case intro: ptr_lt_trans)
qed simp

lemma mem_bts_insert: "bts_ok xs \<Longrightarrow> \<exists>y\<in>set (bts_insert x xs). ptr_key y = ptr_key x"
  by (induction xs) (auto simp: ptr_cmp_case)

lemma set_bts_insert:
  assumes "bts_ok xs"
  shows "set (bts_insert x xs) =
    (if \<exists>y\<in>set xs. ptr_key y = ptr_key x then set xs else insert x (set xs))"
  using assms
proof (induction xs)
  case (Cons y ys)
  have "\<not> (\<exists>z\<in>set (y # ys). ptr_key z = ptr_key x)" if "ptr_lt x y"
    using that Cons.prems by (auto dest: ptr_lt_trans ptr_lt_key) (metis ptr_lt_trans ptr_lt_key)
  then show ?case using Cons by (auto simp: ptr_cmp_case)
qed simp

lemma set_bts_remove:
  assumes "bts_ok xs"
  shows "set (bts_remove x xs) = {y \<in> set xs. ptr_key y \<noteq> ptr_key x}"
  using assms
proof (induction xs)
  case (Cons y ys)
  have eq: "bts_remove x (y # ys) = (if ptr_key x = ptr_key y then ys else y # bts_remove x ys)"
    using ptr_lt_key [of x y] by (auto simp: ptr_cmp_case)
  show ?case
  proof (cases "ptr_key x = ptr_key y")
    case True
    then have "\<forall>z\<in>set ys. ptr_key z \<noteq> ptr_key x"
      using Cons.prems ptr_lt_key by (metis sorted_wrt.simps(2))
    then show ?thesis using True by (auto simp: eq simp del: bts_remove.simps)
  next
    case False
    then show ?thesis using Cons by (auto simp: eq simp del: bts_remove.simps)
  qed
qed simp

lemma bts_ok_remove: "bts_ok xs \<Longrightarrow> bts_ok (bts_remove x xs)"
  by (induction xs) (auto simp: ptr_cmp_case set_bts_remove)

section \<open>The invariant of the ready transactions\<close>

text \<open>
  Which reference each hash of the map holds; the links (\<^verbatim>\<open>unlocks\<close>, \<^verbatim>\<open>requires_offset\<close>) are left out.
\<close>

definition skel :: "ready_map \<Rightarrow> tx_hash \<Rightarrow> pool_transaction_ref option" where
  "skel ready h = map_option rt_transaction (fmlookup ready h)"

lemma skel_simps [simp]:
  "skel (fmdrop h ready) g = (if g = h then None else skel ready g)"
  "skel (fmupd h rt ready) g = (if g = h then Some (rt_transaction rt) else skel ready g)"
  "skel fmempty g = None"
  by (simp_all add: skel_def)

lemma skel_lookup: "fmlookup ready h = Some rt \<Longrightarrow> skel ready h = Some (rt_transaction rt)"
  by (simp add: skel_def)

lemma skel_None [simp]: "skel ready h = None \<longleftrightarrow> fmlookup ready h = None"
  by (simp add: skel_def)

lemma skel_SomeD: "skel ready h = Some r \<Longrightarrow> \<exists>rt. fmlookup ready h = Some rt \<and> rt_transaction rt = r"
  by (auto simp: skel_def)

lemma skel_unlink [simp]: "skel (unlink_marker provided m ready) = skel ready"
  by (auto simp: unlink_marker_def fun_eq_iff skel_lookup split: option.split)

lemma skel_fold_unlink [simp]: "skel (fold (unlink_marker provided) ms ready) = skel ready"
  by (induction ms arbitrary: ready) auto

lemma skel_previous [simp]: "skel (fst (previous_markers provided h m ready)) = skel ready"
  by (auto simp: previous_markers_def Let_def fun_eq_iff skel_lookup split: option.split)

lemma skel_prune_previous [simp]: "skel (fst (prune_previous provided h ms ready)) = skel ready"
proof (induction ms arbitrary: ready)
  case (Cons m ms)
  then show ?case using skel_previous [of provided h m ready] by (simp add: split_beta Let_def)
qed simp

lemma skel_prune_unlock [simp]: "skel (fst (prune_unlock hs ready ind)) = skel ready"
  by (induction hs arbitrary: ready ind)
    (auto simp: Let_def fun_eq_iff skel_lookup split: option.split)

lemma skel_add_links:
  "add_links provided h ms (ready, i, n) = Some (ready', i', n') \<Longrightarrow> skel ready' = skel ready"
  by (induction ms arbitrary: ready i n)
    (auto simp: fun_eq_iff skel_lookup split: option.splits)

definition ptx_wf :: "pool_transaction \<Rightarrow> bool" where
  "ptx_wf tx \<longleftrightarrow> distinct (pt_provides tx) \<and> set (pt_requires tx) \<inter> set (pt_provides tx) = {}"

definition ready_part :: "tx_marker set \<Rightarrow> ready_transactions \<Rightarrow> bool" where
  "ready_part F s \<longleftrightarrow>
     (\<forall>h r. skel (rd_ready_tx s) h = Some r \<longrightarrow>
        pt_hash (ptr_transaction r) = h \<and> ptx_wf (ptr_transaction r) \<and>
        (\<forall>m\<in>set (pt_provides (ptr_transaction r)). fmlookup (rd_provided_markers s) m = Some h)) \<and>
     (\<forall>m h. fmlookup (rd_provided_markers s) m = Some h \<longrightarrow> m \<notin> F \<longrightarrow>
        (\<exists>r. skel (rd_ready_tx s) h = Some r \<and> m \<in> set (pt_provides (ptr_transaction r)))) \<and>
     (\<forall>r\<in>set (rd_independent s).
        skel (rd_ready_tx s) (pt_hash (ptr_transaction r)) = Some r) \<and>
     bts_ok (rd_independent s)"

abbreviation ready_inv :: "ready_transactions \<Rightarrow> bool" where
  "ready_inv \<equiv> ready_part {}"

lemma ready_partD:
  assumes "ready_part F s"
  shows "skel (rd_ready_tx s) h = Some r \<Longrightarrow> pt_hash (ptr_transaction r) = h"
    and "skel (rd_ready_tx s) h = Some r \<Longrightarrow> ptx_wf (ptr_transaction r)"
    and "skel (rd_ready_tx s) h = Some r \<Longrightarrow> m \<in> set (pt_provides (ptr_transaction r)) \<Longrightarrow>
      fmlookup (rd_provided_markers s) m = Some h"
    and "fmlookup (rd_provided_markers s) m = Some h \<Longrightarrow> m \<notin> F \<Longrightarrow>
      \<exists>r. skel (rd_ready_tx s) h = Some r \<and> m \<in> set (pt_provides (ptr_transaction r))"
    and "r \<in> set (rd_independent s) \<Longrightarrow> skel (rd_ready_tx s) (pt_hash (ptr_transaction r)) = Some r"
    and "bts_ok (rd_independent s)"
  using assms by (auto simp: ready_part_def)

lemma ready_inv_default: "ready_inv ready_default"
  by (simp add: ready_part_def ready_default_def)

lemma ready_inv_clear: "ready_inv (ready_clear s)"
  by (simp add: ready_part_def ready_clear_def)

text \<open>Taking one transaction out, with its entries in the index and the ordered set.\<close>

lemma ready_part_drop:
  assumes inv: "ready_part F s" and r: "skel (rd_ready_tx s) h = Some r"
    and sk: "\<And>g. skel ready' g = (if g = h then None else skel (rd_ready_tx s) g)"
    and pr: "\<And>m. fmlookup provided' m =
      (if m \<in> set (pt_provides (ptr_transaction r)) \<and> m \<notin> F then None else fmlookup (rd_provided_markers s) m)"
    and ind: "set ind' \<subseteq> {q \<in> set (rd_independent s). ptr_key q \<noteq> ptr_key r} \<union>
        {q. skel ready' (pt_hash (ptr_transaction q)) = Some q}"
    and ok: "bts_ok ind'"
  shows "ready_part F (s\<lparr> rd_provided_markers := provided', rd_ready_tx := ready', rd_independent := ind' \<rparr>)"
  unfolding ready_part_def
proof (intro conjI allI impI ballI; simp)
  fix g q assume "skel ready' g = Some q"
  then have q: "skel (rd_ready_tx s) g = Some q" "g \<noteq> h" using sk by (auto split: if_splits)
  then show "pt_hash (ptr_transaction q) = g" "ptx_wf (ptr_transaction q)"
    using ready_partD(1,2) [OF inv] by auto
  fix m assume m: "m \<in> set (pt_provides (ptr_transaction q))"
  then have "m \<notin> set (pt_provides (ptr_transaction r))"
    using ready_partD(3) [OF inv r, of m] ready_partD(3) [OF inv q(1), of m] q(2) by auto
  then show "fmlookup provided' m = Some g" using ready_partD(3) [OF inv q(1) m] pr by simp
next
  fix m g assume m: "fmlookup provided' m = Some g" "m \<notin> F"
  then have p: "fmlookup (rd_provided_markers s) m = Some g" "m \<notin> set (pt_provides (ptr_transaction r))"
    using pr by (auto split: if_splits)
  from ready_partD(4) [OF inv p(1) m(2)] obtain q where
    q: "skel (rd_ready_tx s) g = Some q" "m \<in> set (pt_provides (ptr_transaction q))" by blast
  then have "g \<noteq> h" using r p(2) by auto
  then show "\<exists>q. skel ready' g = Some q \<and> m \<in> set (pt_provides (ptr_transaction q))"
    using q sk by auto
next
  fix q assume "q \<in> set ind'"
  with ind consider "q \<in> set (rd_independent s)" "ptr_key q \<noteq> ptr_key r"
    | "skel ready' (pt_hash (ptr_transaction q)) = Some q" by blast
  then show "skel ready' (pt_hash (ptr_transaction q)) = Some q"
  proof cases
    case 1
    then have "skel (rd_ready_tx s) (pt_hash (ptr_transaction q)) = Some q"
      using ready_partD(5) [OF inv] by blast
    then show ?thesis using 1 r sk by auto
  qed
qed (rule ok)

section \<open>Correctness of removal\<close>

definition filter_set :: "tx_marker fset option \<Rightarrow> tx_marker set" where
  "filter_set f = (case f of None \<Rightarrow> {} | Some g \<Rightarrow> fset g)"

lemma set_invalidated: "set (invalidated_by f tx) = set (pt_provides tx) - filter_set f"
  by (auto simp: invalidated_by_def filter_set_def split: option.split)

lemma fmlookup_fold_drop: "fmlookup (fold fmdrop ms m) k = (if k \<in> set ms then None else fmlookup m k)"
  by (induction ms arbitrary: m) auto

lemma ready_part_remove_one:
  assumes inv: "ready_part (filter_set f) s" and tx: "fmlookup (rd_ready_tx s) h = Some tx"
  shows "ready_part (filter_set f) (remove_one f h tx s)"
  unfolding remove_one_def Let_def
  by (rule ready_part_drop [OF inv skel_lookup [OF tx]])
    (use ready_partD(6) [OF inv] in \<open>auto simp: fmlookup_fold_drop set_invalidated set_bts_remove bts_ok_remove\<close>)

lemma skel_remove_one [simp]:
  "skel (rd_ready_tx (remove_one f h tx s)) = (skel (rd_ready_tx s))(h := None)"
  by (simp add: remove_one_def Let_def fun_eq_iff)

lemma provided_remove_one [simp]:
  "fmlookup (rd_provided_markers (remove_one f h tx s)) m =
     (if m \<in> set (invalidated_by f (rt_tx tx)) then None else fmlookup (rd_provided_markers s) m)"
  by (simp add: remove_one_def Let_def fmlookup_fold_drop)

lemma rd_id_remove_one [simp]: "rd_id (remove_one f h tx s) = rd_id s"
  by (simp add: remove_one_def Let_def)

text \<open>
  What a removal does to the map: it only drops entries, and the list it returns holds exactly the
  transactions of the dropped entries, each once.
\<close>

definition shed ::
  "(tx_hash \<Rightarrow> pool_transaction_ref option) \<Rightarrow> (tx_hash \<Rightarrow> pool_transaction_ref option) \<Rightarrow>
   pool_transaction list \<Rightarrow> bool" where
  "shed sk sk' removed \<longleftrightarrow>
     (\<forall>h. sk' h = None \<or> sk' h = sk h) \<and> distinct (map pt_hash removed) \<and>
     (\<forall>tx. tx \<in> set removed \<longleftrightarrow> (\<exists>h r. sk h = Some r \<and> sk' h = None \<and> tx = ptr_transaction r))"

lemma shed_refl: "shed sk sk []"
  by (auto simp: shed_def)

lemma shedD:
  assumes "shed sk sk' removed"
  shows "sk' h = Some r \<Longrightarrow> sk h = Some r"
    and "sk h = None \<Longrightarrow> sk' h = None"
    and "tx \<in> set removed \<Longrightarrow> \<exists>h r. sk h = Some r \<and> sk' h = None \<and> tx = ptr_transaction r"
    and "sk h = Some r \<Longrightarrow> sk' h = None \<Longrightarrow> ptr_transaction r \<in> set removed"
  using assms unfolding shed_def by (metis option.distinct(1))+

lemma shed_step:
  assumes keyed: "\<And>h r. sk h = Some r \<Longrightarrow> pt_hash (ptr_transaction r) = h"
    and r: "sk h = Some r" and rest: "shed (sk(h := None)) sk' rs"
  shows "shed sk sk' (ptr_transaction r # rs)"
proof -
  have gone: "sk' h = None" using shedD(2) [OF rest, of h] by simp
  have "pt_hash (ptr_transaction r) \<notin> pt_hash ` set rs"
    using shedD(3) [OF rest] keyed r by (fastforce split: if_splits)
  moreover have "tx \<in> set rs \<longleftrightarrow> (\<exists>g q. g \<noteq> h \<and> sk g = Some q \<and> sk' g = None \<and> tx = ptr_transaction q)" for tx
    using rest by (auto simp: shed_def split: if_splits)
  moreover have "sk' g = None \<or> sk' g = sk g" for g
    using rest gone by (cases "g = h") (auto simp: shed_def)
  moreover have "(\<exists>g q. sk g = Some q \<and> sk' g = None \<and> tx = ptr_transaction q) \<longleftrightarrow>
      tx = ptr_transaction r \<or> (\<exists>g q. g \<noteq> h \<and> sk g = Some q \<and> sk' g = None \<and> tx = ptr_transaction q)" for tx
    using r gone by (metis option.inject)
  ultimately show ?thesis
    using rest by (simp add: shed_def)
qed

lemma shed_trans:
  assumes "\<And>h r. sk h = Some r \<Longrightarrow> pt_hash (ptr_transaction r) = h"
    and "shed sk sk1 as" and "shed sk1 sk2 bs"
  shows "shed sk sk2 (as @ bs)"
proof -
  have "\<exists>h. h = pt_hash a \<and> sk h \<noteq> None \<and> sk1 h = None" if "a \<in> set as" for a
    using shedD(3) [OF assms(2) that] assms(1) by auto
  moreover have "sk1 (pt_hash b) \<noteq> None" if "b \<in> set bs" for b
    using shedD(3) [OF assms(3) that] shedD(1) [OF assms(2)] assms(1) by (metis option.distinct(1))
  ultimately have "pt_hash ` set as \<inter> pt_hash ` set bs = {}" by fastforce
  moreover have "sk2 h = None \<or> sk2 h = sk h" for h
    using assms(2,3) by (metis shed_def)
  moreover have "tx \<in> set (as @ bs) \<longleftrightarrow> (\<exists>h r. sk h = Some r \<and> sk2 h = None \<and> tx = ptr_transaction r)" for tx
  proof -
    have "sk h = Some r \<and> sk2 h = None \<longleftrightarrow>
        sk h = Some r \<and> sk1 h = None \<or> sk1 h = Some r \<and> sk2 h = None" for h r
      using shedD(1,2) [OF assms(2), of h] shedD(2) [OF assms(3), of h] by (cases "sk1 h") auto
    then have "(\<exists>h r. sk h = Some r \<and> sk2 h = None \<and> tx = ptr_transaction r) \<longleftrightarrow>
        (\<exists>h r. sk h = Some r \<and> sk1 h = None \<and> tx = ptr_transaction r) \<or>
        (\<exists>h r. sk1 h = Some r \<and> sk2 h = None \<and> tx = ptr_transaction r)"
      by blast
    then show ?thesis using assms(2,3) by (simp add: shed_def)
  qed
  ultimately show ?thesis using assms(2,3) by (simp add: shed_def)
qed

lemma remove_with_markers_Nil [simp]: "remove_with_markers [] f s = (s, [])"
  by (subst remove_with_markers.simps) simp

lemma remove_with_markers_snoc:
  "remove_with_markers (hs @ [h]) f s =
     (case fmlookup (rd_ready_tx s) h of
        None \<Rightarrow> remove_with_markers hs f s
      | Some tx \<Rightarrow> apsnd ((#) (rt_tx tx)) (remove_with_markers
          (if invalidated_by f (rt_tx tx) \<noteq> [] then hs @ rt_unlocks tx else hs) f (remove_one f h tx s)))"
  by (subst remove_with_markers.simps) (simp add: Let_def split: option.split prod.split)

lemma remove_with_markers_spec:
  assumes "ready_part (filter_set f) s" and "remove_with_markers hs f s = (s', removed)"
  shows "ready_part (filter_set f) s' \<and> rd_id s' = rd_id s \<and>
    shed (skel (rd_ready_tx s)) (skel (rd_ready_tx s')) removed \<and>
    (\<forall>h\<in>set hs. skel (rd_ready_tx s') h = None) \<and>
    (\<forall>m. fmlookup (rd_provided_markers s) m = None \<longrightarrow> fmlookup (rd_provided_markers s') m = None)"
  using assms
proof (induction hs f s arbitrary: s' removed rule: remove_with_markers.induct)
  case (1 hs f s)
  note inv = 1(3)
  show ?case
  proof (cases hs rule: rev_cases)
    case Nil
    then show ?thesis using 1(3,4) by (simp add: shed_refl)
  next
    case (snoc hs0 h)
    then have hs: "hs \<noteq> []" "last hs = h" "butlast hs = hs0" by simp_all
    show ?thesis
    proof (cases "fmlookup (rd_ready_tx s) h")
      case None
      with 1(4) have "remove_with_markers hs0 f s = (s', removed)"
        by (simp add: snoc remove_with_markers_snoc)
      from 1(1) [OF hs(1) hs(2,3) [symmetric] None inv this] None show ?thesis
        using shedD(2) [of "skel (rd_ready_tx s)" "skel (rd_ready_tx s')" removed h] by (simp add: snoc)
    next
      case (Some tx)
      let ?hs = "if invalidated_by f (rt_tx tx) \<noteq> [] then hs0 @ rt_unlocks tx else hs0"
      obtain rs where rs: "remove_with_markers ?hs f (remove_one f h tx s) = (s', rs)" "removed = rt_tx tx # rs"
        using 1(4) Some by (cases "remove_with_markers ?hs f (remove_one f h tx s)")
          (simp add: snoc remove_with_markers_snoc)
      note IH = 1(2) [OF hs(1) hs(2,3) [symmetric] Some ready_part_remove_one [OF inv Some] rs(1)]
      then have sh: "shed ((skel (rd_ready_tx s))(h := None)) (skel (rd_ready_tx s')) rs"
        unfolding skel_remove_one by blast
      have "shed (skel (rd_ready_tx s)) (skel (rd_ready_tx s')) removed"
        unfolding rs(2) by (rule shed_step [OF ready_partD(1) [OF inv] skel_lookup [OF Some] sh])
      moreover have "skel (rd_ready_tx s') h = None"
        using shedD(2) [OF sh, of h] by simp
      ultimately show ?thesis using IH by (auto simp: snoc split: if_splits)
    qed
  qed
qed

section \<open>Correctness of pruning\<close>

lemma prune_unlock_independent:
  assumes "bts_ok ind"
  shows "bts_ok (snd (prune_unlock hs ready ind)) \<and>
    set (snd (prune_unlock hs ready ind)) \<subseteq>
      set ind \<union> {q. \<exists>h. skel ready h = Some q}"
  using assms
proof (induction hs arbitrary: ready ind)
  case (Cons h hs)
  show ?case
  proof (cases "fmlookup ready h")
    case None
    then show ?thesis using Cons by simp
  next
    case (Some tx)
    let ?tx = "tx\<lparr> rt_requires_offset := rt_requires_offset tx + 1 \<rparr>"
    let ?ind = "if rt_requires_offset ?tx = length (pt_requires (rt_tx ?tx))
             then bts_insert (rt_transaction ?tx) ind else ind"
    have "skel (fmupd h ?tx ready) = skel ready" using Some by (auto simp: skel_lookup)
    moreover have "set ?ind \<subseteq> set ind \<union> {q. \<exists>h. skel ready h = Some q}"
      using set_bts_insert_subset [of "rt_transaction tx" ind] skel_lookup [OF Some] by auto
    moreover have "bts_ok ?ind" using Cons.prems by (simp add: bts_ok_insert)
    moreover have "prune_unlock (h # hs) ready ind = prune_unlock hs (fmupd h ?tx ready) ?ind"
      using Some by (simp add: Let_def)
    ultimately show ?thesis using Cons.IH [of ?ind "fmupd h ?tx ready"] by fastforce
  qed
qed simp

lemma drop_provides_ok:
  assumes "distinct ms" and "\<forall>m\<in>set ms. fmlookup provided m = (if cur = m then None else Some h)"
  shows "\<exists>provided'. drop_provides cur h ms provided = Some provided'"
  using assms by (induction ms arbitrary: provided) auto

lemma prune_one_spec:
  assumes inv: "ready_inv s" and m: "fmlookup (rd_provided_markers s) m = Some h"
  shows "\<exists>tx s' tags. fmlookup (rd_ready_tx s) h = Some tx \<and> m \<in> set (rt_provides tx) \<and>
    prune_one m h tx (s\<lparr> rd_provided_markers := fmdrop m (rd_provided_markers s) \<rparr>) = Some (s', tags) \<and>
    ready_inv s' \<and> rd_id s' = rd_id s \<and>
    skel (rd_ready_tx s') = (skel (rd_ready_tx s))(h := None) \<and>
    (\<forall>k. fmlookup (rd_provided_markers s') k =
       (if k \<in> set (rt_provides tx) then None else fmlookup (rd_provided_markers s) k))"
proof -
  from ready_partD(4) [OF inv m] obtain tx where tx: "fmlookup (rd_ready_tx s) h = Some tx"
    and mem: "m \<in> set (rt_provides tx)" by (auto dest!: skel_SomeD simp: rt_provides_def)
  let ?ptx = "rt_tx tx" and ?r = "rt_transaction tx"
  note r = skel_lookup [OF tx]
  have hash: "pt_hash ?ptx = h" and wf: "ptx_wf ?ptx" using ready_partD(1,2) [OF inv r] by auto
  let ?provided = "fmdrop m (rd_provided_markers s)"
  have "\<forall>k\<in>set (pt_provides ?ptx). fmlookup ?provided k = (if m = k then None else Some h)"
    using ready_partD(3) [OF inv r] by auto
  then obtain provided where pr: "drop_provides m h (pt_provides ?ptx) ?provided = Some provided"
    using drop_provides_ok wf unfolding ptx_wf_def by blast
  obtain ready1 tags where p1: "prune_previous ?provided h (pt_requires ?ptx) (fmdrop h (rd_ready_tx s)) = (ready1, tags)"
    by (meson surj_pair)
  obtain ready2 ind where p2: "prune_unlock (rt_unlocks tx) ready1 (bts_remove ?r (rd_independent s)) = (ready2, ind)"
    by (meson surj_pair)
  have sk1: "skel ready1 = (skel (rd_ready_tx s))(h := None)"
    using skel_prune_previous [of ?provided h "pt_requires ?ptx" "fmdrop h (rd_ready_tx s)"] p1
    by (auto simp: fun_eq_iff)
  have sk2: "skel ready2 = skel ready1"
    using skel_prune_unlock [of "rt_unlocks tx" ready1 "bts_remove ?r (rd_independent s)"] p2 by simp
  have ind: "bts_ok ind" "set ind \<subseteq> {q \<in> set (rd_independent s). ptr_key q \<noteq> ptr_key ?r} \<union> {q. \<exists>h. skel ready1 h = Some q}"
    using prune_unlock_independent [of "bts_remove ?r (rd_independent s)" "rt_unlocks tx" ready1] p2
      ready_partD(6) [OF inv] by (auto simp: bts_ok_remove set_bts_remove)
  have keyed: "skel ready1 (pt_hash (ptr_transaction q)) = Some q" if "skel ready1 g = Some q" for g q
    using that ready_partD(1) [OF inv] by (auto simp: sk1 split: if_splits)
  have lk: "fmlookup provided k = (if k \<in> set (pt_provides ?ptx) then None else fmlookup (rd_provided_markers s) k)" for k
    using drop_provides_Some [OF pr, of k] mem by (auto simp: rt_provides_def)
  have "ready_inv (s\<lparr> rd_provided_markers := provided, rd_ready_tx := ready2, rd_independent := ind \<rparr>)"
  proof (rule ready_part_drop [OF inv r])
    show "set ind \<subseteq> {q \<in> set (rd_independent s). ptr_key q \<noteq> ptr_key ?r} \<union>
        {q. skel ready2 (pt_hash (ptr_transaction q)) = Some q}"
      using ind(2) keyed unfolding sk2 by blast
  qed (simp_all add: ind(1) sk1 sk2 lk)
  then show ?thesis using tx mem p1 p2 pr hash
    by (simp add: prune_one_def Let_def sk1 sk2 lk rt_provides_def)
qed

lemma prune_loop_Nil [simp]: "prune_loop [] s = Some (s, [])"
  by (subst prune_loop.simps) simp

lemma prune_loop_snoc:
  "prune_loop (ms @ [m]) s =
     (case fmlookup (rd_provided_markers s) m of
        None \<Rightarrow> prune_loop ms s
      | Some h \<Rightarrow>
          let s1 = s\<lparr> rd_provided_markers := fmdrop m (rd_provided_markers s) \<rparr> in
          (case fmlookup (rd_ready_tx s1) h of
             None \<Rightarrow> prune_loop ms s1
           | Some tx \<Rightarrow>
               (case prune_one m h tx s1 of
                  None \<Rightarrow> None
                | Some (s2, tags) \<Rightarrow> map_option (apsnd ((#) (rt_tx tx))) (prune_loop (ms @ tags) s2))))"
  by (subst prune_loop.simps) (simp add: Let_def split: option.split prod.split)

lemma prune_loop_spec:
  assumes "ready_inv s"
  shows "\<exists>s' removed. prune_loop ms s = Some (s', removed) \<and> ready_inv s' \<and> rd_id s' = rd_id s \<and>
    shed (skel (rd_ready_tx s)) (skel (rd_ready_tx s')) removed \<and>
    (\<forall>m\<in>set ms. fmlookup (rd_provided_markers s') m = None) \<and>
    (\<forall>m. fmlookup (rd_provided_markers s) m = None \<longrightarrow> fmlookup (rd_provided_markers s') m = None)"
  using assms
proof (induction ms s rule: prune_loop.induct)
  case (1 ms s)
  note inv = 1(4)
  show ?case
  proof (cases ms rule: rev_cases)
    case Nil
    then show ?thesis using inv by (simp add: shed_refl)
  next
    case (snoc ms0 m)
    then have ms: "ms \<noteq> []" "last ms = m" "butlast ms = ms0" by simp_all
    show ?thesis
    proof (cases "fmlookup (rd_provided_markers s) m")
      case None
      from 1(1) [OF ms(1) ms(2,3) [symmetric] None inv] None show ?thesis
        by (fastforce simp: snoc prune_loop_snoc)
    next
      case (Some h)
      let ?s1 = "s\<lparr> rd_provided_markers := fmdrop m (rd_provided_markers s) \<rparr>"
      from prune_one_spec [OF inv Some] obtain tx s2 tags where
        tx: "fmlookup (rd_ready_tx s) h = Some tx" "m \<in> set (rt_provides tx)"
        and p: "prune_one m h tx ?s1 = Some (s2, tags)" "ready_inv s2" "rd_id s2 = rd_id s"
          "skel (rd_ready_tx s2) = (skel (rd_ready_tx s))(h := None)"
        and lk: "\<And>k. fmlookup (rd_provided_markers s2) k =
          (if k \<in> set (rt_provides tx) then None else fmlookup (rd_provided_markers s) k)"
        by blast
      have tx1: "fmlookup (rd_ready_tx ?s1) h = Some tx" using tx by simp
      from 1(3) [OF ms(1) ms(2,3) [symmetric] Some refl tx1 p(1) refl p(2)] obtain s' rs where
        IH: "prune_loop (ms0 @ tags) s2 = Some (s', rs)" "ready_inv s'" "rd_id s' = rd_id s2"
          "shed ((skel (rd_ready_tx s))(h := None)) (skel (rd_ready_tx s')) rs"
          "\<And>k. k \<in> set (ms0 @ tags) \<Longrightarrow> fmlookup (rd_provided_markers s') k = None"
          "\<And>k. fmlookup (rd_provided_markers s2) k = None \<Longrightarrow> fmlookup (rd_provided_markers s') k = None"
        unfolding p(4) by blast
      have "prune_loop ms s = Some (s', rt_tx tx # rs)"
        using Some tx p(1) IH(1) by (simp add: snoc prune_loop_snoc Let_def)
      moreover note shed_step [OF ready_partD(1) [OF inv] skel_lookup [OF tx(1)] IH(4)]
      ultimately show ?thesis using IH(2,3,5,6) p(3) tx(2) lk by (auto simp: snoc)
    qed
  qed
qed

lemma prune_tags_spec:
  assumes "ready_inv s"
  obtains s' removed where "prune_tags m s = Some (s', removed)" "ready_inv s'" "rd_id s' = rd_id s"
    "shed (skel (rd_ready_tx s)) (skel (rd_ready_tx s')) removed"
    "fmlookup (rd_provided_markers s') m = None"
    "\<And>k. fmlookup (rd_provided_markers s) k = None \<Longrightarrow> fmlookup (rd_provided_markers s') k = None"
  using prune_loop_spec [OF assms, of "[m]"] unfolding prune_tags_def by fastforce

section \<open>Correctness of insertion\<close>

lemma ready_part_mono: "ready_part F s \<Longrightarrow> F \<subseteq> G \<Longrightarrow> ready_part G s"
  unfolding ready_part_def by blast

lemma ready_part_id [simp]: "ready_part F (s\<lparr> rd_id := n \<rparr>) = ready_part F s"
  by (simp add: ready_part_def)

lemma fmlookup_fold_upd:
  "fmlookup (fold (\<lambda>k. fmupd k v) ks m) k = (if k \<in> set ks then Some v else fmlookup m k)"
  by (induction ks arbitrary: m) auto

lemma add_links_ok:
  assumes "\<forall>m\<in>set ms. \<forall>g. fmlookup provided m = Some g \<longrightarrow> skel ready g \<noteq> None"
  shows "\<exists>ready' i' n'. add_links provided h ms (ready, i, n) = Some (ready', i', n')"
  using assms by (induction ms arbitrary: ready i n) (auto split: option.split)

text \<open>The hashes a new transaction replaces: the current providers of its markers.\<close>

definition replaced_hashes :: "pool_transaction \<Rightarrow> ready_transactions \<Rightarrow> tx_hash set" where
  "replaced_hashes tx s = {h. \<exists>m\<in>set (pt_provides tx). fmlookup (rd_provided_markers s) m = Some h}"

definition ready_outbid :: "pool_transaction \<Rightarrow> ready_transactions \<Rightarrow> bool" where
  "ready_outbid tx s \<longleftrightarrow> (\<exists>h\<in>replaced_hashes tx s. \<exists>rt. fmlookup (rd_ready_tx s) h = Some rt \<and>
     rt_provides rt = pt_provides tx \<and> pt_gas_price tx \<le> rt_gas_price rt)"

lemma replaced_unlocks_cases:
  "(\<exists>us. replaced_unlocks tx ready hs = Inr us) \<longleftrightarrow>
   \<not> (\<exists>h\<in>set hs. \<exists>rt. fmlookup ready h = Some rt \<and> rt_provides rt = pt_provides tx \<and>
        pt_gas_price tx \<le> rt_gas_price rt)"
  "replaced_unlocks tx ready hs = Inl e \<Longrightarrow> e = ReplacementUnderpriced tx"
  by (induction hs) (auto split: option.splits sum.splits if_splits)

lemma fset_remove_hashes:
  "fset (fset_of_list (List.map_filter (fmlookup (rd_provided_markers s)) (pt_provides tx))) = replaced_hashes tx s"
  by (force simp: fset_of_list.rep_eq replaced_hashes_def List.map_filter_def)

lemma replaced_transactions_spec:
  assumes inv: "ready_inv s" and it: "iter_ok it"
  shows "if ready_outbid tx s
    then replaced_transactions it tx s = (s, Inl (ReplacementUnderpriced tx))
    else \<exists>s' removed unlocks. replaced_transactions it tx s = (s', Inr (removed, unlocks)) \<and>
      ready_part (set (pt_provides tx)) s' \<and> rd_id s' = rd_id s \<and>
      shed (skel (rd_ready_tx s)) (skel (rd_ready_tx s')) removed \<and>
      (\<forall>h\<in>replaced_hashes tx s. skel (rd_ready_tx s') h = None) \<and>
      (\<forall>m. fmlookup (rd_provided_markers s) m = None \<longrightarrow> fmlookup (rd_provided_markers s') m = None)"
proof -
  define R where "R = fset_of_list (List.map_filter (fmlookup (rd_provided_markers s)) (pt_provides tx))"
  have R: "fset R = replaced_hashes tx s" unfolding R_def by (rule fset_remove_hashes)
  have set_it: "set (it R) = replaced_hashes tx s" using iter_okD(1) [OF it] R by metis
  note rep = replaced_unlocks_cases [of tx "rd_ready_tx s" "it R"]
  have part: "ready_part (filter_set (Some (fset_of_list (pt_provides tx)))) s"
    by (rule ready_part_mono [OF inv]) simp
  consider "R = {||}" | us where "R \<noteq> {||}" "replaced_unlocks tx (rd_ready_tx s) (it R) = Inr us" "\<not> ready_outbid tx s"
    | "R \<noteq> {||}" "replaced_unlocks tx (rd_ready_tx s) (it R) = Inl (ReplacementUnderpriced tx)" "ready_outbid tx s"
    using rep unfolding set_it ready_outbid_def by (metis sum.exhaust_sel)
  then show ?thesis
  proof cases
    case 1
    then have "replaced_hashes tx s = {}" using R by auto
    then show ?thesis using 1 ready_part_mono [OF inv, of "set (pt_provides tx)"] unfolding R_def
      by (simp add: replaced_transactions_def ready_outbid_def shed_refl)
  next
    case 2
    obtain s' removed where rm: "remove_with_markers (it R) (Some (fset_of_list (pt_provides tx))) s = (s', removed)"
      by (meson surj_pair)
    have "replaced_transactions it tx s = (s', Inr (removed, us))"
      using 2 rm unfolding R_def by (simp add: replaced_transactions_def)
    then show ?thesis using remove_with_markers_spec [OF part rm] 2(3)
      by (simp add: set_it filter_set_def fset_of_list.rep_eq)
  next
    case 3
    then show ?thesis unfolding R_def by (simp add: replaced_transactions_def)
  qed
qed

lemma ready_part_insert:
  assumes part: "ready_part (set (pt_provides tx)) s" and new: "skel (rd_ready_tx s) (pt_hash tx) = None"
    and wf: "ptx_wf tx"
    and free: "\<And>h r m. skel (rd_ready_tx s) h = Some r \<Longrightarrow>
      m \<in> set (pt_provides (ptr_transaction r)) \<Longrightarrow> m \<notin> set (pt_provides tx)"
    and sk: "skel ready' = (skel (rd_ready_tx s))(pt_hash tx \<mapsto> \<lparr> ptr_transaction = tx, ptr_id = n \<rparr>)"
    and lk: "\<And>m. fmlookup provided' m =
      (if m \<in> set (pt_provides tx) then Some (pt_hash tx) else fmlookup (rd_provided_markers s) m)"
    and ind: "set ind' \<subseteq> insert \<lparr> ptr_transaction = tx, ptr_id = n \<rparr> (set (rd_independent s))" "bts_ok ind'"
  shows "ready_inv (s\<lparr> rd_provided_markers := provided', rd_independent := ind', rd_ready_tx := ready' \<rparr>)"
  unfolding ready_part_def
proof (intro conjI allI impI ballI; simp)
  fix h r assume "skel ready' h = Some r"
  then consider "h = pt_hash tx" "r = \<lparr> ptr_transaction = tx, ptr_id = n \<rparr>"
    | "h \<noteq> pt_hash tx" "skel (rd_ready_tx s) h = Some r" by (auto simp: sk split: if_splits)
  note cs = this
  show "pt_hash (ptr_transaction r) = h" "ptx_wf (ptr_transaction r)"
    using wf ready_partD(1,2) [OF part] by (cases rule: cs; simp)+
  fix m assume "m \<in> set (pt_provides (ptr_transaction r))"
  then show "fmlookup provided' m = Some h"
    using free [of h r m] ready_partD(3) [OF part, of h r m] by (cases rule: cs) (auto simp: lk)
next
  fix m h assume m: "fmlookup provided' m = Some h"
  show "\<exists>r. skel ready' h = Some r \<and> m \<in> set (pt_provides (ptr_transaction r))"
  proof (cases "m \<in> set (pt_provides tx)")
    case True
    then show ?thesis using m by (simp add: lk sk)
  next
    case False
    then have "fmlookup (rd_provided_markers s) m = Some h" using m by (simp add: lk)
    with ready_partD(4) [OF part this False] new show ?thesis by (auto simp: sk simp del: skel_None)
  qed
next
  fix r assume "r \<in> set ind'"
  then show "skel ready' (pt_hash (ptr_transaction r)) = Some r"
    using ind(1) ready_partD(5) [OF part, of r] new by (auto simp: sk simp del: skel_None)
qed (rule ind(2))

lemma ready_add_spec:
  assumes inv: "ready_inv s" and it: "iter_ok it" and wf: "ptx_wf tx"
    and tx: "tx = ppt_transaction ptx" and rdy: "ppt_is_ready ptx"
    and new: "skel (rd_ready_tx s) (pt_hash tx) = None"
  shows "if ready_outbid tx s
    then ready_add_transaction it s ptx = Some (s, Inl (ReplacementUnderpriced tx))
    else \<exists>s' removed sk. ready_add_transaction it s ptx = Some (s', Inr removed) \<and>
      ready_inv s' \<and> rd_id s' = rd_id s + 1 \<and>
      shed (skel (rd_ready_tx s)) sk removed \<and> (\<forall>h\<in>replaced_hashes tx s. sk h = None) \<and>
      skel (rd_ready_tx s') = sk(pt_hash tx \<mapsto> \<lparr> ptr_transaction = tx, ptr_id = rd_id s \<rparr>) \<and>
      (\<forall>m\<in>set (pt_provides tx). fmlookup (rd_provided_markers s') m = Some (pt_hash tx)) \<and>
      (\<forall>m. m \<notin> set (pt_provides tx) \<longrightarrow>
         fmlookup (rd_provided_markers s) m = None \<longrightarrow> fmlookup (rd_provided_markers s') m = None)"
proof (cases "ready_outbid tx s")
  case True
  then show ?thesis
    using replaced_transactions_spec [OF inv it, of tx] rdy new tx by (simp add: ready_add_transaction_def Let_def)
next
  case False
  let ?h = "pt_hash tx" and ?ref = "\<lparr> ptr_transaction = tx, ptr_id = rd_id s \<rparr>"
  from replaced_transactions_spec [OF inv it, of tx] False obtain s1 removed unlocks where
    rp: "replaced_transactions it tx s = (s1, Inr (removed, unlocks))"
    and part: "ready_part (set (pt_provides tx)) s1" and id: "rd_id s1 = rd_id s"
    and sh: "shed (skel (rd_ready_tx s)) (skel (rd_ready_tx s1)) removed"
    and gone: "\<And>h. h \<in> replaced_hashes tx s \<Longrightarrow> skel (rd_ready_tx s1) h = None"
    and less: "\<And>m. fmlookup (rd_provided_markers s) m = None \<Longrightarrow> fmlookup (rd_provided_markers s1) m = None"
    by auto
  have "\<forall>m\<in>set (pt_requires tx). \<forall>g. fmlookup (rd_provided_markers s1) m = Some g \<longrightarrow> skel (rd_ready_tx s1) g \<noteq> None"
    using ready_partD(4) [OF part] wf unfolding ptx_wf_def by blast
  then obtain ready i n where al: "add_links (rd_provided_markers s1) ?h (pt_requires tx) (rd_ready_tx s1, True, 0) = Some (ready, i, n)"
    using add_links_ok by blast
  define ind where "ind = (if i then bts_insert ?ref (rd_independent s1) else rd_independent s1)"
  define ready' where "ready' = fmupd ?h \<lparr> rt_transaction = ?ref, rt_unlocks = unlocks, rt_requires_offset = n \<rparr> ready"
  define provided' where "provided' = fold (\<lambda>m. fmupd m ?h) (pt_provides tx) (rd_provided_markers s1)"
  let ?s = "s1\<lparr> rd_id := rd_id s + 1, rd_provided_markers := provided', rd_independent := ind, rd_ready_tx := ready' \<rparr>"
  have new1: "skel (rd_ready_tx s1) ?h = None" using new shedD(2) [OF sh] by blast
  have sk: "skel ready' = (skel (rd_ready_tx s1))(?h \<mapsto> ?ref)"
    using skel_add_links [OF al] by (auto simp: ready'_def fun_eq_iff)
  have "ready_inv ?s"
  proof (rule ready_part_insert [where s = "s1\<lparr> rd_id := rd_id s + 1 \<rparr>" and n = "rd_id s"])
    fix h r m assume r: "skel (rd_ready_tx (s1\<lparr> rd_id := rd_id s + 1 \<rparr>)) h = Some r"
      and m: "m \<in> set (pt_provides (ptr_transaction r))"
    then have "fmlookup (rd_provided_markers s) m = Some h"
      using ready_partD(3) [OF inv shedD(1) [OF sh]] by simp
    then show "m \<notin> set (pt_provides tx)" using gone [of h] r by (auto simp: replaced_hashes_def simp del: skel_None)
  qed (use part new1 wf sk ready_partD(6) [OF part] set_bts_insert_subset [of ?ref "rd_independent s1"]
       in \<open>auto simp: ind_def provided'_def fmlookup_fold_upd bts_ok_insert\<close>)
  moreover have "ready_add_transaction it s ptx = Some (?s, Inr removed)"
    using rp al rdy new tx id
    by (simp add: ready_add_transaction_def Let_def ready_next_id_def ind_def ready'_def provided'_def)
  ultimately show ?thesis using False sh gone sk less
    by (auto simp: provided'_def fmlookup_fold_upd intro!: exI [of _ "skel (rd_ready_tx s1)"])
qed

section \<open>The links of the survivors of a removal\<close>

definition no_self_unlock :: "ready_map \<Rightarrow> bool" where
  "no_self_unlock ready \<longleftrightarrow> (\<forall>h rt. fmlookup ready h = Some rt \<longrightarrow> h \<notin> set (rt_unlocks rt))"

lemma swap_remove_first_absent: "x \<notin> set xs \<Longrightarrow> swap_remove_first x xs = xs"
  using position_None_iff [of "\<lambda>y. y = x" xs] by (auto simp: swap_remove_first_def split: option.split)

lemma unlink_marker_noop: "no_self_unlock ready \<Longrightarrow> unlink_marker provided m ready = ready"
  by (auto simp: unlink_marker_def no_self_unlock_def swap_remove_first_absent split: option.split
      intro!: fmap_ext)

lemma fold_unlink_noop: "no_self_unlock ready \<Longrightarrow> fold (unlink_marker provided) ms ready = ready"
  by (induction ms) (simp_all add: unlink_marker_noop)

lemma remove_with_markers_survivors:
  assumes "no_self_unlock (rd_ready_tx s)" and "remove_with_markers hs f s = (s', removed)"
  shows "fmlookup (rd_ready_tx s') g = Some rt \<Longrightarrow> fmlookup (rd_ready_tx s) g = Some rt"
  using assms
proof (induction hs f s arbitrary: s' removed rule: remove_with_markers.induct)
  case (1 hs f s)
  show ?case
  proof (cases hs rule: rev_cases)
    case Nil
    then show ?thesis using 1 by simp
  next
    case (snoc hs0 h)
    then have hs: "hs \<noteq> []" "h = last hs" "hs0 = butlast hs" by simp_all
    show ?thesis
    proof (cases "fmlookup (rd_ready_tx s) h")
      case None
      then show ?thesis using 1(1) [OF hs None 1(3,4)] 1(5) by (simp add: snoc remove_with_markers_snoc)
    next
      case (Some tx)
      let ?s = "remove_one f h tx s"
      have drop: "no_self_unlock (fmdrop h (rd_ready_tx s))" using 1(4) by (simp add: no_self_unlock_def)
      have rd: "rd_ready_tx ?s = fmdrop h (rd_ready_tx s)"
        by (simp add: remove_one_def Let_def fold_unlink_noop [OF drop])
      have "fst (remove_with_markers (if invalidated_by f (rt_tx tx) \<noteq> [] then hs0 @ rt_unlocks tx else hs0) f ?s) = s'"
        using 1(5) Some by (simp add: snoc remove_with_markers_snoc split: if_splits)
          (metis fst_apsnd fst_conv)+
      then have "fmlookup (rd_ready_tx ?s) g = Some rt"
        using 1(2) [OF hs Some 1(3), of "snd (remove_with_markers _ f ?s)"] drop rd by (metis prod.collapse)
      then show ?thesis by (simp add: rd split: if_splits)
    qed
  qed
qed

section \<open>What the iterator yields\<close>

definition iter_inv :: "transactions_iterator \<Rightarrow> bool" where
  "iter_inv i \<longleftrightarrow>
     (\<forall>h r. skel (ti_all i) h = Some r \<longrightarrow> h = pt_hash (ptr_transaction r)) \<and>
     (\<forall>r\<in>set (ti_independent i). skel (ti_all i) (pt_hash (ptr_transaction r)) = Some r) \<and>
     (\<forall>h n r. fmlookup (ti_awaiting i) h = Some (n, r) \<longrightarrow>
        skel (ti_all i) (pt_hash (ptr_transaction r)) = Some r) \<and>
     bts_ok (ti_independent i)"

lemma iter_invI:
  assumes "\<And>h r. skel (ti_all i) h = Some r \<Longrightarrow> h = pt_hash (ptr_transaction r)"
    and "\<And>r. r \<in> set (ti_independent i) \<Longrightarrow> skel (ti_all i) (pt_hash (ptr_transaction r)) = Some r"
    and "\<And>h n r. fmlookup (ti_awaiting i) h = Some (n, r) \<Longrightarrow>
      skel (ti_all i) (pt_hash (ptr_transaction r)) = Some r"
    and "bts_ok (ti_independent i)"
  shows "iter_inv i"
  using assms unfolding iter_inv_def by blast

lemma iter_invD:
  assumes "iter_inv i"
  shows "skel (ti_all i) h = Some r \<Longrightarrow> h = pt_hash (ptr_transaction r)"
    and "r \<in> set (ti_independent i) \<Longrightarrow> skel (ti_all i) (pt_hash (ptr_transaction r)) = Some r"
    and "fmlookup (ti_awaiting i) h = Some (n, r) \<Longrightarrow>
      skel (ti_all i) (pt_hash (ptr_transaction r)) = Some r"
    and "bts_ok (ti_independent i)"
  using assms unfolding iter_inv_def by blast+

lemma iter_inv_get_transactions: "ready_inv s \<Longrightarrow> iter_inv (get_transactions s)"
  using ready_partD(1,5,6) by (auto simp: iter_inv_def get_transactions_def)

lemma iter_inv_independent_or_awaiting:
  assumes "iter_inv i" "skel (ti_all i) (pt_hash (ptr_transaction r)) = Some r"
  shows "iter_inv (independent_or_awaiting n r i)"
proof (cases "length (pt_requires (ptr_transaction r)) \<le> n")
  case True
  then show ?thesis
    using assms subsetD [OF set_bts_insert_subset [of r "ti_independent i"]]
    unfolding iter_inv_def independent_or_awaiting_def by (simp add: bts_ok_insert) blast
next
  case False
  show ?thesis
  proof (rule iter_invI)
    fix h k q assume "fmlookup (ti_awaiting (independent_or_awaiting n r i)) h = Some (k, q)"
    then have "q = r \<or> fmlookup (ti_awaiting i) h = Some (k, q)"
      using False by (simp add: independent_or_awaiting_def split: if_splits)
    then show "skel (ti_all (independent_or_awaiting n r i)) (pt_hash (ptr_transaction q)) = Some q"
      using assms(2) iter_invD(3) [OF assms(1)] False unfolding independent_or_awaiting_def by fastforce
  qed (use False iter_invD [OF assms(1)] in \<open>simp_all add: independent_or_awaiting_def\<close>)
qed

lemma iter_inv_unlock:
  assumes "iter_inv i"
  shows "iter_inv (iter_unlock h i)"
proof (cases "fmlookup (ti_awaiting i) h")
  case None
  moreover have "skel (ti_all i) (pt_hash (rt_tx rt)) = Some (rt_transaction rt)"
    if "fmlookup (ti_all i) h = Some rt" for rt
    using assms skel_lookup [OF that] by (auto simp: iter_inv_def)
  ultimately show ?thesis using assms
    by (simp add: iter_unlock_def iter_inv_independent_or_awaiting split: option.split)
next
  case (Some a)
  obtain n r where a: "a = (n, r)" by (cases a)
  have "iter_inv (i\<lparr> ti_awaiting := fmdrop h (ti_awaiting i) \<rparr>)"
    using assms by (simp add: iter_inv_def)
  moreover have "skel (ti_all i) (pt_hash (ptr_transaction r)) = Some r"
    using assms Some a by (auto simp: iter_inv_def)
  ultimately show ?thesis using Some a
    by (simp add: iter_unlock_def iter_inv_independent_or_awaiting)
qed

lemma ti_all_unlock [simp]: "ti_all (iter_unlock h i) = ti_all i"
  by (auto simp: iter_unlock_def independent_or_awaiting_def split: option.split)

lemma iter_fold_unlock: "iter_inv i \<Longrightarrow> iter_inv (fold iter_unlock hs i) \<and> ti_all (fold iter_unlock hs i) = ti_all i"
  by (induction hs arbitrary: i) (simp_all add: iter_inv_unlock)

lemma iter_next_spec:
  assumes inv: "iter_inv i" and ne: "ti_independent i \<noteq> []"
  defines "best \<equiv> last (ti_independent i)"
  shows "\<exists>i'. iter_next i = (i', Some (ptr_transaction best)) \<and> iter_inv i' \<and> ti_all i' = ti_all i \<and>
    (\<forall>q\<in>set (ti_independent i). q = best \<or> ptr_lt q best)"
proof -
  have mem: "best \<in> set (ti_independent i)" using ne by (simp add: best_def)
  then have "skel (ti_all i) (pt_hash (ptr_transaction best)) = Some best" using inv by (auto simp: iter_inv_def)
  then obtain rt where rt: "fmlookup (ti_all i) (pt_hash (ptr_transaction best)) = Some rt" by (auto dest: skel_SomeD)
  let ?i = "i\<lparr> ti_independent := bts_remove best (ti_independent i) \<rparr>"
  have "iter_inv ?i" using inv by (auto simp: iter_inv_def set_bts_remove bts_ok_remove)
  moreover have "iter_next i = (fold iter_unlock (rt_unlocks rt) ?i, Some (ptr_transaction best))"
    using ne rt unfolding best_def by (subst iter_next.simps) (simp add: Let_def)
  moreover have "\<forall>q\<in>set (ti_independent i). q = best \<or> ptr_lt q best"
  proof -
    have "bts_ok (butlast (ti_independent i) @ [best])" using inv ne by (simp add: iter_inv_def best_def)
    moreover have "set (ti_independent i) = insert best (set (butlast (ti_independent i)))"
      using ne unfolding best_def by (cases "ti_independent i" rule: rev_cases) auto
    ultimately show ?thesis by (auto simp: sorted_wrt_append)
  qed
  ultimately show ?thesis using iter_fold_unlock [of ?i "rt_unlocks rt"] by auto
qed

lemma iter_next_empty: "ti_independent i = [] \<Longrightarrow> iter_next i = (i, None)"
  by (subst iter_next.simps) simp

lemma iter_take_members:
  assumes "iter_inv i"
  shows "\<forall>tx\<in>set (iter_take n i). \<exists>r. skel (ti_all i) (pt_hash tx) = Some r \<and> ptr_transaction r = tx"
  using assms
proof (induction n arbitrary: i)
  case (Suc n)
  show ?case
  proof (cases "ti_independent i = []")
    case False
    from iter_next_spec [OF Suc.prems this] obtain i' where
      n: "iter_next i = (i', Some (ptr_transaction (last (ti_independent i))))" "iter_inv i'" "ti_all i' = ti_all i"
      by blast
    then show ?thesis using Suc.IH [OF n(2)] Suc.prems False by (auto simp: iter_inv_def)
  qed (simp add: iter_next_empty)
qed simp

lemma iter_take_length: "length (iter_take n i) \<le> n"
  by (induction n arbitrary: i) (auto split: prod.split option.split)

lemma iter_collect_take:
  "iter_collect i = Some txs \<Longrightarrow> txs = iter_take (Suc (length txs)) i"
proof (induction txs arbitrary: i)
  case Nil
  then show ?case by (subst (asm) iter_collect.simps) (auto split: prod.splits option.splits bind_splits)
next
  case (Cons tx txs)
  then obtain i' where "iter_next i = (i', Some tx)" "iter_collect i' = Some txs"
    by (subst (asm) (2) iter_collect.simps) (auto split: prod.splits option.splits bind_splits)
  then show ?case using Cons.IH [of i'] by simp
qed

end
