(* ===== verification/Pool.thy ===== *)
theory Pool
  imports Ready_Invariant
begin

text \<open>
  The transaction pool (\<^verbatim>\<open>crates/anvil/src/eth/pool/mod.rs\<close>): \<^verbatim>\<open>PoolInner\<close> puts a transaction with all its
  markers into the ready half, any other into the waiting half, and moves transactions from the second
  to the first; \<^verbatim>\<open>Pool\<close> adds the listeners for ready transactions.

  The orders in which the hash maps and hash sets iterate are an argument (\<open>map_orders\<close>); \<open>orders_ok\<close>
  says that they list every element once. \<open>None\<close> is a panic; \<open>Inl\<close> a \<^verbatim>\<open>PoolError\<close>, returned with the
  state the operation leaves behind.
\<close>

section \<open>State\<close>

record map_orders =
  mo_hash :: "tx_hash iter_order"
  mo_marker :: "tx_marker iter_order"

definition orders_ok :: "map_orders \<Rightarrow> bool" where
  "orders_ok ord \<longleftrightarrow> iter_ok (mo_hash ord) \<and> iter_ok (mo_marker ord)"

record pool_inner =
  pi_ready :: ready_transactions
  pi_pending :: pending_transactions

definition pool_inner_default :: pool_inner where
  "pool_inner_default = \<lparr> pi_ready = ready_default, pi_pending = pending_default \<rparr>"

text \<open>The report of a successful import (\<^verbatim>\<open>ReadyTransaction\<close> of \<^verbatim>\<open>mod.rs\<close>).\<close>

record ready_report =
  ra_hash :: tx_hash
  ra_promoted :: "tx_hash list"
  ra_discarded :: "tx_hash list"
  ra_removed :: "pool_transaction list"

definition ready_report_new :: "tx_hash \<Rightarrow> ready_report" where
  "ready_report_new h = \<lparr> ra_hash = h, ra_promoted = [], ra_discarded = [], ra_removed = [] \<rparr>"

datatype added_transaction = AddedReady ready_report | AddedPending tx_hash

fun added_hash :: "added_transaction \<Rightarrow> tx_hash" where
  "added_hash (AddedReady r) = ra_hash r"
| "added_hash (AddedPending h) = h"

record prune_result =
  pr_promoted :: "added_transaction list"
  pr_failed :: "tx_hash list"
  pr_pruned :: "pool_transaction list"

section \<open>Lookups\<close>

definition pool_clear :: "pool_inner \<Rightarrow> pool_inner" where
  "pool_clear s = s\<lparr> pi_ready := ready_clear (pi_ready s), pi_pending := pending_clear (pi_pending s) \<rparr>"

definition pool_contains :: "pool_inner \<Rightarrow> tx_hash \<Rightarrow> bool" where
  "pool_contains s h \<longleftrightarrow> pending_contains (pi_pending s) h \<or> ready_contains (pi_ready s) h"

definition get_transaction :: "pool_inner \<Rightarrow> tx_hash \<Rightarrow> pending_transaction option" where
  "get_transaction s h =
     (case pending_get (pi_pending s) h of
        Some pending \<Rightarrow> Some (pt_pending_transaction (ppt_transaction pending))
      | None \<Rightarrow> map_option (\<lambda>rt. pt_pending_transaction (rt_tx rt)) (ready_get (pi_ready s) h))"

text \<open>
  The two iterators below run the iterator over the ready transactions to its end; \<open>None\<close> stands for a
  run that has none.
\<close>

definition transactions_by_sender :: "map_orders \<Rightarrow> address \<Rightarrow> pool_inner \<Rightarrow> pool_transaction list option" where
  "transactions_by_sender ord sender s =
     map_option (\<lambda>ready_txs.
         filter (\<lambda>tx. pe_sender (pt_pending_transaction tx) = sender) (pending_iter (mo_hash ord) (pi_pending s)) @
         filter (\<lambda>tx. pe_sender (pt_pending_transaction tx) = sender) ready_txs)
       (iter_collect (get_transactions (pi_ready s)))"

definition txpool_status :: "pool_inner \<Rightarrow> (nat \<times> nat) option" where
  "txpool_status s =
     map_option (\<lambda>txs. (length txs, pending_len (pi_pending s))) (iter_collect (get_transactions (pi_ready s)))"

section \<open>Adding a transaction\<close>

lemma mark_hashes_card:
  "mark_hashes m hs s = Some (s', us) \<Longrightarrow>
   fcard (fmdom (waiting_queue s')) + length us = fcard (fmdom (waiting_queue s))"
proof (induction hs arbitrary: s us)
  case (Cons h hs)
  then obtain tx where tx: "fmlookup (waiting_queue s) h = Some tx" by (auto split: option.splits)
  let ?tx = "ppt_mark m tx"
  show ?case
  proof (cases "ppt_is_ready ?tx")
    case True
    let ?s = "s\<lparr> waiting_queue := fmdrop h (waiting_queue s),
                 waiting_markers := fmdrop (ppt_provides ?tx) (waiting_markers s) \<rparr>"
    obtain us' where us: "mark_hashes m hs ?s = Some (s', us')" "us = ?tx # us'"
      using Cons.prems tx True by (auto simp: Let_def split: option.splits)
    show ?thesis using Cons.IH [OF us(1)] us(2) fcard_fmdom_drop [OF tx] by simp
  next
    case False
    let ?s = "s\<lparr> waiting_queue := fmupd h ?tx (waiting_queue s) \<rparr>"
    have "mark_hashes m hs ?s = Some (s', us)" using Cons.prems tx False by (simp add: Let_def)
    from Cons.IH [OF this] fcard_fmdom_upd_same [OF tx] show ?thesis by simp
  qed
qed simp

lemma mark_and_unlock_card:
  "mark_and_unlock it ms s = Some (s', us) \<Longrightarrow>
   fcard (fmdom (waiting_queue s')) + length us = fcard (fmdom (waiting_queue s))"
proof (induction ms arbitrary: s us)
  case (Cons m ms)
  show ?case
  proof (cases "fmlookup (required_markers s) m")
    case None
    then show ?thesis using Cons by simp
  next
    case (Some hs)
    then obtain s1 us1 us2 where
      "mark_hashes m (it hs) (s\<lparr> required_markers := fmdrop m (required_markers s) \<rparr>) = Some (s1, us1)"
      "mark_and_unlock it ms s1 = Some (s', us2)" "us = us1 @ us2"
      using Cons.prems by (auto split: option.splits)
    then show ?thesis using Cons.IH [of s1 us2] mark_hashes_card by fastforce
  qed
qed simp

text \<open>
  The \<^verbatim>\<open>while\<close> loop of \<^verbatim>\<open>add_ready_transaction\<close>. Every round takes one transaction off the queue and adds
  those it unlocks, which leave the waiting half: the two sizes together go down.
\<close>

function add_ready_loop ::
  "map_orders \<Rightarrow> pending_pool_transaction list \<Rightarrow> bool \<Rightarrow> ready_report \<Rightarrow> pool_inner \<Rightarrow>
   (pool_inner \<times> (pool_error, ready_report) result) option" where
  "add_ready_loop ord [] is_new ready s = Some (s, Inr ready)"
| "add_ready_loop ord (current # rest) is_new ready s =
     (case mark_and_unlock (mo_hash ord) (ppt_provides current) (pi_pending s) of
        None \<Rightarrow> None
      | Some (pending, unlocked) \<Rightarrow>
          (case ready_add_transaction (mo_hash ord) (pi_ready s) current of
             None \<Rightarrow> None
           | Some (rdy, res) \<Rightarrow>
               let s' = s\<lparr> pi_ready := rdy, pi_pending := pending \<rparr> in
               (case res of
                  Inr replaced \<Rightarrow>
                    add_ready_loop ord (rest @ unlocked) False
                      (ready\<lparr> ra_promoted :=
                                (if is_new then ra_promoted ready else ra_promoted ready @ [ppt_hash current]),
                              ra_removed := ra_removed ready @ replaced \<rparr>) s'
                | Inl err \<Rightarrow>
                    if is_new then Some (s', Inl err)
                    else add_ready_loop ord (rest @ unlocked) False
                           (ready\<lparr> ra_discarded := ra_discarded ready @ [ppt_hash current] \<rparr>) s')))"
  by pat_completeness auto
termination
  by (relation "measure (\<lambda>(ord, q, n, r, s). length q + fcard (fmdom (waiting_queue (pi_pending s))))")
    (auto dest: mark_and_unlock_card)

definition add_ready_transaction ::
  "map_orders \<Rightarrow> pool_inner \<Rightarrow> pending_pool_transaction \<Rightarrow>
   (pool_inner \<times> (pool_error, added_transaction) result) option" where
  "add_ready_transaction ord s tx =
     (let hash = ppt_hash tx in
      case add_ready_loop ord [tx] True (ready_report_new hash) s of
        None \<Rightarrow> None
      | Some (s', Inl err) \<Rightarrow> Some (s', Inl err)
      | Some (s', Inr ready) \<Rightarrow>
          if \<exists>t\<in>set (ra_removed ready). pt_hash t = hash
          then Some (s'\<lparr> pi_ready := fst (clear_transactions (ra_promoted ready) (pi_ready s')) \<rparr>,
                     Inl CyclicTransaction)
          else Some (s', Inr (AddedReady ready)))"

definition inner_add_transaction ::
  "map_orders \<Rightarrow> nat \<Rightarrow> pool_inner \<Rightarrow> pool_transaction \<Rightarrow>
   (pool_inner \<times> (pool_error, added_transaction) result) option" where
  "inner_add_transaction ord now s ptx =
     (if pool_contains s (pt_hash ptx) then Some (s, Inl (AlreadyImported ptx))
      else let tx = ppt_new now ptx (rd_provided_markers (pi_ready s)) in
        if \<not> ppt_is_ready tx
        then (case pending_add_transaction (mo_marker ord) (pi_pending s) tx of
                None \<Rightarrow> None
              | Some (pending, Inl err) \<Rightarrow> Some (s\<lparr> pi_pending := pending \<rparr>, Inl err)
              | Some (pending, Inr _) \<Rightarrow>
                  Some (s\<lparr> pi_pending := pending \<rparr>, Inr (AddedPending (ppt_hash tx))))
        else add_ready_transaction ord s tx)"

section \<open>Pruning and removing\<close>

text \<open>The first loop of \<^verbatim>\<open>prune_markers\<close>; it returns the unlocked and the pruned transactions.\<close>

fun prune_collect ::
  "map_orders \<Rightarrow> tx_marker list \<Rightarrow> pool_inner \<Rightarrow>
   (pool_inner \<times> pending_pool_transaction list \<times> pool_transaction list) option" where
  "prune_collect ord [] s = Some (s, [], [])"
| "prune_collect ord (m # ms) s =
     (case mark_and_unlock (mo_hash ord) [m] (pi_pending s) of
        None \<Rightarrow> None
      | Some (pending, unlocked) \<Rightarrow>
          (case prune_tags m (pi_ready s) of
             None \<Rightarrow> None
           | Some (ready, pruned) \<Rightarrow>
               (case prune_collect ord ms (s\<lparr> pi_ready := ready, pi_pending := pending \<rparr>) of
                  None \<Rightarrow> None
                | Some (s', imports, pruned') \<Rightarrow> Some (s', unlocked @ imports, pruned @ pruned'))))"

text \<open>The second loop: the unlocked transactions are imported.\<close>

fun prune_import ::
  "map_orders \<Rightarrow> pending_pool_transaction list \<Rightarrow> pool_inner \<Rightarrow>
   (pool_inner \<times> added_transaction list \<times> tx_hash list) option" where
  "prune_import ord [] s = Some (s, [], [])"
| "prune_import ord (tx # txs) s =
     (case add_ready_transaction ord s tx of
        None \<Rightarrow> None
      | Some (s1, res) \<Rightarrow>
          (case prune_import ord txs s1 of
             None \<Rightarrow> None
           | Some (s', promoted, failed) \<Rightarrow>
               (case res of
                  Inr added \<Rightarrow> Some (s', added # promoted, failed)
                | Inl _ \<Rightarrow> Some (s', promoted, ppt_hash tx # failed))))"

definition prune_markers :: "map_orders \<Rightarrow> tx_marker list \<Rightarrow> pool_inner \<Rightarrow> (pool_inner \<times> prune_result) option" where
  "prune_markers ord markers s =
     (case prune_collect ord markers s of
        None \<Rightarrow> None
      | Some (s1, imports, pruned) \<Rightarrow>
          (case prune_import ord imports s1 of
             None \<Rightarrow> None
           | Some (s', promoted, failed) \<Rightarrow>
               Some (s', \<lparr> pr_promoted = promoted, pr_failed = failed, pr_pruned = pruned \<rparr>)))"

definition remove_invalid ::
  "map_orders \<Rightarrow> tx_hash list \<Rightarrow> pool_inner \<Rightarrow> pool_inner \<times> pool_transaction list" where
  "remove_invalid ord tx_hashes s =
     (if tx_hashes = [] then (s, [])
      else let (ready, removed) = remove_with_markers tx_hashes None (pi_ready s);
               (pending, removed') = pending_remove (mo_marker ord) tx_hashes (pi_pending s)
           in (s\<lparr> pi_ready := ready, pi_pending := pending \<rparr>, removed @ removed'))"

definition remove_transactions_by_address ::
  "map_orders \<Rightarrow> address \<Rightarrow> pool_inner \<Rightarrow> (pool_inner \<times> pool_transaction list) option" where
  "remove_transactions_by_address ord sender s =
     (case transactions_by_sender ord sender s of
        None \<Rightarrow> None
      | Some txs \<Rightarrow>
          let tx_hashes = map pt_hash txs in
          if tx_hashes = [] then Some (s, [])
          else let (ready, removed) = remove_with_markers tx_hashes None (pi_ready s);
                   (pending, removed') = pending_remove (mo_marker ord) tx_hashes (pi_pending s)
               in Some (s\<lparr> pi_ready := ready, pi_pending := pending \<rparr>, removed @ removed'))"

definition drop_transaction :: "tx_hash \<Rightarrow> pool_inner \<Rightarrow> pool_inner \<times> pool_transaction option" where
  "drop_transaction h s =
     (let (ready, removed) = remove_with_markers [h] None (pi_ready s)
      in (s\<lparr> pi_ready := ready \<rparr>,
          if removed \<noteq> [] then find (\<lambda>t. pe_hash (pt_pending_transaction t) = h) removed else None))"

record mined_block_outcome =
  mb_block_number :: u64
  mb_included :: "pool_transaction list"
  mb_invalid :: "pool_transaction list"

definition on_mined_block ::
  "map_orders \<Rightarrow> mined_block_outcome \<Rightarrow> pool_inner \<Rightarrow> (pool_inner \<times> prune_result) option" where
  "on_mined_block ord outcome s =
     prune_markers ord (concat (map pt_provides (mb_included outcome)))
       (fst (remove_invalid ord (map pt_hash (mb_invalid outcome)) s))"

section \<open>Listeners\<close>

text \<open>
  \<^verbatim>\<open>try_send\<close> of the channel is a parameter: it returns the sender after the call and the outcome.
\<close>

datatype send_outcome = SendOk | SendFull | SendDisconnected

fun notify_loop ::
  "('l \<Rightarrow> tx_hash \<Rightarrow> 'l \<times> send_outcome) \<Rightarrow> tx_hash \<Rightarrow> nat \<Rightarrow> 'l list \<Rightarrow> 'l list" where
  "notify_loop try_send h 0 ls = ls"
| "notify_loop try_send h (Suc n) ls =
     (let listener_tx = ls ! n; ls' = swap_remove n ls in
      case try_send listener_tx h of
        (listener_tx', SendDisconnected) \<Rightarrow> notify_loop try_send h n ls'
      | (listener_tx', _) \<Rightarrow> notify_loop try_send h n (ls' @ [listener_tx']))"

definition notify_listener ::
  "('l \<Rightarrow> tx_hash \<Rightarrow> 'l \<times> send_outcome) \<Rightarrow> tx_hash \<Rightarrow> 'l list \<Rightarrow> 'l list" where
  "notify_listener try_send h ls = notify_loop try_send h (length ls) ls"

record 'l pool =
  po_inner :: pool_inner
  po_listeners :: "'l list"

definition pool_add_transaction ::
  "('l \<Rightarrow> tx_hash \<Rightarrow> 'l \<times> send_outcome) \<Rightarrow> map_orders \<Rightarrow> nat \<Rightarrow> 'l pool \<Rightarrow> pool_transaction \<Rightarrow>
   ('l pool \<times> (pool_error, added_transaction) result) option" where
  "pool_add_transaction try_send ord now p tx =
     (case inner_add_transaction ord now (po_inner p) tx of
        None \<Rightarrow> None
      | Some (s, res) \<Rightarrow>
          let ls = (case res of
                      Inr (AddedReady ready) \<Rightarrow>
                        fold (notify_listener try_send) (ra_hash ready # ra_promoted ready) (po_listeners p)
                    | _ \<Rightarrow> po_listeners p)
          in Some (p\<lparr> po_inner := s, po_listeners := ls \<rparr>, res))"

end
