(* ===== verification/Pool_Invariant.thy ===== *)
theory Pool_Invariant
  imports Pool
begin

text \<open>
  The invariant of the pool: both halves are well formed, no hash is in both, and a marker that a
  waiting transaction misses is not provided by any ready one. Every operation keeps it and none panics;
  an import accounts for every transaction; a failed import leaves the pool as it was.
\<close>

section \<open>Invariant\<close>

abbreviation ready_hashes :: "pool_inner \<Rightarrow> tx_hash set" where
  "ready_hashes s \<equiv> {h. fmlookup (rd_ready_tx (pi_ready s)) h \<noteq> None}"

abbreviation waiting_hashes :: "pool_inner \<Rightarrow> tx_hash set" where
  "waiting_hashes s \<equiv> {h. fmlookup (waiting_queue (pi_pending s)) h \<noteq> None}"

definition pool_inv :: "pool_inner \<Rightarrow> bool" where
  "pool_inv s \<longleftrightarrow>
     ready_inv (pi_ready s) \<and> pending_inv (pi_pending s) \<and>
     ready_hashes s \<inter> waiting_hashes s = {} \<and>
     (\<forall>h tx. fmlookup (waiting_queue (pi_pending s)) h = Some tx \<longrightarrow>
        ptx_wf (ppt_transaction tx) \<and>
        (\<forall>m. m |\<in>| ppt_missing_markers tx \<longrightarrow> fmlookup (rd_provided_markers (pi_ready s)) m = None))"

lemma pool_invD:
  assumes "pool_inv s"
  shows "ready_inv (pi_ready s)" "pending_inv (pi_pending s)"
    "ready_hashes s \<inter> waiting_hashes s = {}"
    "fmlookup (waiting_queue (pi_pending s)) h = Some tx \<Longrightarrow> ptx_wf (ppt_transaction tx)"
    "fmlookup (waiting_queue (pi_pending s)) h = Some tx \<Longrightarrow> m |\<in>| ppt_missing_markers tx \<Longrightarrow>
       fmlookup (rd_provided_markers (pi_ready s)) m = None"
  using assms unfolding pool_inv_def by blast+

lemma pool_inv_default: "pool_inv pool_inner_default"
  by (simp add: pool_inv_def pool_inner_default_def ready_inv_default pending_inv_default)
    (simp add: ready_default_def pending_default_def)

lemma pool_inv_clear: "pool_inv (pool_clear s)"
  by (simp add: pool_inv_def pool_clear_def ready_inv_clear pending_inv_clear)
    (simp add: ready_clear_def pending_clear_def)

text \<open>A step that strikes markers, shrinks the index outside them and moves hashes between the halves.\<close>

lemma pool_inv_step:
  assumes inv: "pool_inv s" and rdy: "ready_inv ready" and pen: "pending_inv pending"
    and wait: "\<And>h. fmlookup (waiting_queue pending) h =
      Option.bind (fmlookup (waiting_queue (pi_pending s)) h) (strike_wait M)"
    and prov: "\<And>m. m |\<notin>| M \<Longrightarrow> fmlookup (rd_provided_markers (pi_ready s)) m = None \<Longrightarrow>
      fmlookup (rd_provided_markers ready) m = None"
    and disj: "\<And>h. fmlookup (rd_ready_tx ready) h \<noteq> None \<Longrightarrow> fmlookup (waiting_queue pending) h = None"
  shows "pool_inv (s\<lparr> pi_ready := ready, pi_pending := pending \<rparr>)"
proof -
  have "\<exists>tx0. fmlookup (waiting_queue (pi_pending s)) h = Some tx0 \<and> tx = strike M tx0"
    if "fmlookup (waiting_queue pending) h = Some tx" for h tx
    using that wait [of h] by (auto simp: bind_eq_Some_conv strike_wait_def split: if_splits)
  then have "ptx_wf (ppt_transaction tx) \<and>
      (\<forall>m. m |\<in>| ppt_missing_markers tx \<longrightarrow> fmlookup (rd_provided_markers ready) m = None)"
    if "fmlookup (waiting_queue pending) h = Some tx" for h tx
    using that pool_invD(4,5) [OF inv] prov by (fastforce simp: strike_def)
  then show ?thesis using rdy pen disj by (auto simp: pool_inv_def)
qed

lemma wait_strike_mem:
  assumes "\<And>h. fmlookup wq' h = Option.bind (fmlookup wq h) (strike_wait M)"
  shows "fmlookup wq' h \<noteq> None \<Longrightarrow> fmlookup wq h \<noteq> None"
  using assms by (cases "fmlookup wq h") auto

text \<open>Where a transaction goes when markers are struck: it stays, or is among the unlocked ones.\<close>

lemma unlocked_hashes:
  assumes inv: "pending_inv p"
    and wait: "\<And>h. fmlookup (waiting_queue p') h = Option.bind (fmlookup (waiting_queue p) h) (strike_wait M)"
    and us: "set us = unlocked_by M p"
  shows "ppt_hash ` set us = {h. fmlookup (waiting_queue p) h \<noteq> None \<and> fmlookup (waiting_queue p') h = None}"
proof (intro set_eqI iffI)
  fix h assume "h \<in> ppt_hash ` set us"
  then obtain g tx where "fmlookup (waiting_queue p) g = Some tx" "ppt_is_ready (strike M tx)" "h = ppt_hash (strike M tx)"
    by (auto simp: us unlocked_by_def)
  then show "h \<in> {h. fmlookup (waiting_queue p) h \<noteq> None \<and> fmlookup (waiting_queue p') h = None}"
    using pending_invD(3) [OF inv] wait by (auto simp: strike_wait_def)
next
  fix h assume "h \<in> {h. fmlookup (waiting_queue p) h \<noteq> None \<and> fmlookup (waiting_queue p') h = None}"
  then obtain tx where tx: "fmlookup (waiting_queue p) h = Some tx" "strike_wait M tx = None"
    using wait by auto
  then have "strike M tx \<in> set us" by (auto simp: us unlocked_by_def strike_wait_def split: if_splits)
  then show "h \<in> ppt_hash ` set us" using pending_invD(3) [OF inv tx(1)]
    by (metis imageI strike_sel(1))
qed

section \<open>The import loop\<close>

text \<open>Transactions on their way from the waiting to the ready half: ready, well formed, in neither half.\<close>

definition queue_ok :: "pending_pool_transaction list \<Rightarrow> pool_inner \<Rightarrow> bool" where
  "queue_ok q s \<longleftrightarrow>
     distinct (map ppt_hash q) \<and>
     (\<forall>tx\<in>set q. ppt_is_ready tx \<and> ptx_wf (ppt_transaction tx) \<and>
        ppt_hash tx \<notin> ready_hashes s \<and> ppt_hash tx \<notin> waiting_hashes s)"

lemma queue_ok_unlock:
  assumes inv: "pool_inv s" and q: "queue_ok q s"
    and wait: "\<And>h. fmlookup (waiting_queue (pi_pending s')) h =
      Option.bind (fmlookup (waiting_queue (pi_pending s)) h) (strike_wait M)"
    and us: "set us = unlocked_by M (pi_pending s)" "distinct (map ppt_hash us)"
    and rdy: "ready_hashes s' \<inter> (ppt_hash ` set q \<union> waiting_hashes s) = {}"
  shows "queue_ok (q @ us) s'"
proof -
  have hs: "ppt_hash ` set us = {h. h \<in> waiting_hashes s \<and> h \<notin> waiting_hashes s'}"
    using unlocked_hashes [OF pool_invD(2) [OF inv] wait us(1)] by simp
  have sub: "waiting_hashes s' \<subseteq> waiting_hashes s" using wait_strike_mem [OF wait] by blast
  have "ppt_hash ` set q \<inter> waiting_hashes s = {}" using q by (auto simp: queue_ok_def)
  then have "distinct (map ppt_hash (q @ us))" using q us(2) hs by (auto simp: queue_ok_def)
  moreover have "ppt_is_ready tx \<and> ptx_wf (ppt_transaction tx)" if "tx \<in> set us" for tx
    using unlocked_byD [of tx M "pi_pending s"] that pool_invD(4) [OF inv] unfolding us(1) by metis
  moreover have "ppt_hash tx \<notin> ready_hashes s' \<and> ppt_hash tx \<notin> waiting_hashes s'" if "tx \<in> set us" for tx
    using that hs rdy by blast
  moreover have "ppt_hash tx \<notin> ready_hashes s' \<and> ppt_hash tx \<notin> waiting_hashes s'" if "tx \<in> set q" for tx
    using that q sub rdy unfolding queue_ok_def by blast
  ultimately show ?thesis using q by (auto simp: queue_ok_def)
qed

lemma mark_and_unlock_none:
  assumes inv: "pool_inv s" and prov: "\<forall>m\<in>set ms. fmlookup (rd_provided_markers (pi_ready s)) m \<noteq> None"
  shows "mark_and_unlock it ms (pi_pending s) = Some (pi_pending s, [])"
proof -
  have "fmlookup (required_markers (pi_pending s)) m = None" if "m \<in> set ms" for m
  proof (rule ccontr)
    assume "fmlookup (required_markers (pi_pending s)) m \<noteq> None"
    then obtain hs h where "fmlookup (required_markers (pi_pending s)) m = Some hs" "h |\<in>| hs"
      using pending_invD(2) [OF pool_invD(2) [OF inv]] by fastforce
    then have "misses (pi_pending s) h m"
      using pending_invD(1) [OF pool_invD(2) [OF inv], of h m] by (simp add: unwrap_or_def)
    then show False using pool_invD(5) [OF inv] prov that by (auto simp: misses_def)
  qed
  then show ?thesis by (induction ms) auto
qed

lemma disjoint_insert_Un:
  "A \<subseteq> insert x B \<Longrightarrow> x \<notin> C \<Longrightarrow> x \<notin> D \<Longrightarrow> B \<inter> C = {} \<Longrightarrow> B \<inter> D = {} \<Longrightarrow> A \<inter> (C \<union> D) = {}"
  by blast

text \<open>One round on a transaction that is outbid, and on one that goes in.\<close>

lemma import_round:
  assumes ord: "orders_ok ord" and inv: "pool_inv s" and q: "queue_ok (tx # q) s"
  obtains pending us ready res where
    "mark_and_unlock (mo_hash ord) (ppt_provides tx) (pi_pending s) = Some (pending, us)"
    "ready_add_transaction (mo_hash ord) (pi_ready s) tx = Some (ready, res)"
    "pool_inv (s\<lparr> pi_ready := ready, pi_pending := pending \<rparr>)"
    "queue_ok (q @ us) (s\<lparr> pi_ready := ready, pi_pending := pending \<rparr>)"
    "waiting_hashes s = waiting_hashes (s\<lparr> pi_ready := ready, pi_pending := pending \<rparr>) \<union> ppt_hash ` set us"
    "\<forall>e. res = Inl e \<longrightarrow> e = ReplacementUnderpriced (ppt_transaction tx) \<and> ready = pi_ready s \<and> pending = pi_pending s \<and> us = []"
    "\<forall>rs. res = Inr rs \<longrightarrow> skel (rd_ready_tx ready) (ppt_hash tx) =
        Some \<lparr> ptr_transaction = ppt_transaction tx, ptr_id = rd_id (pi_ready s) \<rparr> \<and>
      (\<forall>h\<in>ready_hashes s. h \<notin> pt_hash ` set rs \<longrightarrow> skel (rd_ready_tx ready) h = skel (rd_ready_tx (pi_ready s)) h) \<and>
      ready_hashes s \<subseteq> {h. fmlookup (rd_ready_tx ready) h \<noteq> None} \<union> pt_hash ` set rs \<and>
      {h. fmlookup (rd_ready_tx ready) h \<noteq> None} \<subseteq> insert (ppt_hash tx) (ready_hashes s)"
proof -
  let ?t = "ppt_transaction tx" and ?M = "fset_of_list (ppt_provides tx)"
  note rinv = pool_invD(1) [OF inv] and pinv = pool_invD(2) [OF inv]
  have it: "iter_ok (mo_hash ord)" using ord by (simp add: orders_ok_def)
  have wf: "ptx_wf ?t" and rdy: "ppt_is_ready tx" and new: "skel (rd_ready_tx (pi_ready s)) (pt_hash ?t) = None"
    using q by (simp_all add: queue_ok_def)
  from mark_and_unlock_refines [OF it pinv, of "ppt_provides tx"] obtain pending us where
    mu: "mark_and_unlock (mo_hash ord) (ppt_provides tx) (pi_pending s) = Some (pending, us)" "pending_inv pending"
    and wait: "\<And>h. fmlookup (waiting_queue pending) h =
      Option.bind (fmlookup (waiting_queue (pi_pending s)) h) (strike_wait ?M)"
    and us: "distinct (map ppt_hash us)" "set us = unlocked_by ?M (pi_pending s)" by blast
  have W: "waiting_hashes s = waiting_hashes (s\<lparr> pi_ready := ready, pi_pending := pending \<rparr>) \<union> ppt_hash ` set us" for ready
    using unlocked_hashes [OF pinv wait us(2)] wait_strike_mem [OF wait] by auto
  note add = ready_add_spec [OF rinv it wf refl rdy new]
  show ?thesis
  proof (cases "ready_outbid ?t (pi_ready s)")
    case True
    have "\<forall>m\<in>set (ppt_provides tx). fmlookup (rd_provided_markers (pi_ready s)) m \<noteq> None"
      using True ready_partD(3) [OF rinv skel_lookup] by (auto simp: ready_outbid_def rt_provides_def)
    then have mu': "mark_and_unlock (mo_hash ord) (ppt_provides tx) (pi_pending s) = Some (pi_pending s, [])"
      by (rule mark_and_unlock_none [OF inv])
    show ?thesis
      by (rule that [OF mu', of "pi_ready s" "Inl (ReplacementUnderpriced ?t)"])
        (use True add inv q in \<open>auto simp: queue_ok_def\<close>)
  next
    case False
    with add obtain ready rs sk where
      ra: "ready_add_transaction (mo_hash ord) (pi_ready s) tx = Some (ready, Inr rs)" "ready_inv ready"
      and sh: "shed (skel (rd_ready_tx (pi_ready s))) sk rs"
      and sk: "skel (rd_ready_tx ready) = sk(pt_hash ?t \<mapsto> \<lparr> ptr_transaction = ?t, ptr_id = rd_id (pi_ready s) \<rparr>)"
      and prov: "\<And>m. m \<notin> set (pt_provides ?t) \<Longrightarrow> fmlookup (rd_provided_markers (pi_ready s)) m = None \<Longrightarrow>
         fmlookup (rd_provided_markers ready) m = None" by auto
    let ?s = "s\<lparr> pi_ready := ready, pi_pending := pending \<rparr>"
    have lk: "fmlookup (rd_ready_tx ready) h \<noteq> None \<longleftrightarrow> h = pt_hash ?t \<or> sk h \<noteq> None" for h
      using sk by (metis skel_None fun_upd_apply option.distinct(1))
    have R: "{h. fmlookup (rd_ready_tx ready) h \<noteq> None} \<subseteq> insert (ppt_hash tx) (ready_hashes s)"
      using lk shedD(2) [OF sh] unfolding skel_None by blast
    have same: "\<forall>h\<in>ready_hashes s. h \<notin> pt_hash ` set rs \<longrightarrow> skel (rd_ready_tx ready) h = skel (rd_ready_tx (pi_ready s)) h"
    proof (intro ballI impI)
      fix h assume h: "h \<in> ready_hashes s" "h \<notin> pt_hash ` set rs"
      then obtain r where r: "skel (rd_ready_tx (pi_ready s)) h = Some r" by (auto simp: skel_def)
      then have "sk h = Some r" using shedD(1,4) [OF sh] ready_partD(1) [OF rinv r] h(2) by (cases "sk h") auto
      then show "skel (rd_ready_tx ready) h = skel (rd_ready_tx (pi_ready s)) h"
        using r h(1) new by (auto simp: sk)
    qed
    then have keep: "ready_hashes s \<subseteq> {h. fmlookup (rd_ready_tx ready) h \<noteq> None} \<union> pt_hash ` set rs"
      using skel_None by (smt (verit) Un_iff mem_Collect_eq subsetI)
    have disj: "ready_hashes ?s \<inter> (ppt_hash ` set q \<union> waiting_hashes s) = {}"
    proof -
      have "ready_hashes ?s \<subseteq> insert (ppt_hash tx) (ready_hashes s)" using R by simp
      moreover have "ppt_hash tx \<notin> ppt_hash ` set q" "ppt_hash tx \<notin> waiting_hashes s" "ready_hashes s \<inter> ppt_hash ` set q = {}"
        using q by (auto simp: queue_ok_def)
      ultimately show ?thesis by (rule disjoint_insert_Un) (rule pool_invD(3) [OF inv])
    qed
    have "pool_inv ?s"
      by (rule pool_inv_step [OF inv ra(2) mu(2) wait])
        (use prov disj wait_strike_mem [OF wait] in \<open>auto simp: fset_of_list.rep_eq\<close>)
    moreover have "queue_ok q s" using q by (simp add: queue_ok_def)
    then have "queue_ok (q @ us) ?s"
      by (rule queue_ok_unlock [OF inv]) (use wait us disj in auto)
    ultimately show ?thesis using W R keep same sk that [OF mu(1) ra(1)] by simp
  qed
qed

text \<open>What a run of the loop does with the transactions it meets; \<open>R\<close>, \<open>W\<close> and \<open>Q\<close> are hashes.\<close>

abbreviation removed_hashes :: "ready_report \<Rightarrow> tx_hash set" where
  "removed_hashes rep \<equiv> pt_hash ` set (ra_removed rep)"

definition accounts ::
  "tx_hash set \<Rightarrow> tx_hash set \<Rightarrow> tx_hash set \<Rightarrow> ready_report \<Rightarrow> tx_hash set \<Rightarrow> tx_hash set \<Rightarrow> ready_report \<Rightarrow> bool" where
  "accounts R W Q rep R' W' rep' \<longleftrightarrow>
     ra_hash rep' = ra_hash rep \<and>
     removed_hashes rep \<subseteq> removed_hashes rep' \<and>
     set (ra_discarded rep) \<subseteq> set (ra_discarded rep') \<and>
     R \<subseteq> R' \<union> removed_hashes rep' \<and>
     W \<union> Q \<subseteq> W' \<union> R' \<union> removed_hashes rep' \<union> set (ra_discarded rep') \<and>
     W' \<subseteq> W \<and> R' \<subseteq> R \<union> W \<union> Q"

lemma accounts_step:
  assumes acc: "accounts R1 W1 (Q \<union> U) rep1 R' W' rep'" and W: "W = W1 \<union> U" and h: "ra_hash rep1 = ra_hash rep"
    and A: "removed_hashes rep \<subseteq> removed_hashes rep1"
    and D: "set (ra_discarded rep) \<subseteq> set (ra_discarded rep1)"
    and R: "R \<subseteq> R1 \<union> removed_hashes rep1" "R1 \<subseteq> insert h R"
    and new: "h \<in> R1 \<or> h \<in> set (ra_discarded rep1)"
  shows "accounts R W (insert h Q) rep R' W' rep'"
proof -
  define A0 A1 A2 D0 D1 D2 where sets: "A0 = removed_hashes rep" "A1 = removed_hashes rep1" "A2 = removed_hashes rep'"
    "D0 = set (ra_discarded rep)" "D1 = set (ra_discarded rep1)" "D2 = set (ra_discarded rep')"
  note * = acc [unfolded accounts_def, folded sets]
  have 1: "R1 \<subseteq> R' \<union> A2" "A1 \<subseteq> A2" "D1 \<subseteq> D2" "W' \<subseteq> W1" "R' \<subseteq> R1 \<union> W1 \<union> (Q \<union> U)"
    and 2: "W1 \<union> (Q \<union> U) \<subseteq> W' \<union> R' \<union> A2 \<union> D2" using * by simp_all
  have "R \<subseteq> R' \<union> A2" using R(1) [folded sets] 1(1,2) by fast
  moreover have "W \<union> insert h Q \<subseteq> W' \<union> R' \<union> A2 \<union> D2" using 2 new [folded sets] W 1(1,3) by fast
  moreover have "W' \<subseteq> W" "R' \<subseteq> R \<union> W \<union> insert h Q" using W 1(4,5) R(2) by fast+
  moreover have "A0 \<subseteq> A2" "D0 \<subseteq> D2" using A [folded sets] D [folded sets] 1(2,3) by fast+
  ultimately show ?thesis using * h unfolding accounts_def sets by simp
qed

lemma skel_eq_mem: "skel r h = skel r' h \<Longrightarrow> (\<exists>y. fmlookup r h = Some y) \<longleftrightarrow> (\<exists>y. fmlookup r' h = Some y)"
  by (metis not_None_eq skel_None)

lemma case_sum_InrE:
  assumes "\<exists>s' res. f = Some (s', res) \<and> P s' \<and>
    (case res of Inl e \<Rightarrow> False \<and> A s' e | Inr r \<Rightarrow> B s' r \<and> K s' r \<and> C s' r)"
  obtains s' r where "f = Some (s', Inr r)" "P s'" "B s' r" "K s' r"
proof -
  from assms obtain s' res where "f = Some (s', res)" "P s'"
    "case res of Inl e \<Rightarrow> False \<and> A s' e | Inr r \<Rightarrow> B s' r \<and> K s' r \<and> C s' r" by blast
  then show ?thesis using that by (cases res) auto
qed

lemma add_ready_loop_spec:
  assumes ord: "orders_ok ord" and "pool_inv s" and "queue_ok q s"
  shows "\<exists>s' res. add_ready_loop ord q new rep s = Some (s', res) \<and> pool_inv s' \<and>
    (case res of
       Inl e \<Rightarrow> new \<and> s' = s \<and> (\<exists>tx q'. q = tx # q' \<and> e = ReplacementUnderpriced (ppt_transaction tx))
     | Inr rep' \<Rightarrow>
         accounts (ready_hashes s) (waiting_hashes s) (ppt_hash ` set q) rep (ready_hashes s') (waiting_hashes s') rep' \<and>
         (\<forall>h\<in>ready_hashes s. h \<notin> removed_hashes rep' \<longrightarrow>
            skel (rd_ready_tx (pi_ready s')) h = skel (rd_ready_tx (pi_ready s)) h) \<and>
         (new \<longrightarrow> (\<forall>tx q'. q = tx # q' \<longrightarrow> ppt_hash tx \<in> removed_hashes rep' \<or>
            (\<exists>i. skel (rd_ready_tx (pi_ready s')) (ppt_hash tx) =
               Some \<lparr> ptr_transaction = ppt_transaction tx, ptr_id = i \<rparr>))))"
  using assms
proof (induction ord q new rep s rule: add_ready_loop.induct)
  case (1 ord new rep s)
  then show ?case by (auto simp: accounts_def)
next
  case (2 ord tx q new rep s)
  obtain pending us ready res where
    mu: "mark_and_unlock (mo_hash ord) (ppt_provides tx) (pi_pending s) = Some (pending, us)"
    and ra: "ready_add_transaction (mo_hash ord) (pi_ready s) tx = Some (ready, res)"
    and inv: "pool_inv (s\<lparr> pi_ready := ready, pi_pending := pending \<rparr>)"
    and qok: "queue_ok (q @ us) (s\<lparr> pi_ready := ready, pi_pending := pending \<rparr>)"
    and W: "waiting_hashes s = waiting_hashes (s\<lparr> pi_ready := ready, pi_pending := pending \<rparr>) \<union> ppt_hash ` set us"
    and Inl_case: "\<forall>e. res = Inl e \<longrightarrow> e = ReplacementUnderpriced (ppt_transaction tx) \<and> ready = pi_ready s \<and> pending = pi_pending s \<and> us = []"
    and Inr_case: "\<forall>rs. res = Inr rs \<longrightarrow> skel (rd_ready_tx ready) (ppt_hash tx) =
        Some \<lparr> ptr_transaction = ppt_transaction tx, ptr_id = rd_id (pi_ready s) \<rparr> \<and>
      (\<forall>h\<in>ready_hashes s. h \<notin> pt_hash ` set rs \<longrightarrow> skel (rd_ready_tx ready) h = skel (rd_ready_tx (pi_ready s)) h) \<and>
      ready_hashes s \<subseteq> {h. fmlookup (rd_ready_tx ready) h \<noteq> None} \<union> pt_hash ` set rs \<and>
      {h. fmlookup (rd_ready_tx ready) h \<noteq> None} \<subseteq> insert (ppt_hash tx) (ready_hashes s)"
    by (rule import_round [OF 2(3,4,5)])
  let ?s = "s\<lparr> pi_ready := ready, pi_pending := pending \<rparr>"
  note IH = 2(1,2) [OF mu refl ra refl refl]
  note ord = 2(3)
  show ?case
  proof (cases res)
    case (Inl e)
    let ?rep = "rep\<lparr> ra_discarded := ra_discarded rep @ [ppt_hash tx] \<rparr>"
    have same: "?s = s" "us = []" using Inl Inl_case by simp_all
    show ?thesis
    proof (cases new)
      case True
      then show ?thesis using Inl Inl_case mu ra 2(4) by simp
    next
      case False
      obtain s' rep' where
        loop: "add_ready_loop ord (q @ us) False ?rep ?s = Some (s', Inr rep')" "pool_inv s'"
        and acc: "accounts (ready_hashes ?s) (waiting_hashes ?s) (ppt_hash ` set (q @ us)) ?rep (ready_hashes s') (waiting_hashes s') rep'"
        and keep: "\<forall>h\<in>ready_hashes ?s. h \<notin> removed_hashes rep' \<longrightarrow> skel (rd_ready_tx (pi_ready s')) h = skel (rd_ready_tx (pi_ready ?s)) h"
        by (rule case_sum_InrE [OF IH(1) [OF Inl False ord inv qok]])
      have "accounts (ready_hashes s) (waiting_hashes s) (insert (ppt_hash tx) (ppt_hash ` set q)) rep (ready_hashes s') (waiting_hashes s') rep'"
        by (rule accounts_step [OF acc [unfolded set_append image_Un] W]) (auto simp: same)
      then show ?thesis using loop False Inl mu ra keep by (simp add: same)
    qed
  next
    case (Inr rs)
    let ?rep = "rep\<lparr> ra_promoted := (if new then ra_promoted rep else ra_promoted rep @ [ppt_hash tx]),
                     ra_removed := ra_removed rep @ rs \<rparr>"
    note R = Inr_case [rule_format, OF Inr]
    then have mem: "fmlookup (rd_ready_tx ready) (ppt_hash tx) \<noteq> None" by (auto dest: skel_SomeD)
    obtain s' rep' where
      loop: "add_ready_loop ord (q @ us) False ?rep ?s = Some (s', Inr rep')" "pool_inv s'"
      and acc: "accounts (ready_hashes ?s) (waiting_hashes ?s) (ppt_hash ` set (q @ us)) ?rep (ready_hashes s') (waiting_hashes s') rep'"
        and keep: "\<forall>h\<in>ready_hashes ?s. h \<notin> removed_hashes rep' \<longrightarrow> skel (rd_ready_tx (pi_ready s')) h = skel (rd_ready_tx (pi_ready ?s)) h"
      by (rule case_sum_InrE [OF IH(2) [OF Inr ord inv qok]])
    have "accounts (ready_hashes s) (waiting_hashes s) (insert (ppt_hash tx) (ppt_hash ` set q)) rep (ready_hashes s') (waiting_hashes s') rep'"
      by (rule accounts_step [OF acc [unfolded set_append image_Un] W]) (use R mem in auto)
    moreover have rs: "h \<notin> pt_hash ` set rs" if "h \<notin> removed_hashes rep'" for h
      using that acc unfolding accounts_def by auto
    have "skel (rd_ready_tx (pi_ready s')) h = skel (rd_ready_tx (pi_ready s)) h"
      if "h \<in> ready_hashes s" "h \<notin> removed_hashes rep'" for h
    proof -
      have "skel (rd_ready_tx ready) h = skel (rd_ready_tx (pi_ready s)) h" using R rs that by blast
      then have eq: "skel (rd_ready_tx (pi_ready ?s)) h = skel (rd_ready_tx (pi_ready s)) h" by simp
      with skel_eq_mem [OF this] that(1) have "h \<in> ready_hashes ?s" by auto
      then show ?thesis using keep that(2) eq by metis
    qed
    moreover have "ppt_hash tx \<in> removed_hashes rep' \<or>
        (\<exists>i. skel (rd_ready_tx (pi_ready s')) (ppt_hash tx) = Some \<lparr> ptr_transaction = ppt_transaction tx, ptr_id = i \<rparr>)"
    proof (cases "ppt_hash tx \<in> removed_hashes rep'")
      case False
      have "ppt_hash tx \<in> ready_hashes ?s" using mem by simp
      then show ?thesis using keep False R by auto
    qed simp
    ultimately show ?thesis using loop Inr mu ra by simp
  qed
qed

section \<open>Removing\<close>

lemma pool_inv_remove:
  assumes inv: "pool_inv s" and rm: "remove_with_markers hs None (pi_ready s) = (ready, removed)"
  shows "pool_inv (s\<lparr> pi_ready := ready \<rparr>)" "ready_hashes (s\<lparr> pi_ready := ready \<rparr>) \<subseteq> ready_hashes s"
    "\<And>h. h \<in> set hs \<Longrightarrow> h \<notin> ready_hashes (s\<lparr> pi_ready := ready \<rparr>)"
    "\<And>h. h \<in> ready_hashes s \<Longrightarrow> h \<in> ready_hashes (s\<lparr> pi_ready := ready \<rparr>) \<or> h \<in> pt_hash ` set removed"
proof -
  have "ready_part (filter_set None) (pi_ready s)" using pool_invD(1) [OF inv] by (simp add: filter_set_def)
  note spec = remove_with_markers_spec [OF this rm]
  then have rinv: "ready_inv ready" and sh: "shed (skel (rd_ready_tx (pi_ready s))) (skel (rd_ready_tx ready)) removed"
    and gone: "\<And>h. h \<in> set hs \<Longrightarrow> skel (rd_ready_tx ready) h = None"
    and prov: "\<And>m. fmlookup (rd_provided_markers (pi_ready s)) m = None \<Longrightarrow> fmlookup (rd_provided_markers ready) m = None"
    by (auto simp: filter_set_def)
  show sub: "ready_hashes (s\<lparr> pi_ready := ready \<rparr>) \<subseteq> ready_hashes s"
    using shedD(2) [OF sh] unfolding skel_None by (auto; metis option.distinct(1) not_None_eq)
  show "h \<notin> ready_hashes (s\<lparr> pi_ready := ready \<rparr>)" if "h \<in> set hs" for h using gone [OF that] by simp
  show "h \<in> ready_hashes (s\<lparr> pi_ready := ready \<rparr>) \<or> h \<in> pt_hash ` set removed" if "h \<in> ready_hashes s" for h
  proof (cases "fmlookup (rd_ready_tx ready) h")
    case None
    from that obtain r where r: "skel (rd_ready_tx (pi_ready s)) h = Some r" by (auto simp: skel_def)
    with shedD(4) [OF sh r] None ready_partD(1) [OF pool_invD(1) [OF inv] r] show ?thesis by force
  qed simp
  show "pool_inv (s\<lparr> pi_ready := ready \<rparr>)"
    using inv sub rinv prov unfolding pool_inv_def by (simp; blast)
qed

lemma pool_inv_pending_remove:
  assumes inv: "pool_inv s" and it: "iter_ok it" and rm: "pending_remove it hs (pi_pending s) = (pending, removed)"
  shows "pool_inv (s\<lparr> pi_pending := pending \<rparr>)"
    "waiting_hashes (s\<lparr> pi_pending := pending \<rparr>) = waiting_hashes s - set hs"
    "pt_hash ` set removed = waiting_hashes s \<inter> set hs"
proof -
  note spec = pending_remove_spec [OF it pool_invD(2) [OF inv] rm]
  then have lk: "\<And>h. fmlookup (waiting_queue pending) h = (if h \<in> set hs then None else fmlookup (waiting_queue (pi_pending s)) h)"
    by blast
  show W: "waiting_hashes (s\<lparr> pi_pending := pending \<rparr>) = waiting_hashes s - set hs" by (auto simp: lk)
  show "pool_inv (s\<lparr> pi_pending := pending \<rparr>)"
    using inv spec by (auto simp: pool_inv_def lk)
  show "pt_hash ` set removed = waiting_hashes s \<inter> set hs"
  proof -
    have "set removed = {ppt_transaction tx | tx h. h \<in> set hs \<and> fmlookup (waiting_queue (pi_pending s)) h = Some tx}"
      using spec by blast
    then show ?thesis using pending_invD(3) [OF pool_invD(2) [OF inv]] by (force simp: image_iff)
  qed
qed

definition pool_hashes :: "pool_inner \<Rightarrow> tx_hash set" where
  "pool_hashes s = {h. pool_contains s h}"

lemma pool_hashes_Un: "pool_hashes s = ready_hashes s \<union> waiting_hashes s"
  by (auto simp: pool_hashes_def pool_contains_def pending_contains_def ready_contains_def)

lemma remove_both_spec:
  assumes inv: "pool_inv s" and it: "iter_ok it"
    and rm: "remove_with_markers hs None (pi_ready s) = (ready, removed)"
      "pending_remove it hs (pi_pending s) = (pending, removed')"
  shows "pool_inv (s\<lparr> pi_ready := ready, pi_pending := pending \<rparr>)"
    "pool_hashes (s\<lparr> pi_ready := ready, pi_pending := pending \<rparr>) \<subseteq> pool_hashes s - set hs"
    "pool_hashes s \<subseteq> pool_hashes (s\<lparr> pi_ready := ready, pi_pending := pending \<rparr>) \<union> pt_hash ` set (removed @ removed')"
proof -
  note r = pool_inv_remove [OF inv rm(1)]
  note p = pool_inv_pending_remove [OF r(1) it, of hs pending removed'] and W = pool_inv_pending_remove(2,3) [OF inv it rm(2)]
  show "pool_inv (s\<lparr> pi_ready := ready, pi_pending := pending \<rparr>)" using p(1) rm(2) by simp
  show "pool_hashes (s\<lparr> pi_ready := ready, pi_pending := pending \<rparr>) \<subseteq> pool_hashes s - set hs"
    using r(2,3) W(1) unfolding pool_hashes_Un by auto
  show "pool_hashes s \<subseteq> pool_hashes (s\<lparr> pi_ready := ready, pi_pending := pending \<rparr>) \<union> pt_hash ` set (removed @ removed')"
  proof
    fix h assume "h \<in> pool_hashes s"
    then consider "h \<in> ready_hashes s" | "h \<in> waiting_hashes s" unfolding pool_hashes_Un by blast
    then show "h \<in> pool_hashes (s\<lparr> pi_ready := ready, pi_pending := pending \<rparr>) \<union> pt_hash ` set (removed @ removed')"
      using r(4) [of h] W unfolding pool_hashes_Un by cases auto
  qed
qed

lemma remove_invalid_spec:
  assumes inv: "pool_inv s" and ord: "orders_ok ord" and rm: "remove_invalid ord hs s = (s', removed)"
  shows "pool_inv s' \<and> pool_hashes s' \<subseteq> pool_hashes s - set hs \<and>
    pool_hashes s \<subseteq> pool_hashes s' \<union> pt_hash ` set removed"
proof (cases "hs = []")
  case True
  then show ?thesis using rm inv by (simp add: remove_invalid_def)
next
  case False
  have it: "iter_ok (mo_marker ord)" using ord by (simp add: orders_ok_def)
  from rm False obtain ready r pending r' where
    "remove_with_markers hs None (pi_ready s) = (ready, r)"
    "pending_remove (mo_marker ord) hs (pi_pending s) = (pending, r')"
    "s' = s\<lparr> pi_ready := ready, pi_pending := pending \<rparr>" "removed = r @ r'"
    by (auto simp: remove_invalid_def Let_def split: prod.splits)
  then show ?thesis using remove_both_spec [OF inv it, of hs] by simp
qed

section \<open>Adding\<close>

declare add_ready_loop.simps(2) [simp del]

lemma queue_ok_shrink:
  assumes "queue_ok (tx # q) s" and "ready_hashes s' \<union> waiting_hashes s' \<subseteq> insert (ppt_hash tx) (ready_hashes s \<union> waiting_hashes s)"
  shows "queue_ok q s'"
  using assms unfolding queue_ok_def by (auto simp: image_iff) fastforce+

lemma add_ready_spec:
  assumes ord: "orders_ok ord" and inv: "pool_inv s" and q: "queue_ok (tx # q) s"
  shows "\<exists>s' res. add_ready_transaction ord s tx = Some (s', res) \<and> pool_inv s' \<and> queue_ok q s' \<and>
    (case res of
       Inl e \<Rightarrow> e = CyclicTransaction \<or> e = ReplacementUnderpriced (ppt_transaction tx) \<and> s' = s
     | Inr (AddedPending h) \<Rightarrow> False
     | Inr (AddedReady rep) \<Rightarrow>
         accounts (ready_hashes s) (waiting_hashes s) {ppt_hash tx} (ready_report_new (ppt_hash tx))
           (ready_hashes s') (waiting_hashes s') rep \<and>
         (\<exists>i. skel (rd_ready_tx (pi_ready s')) (ppt_hash tx) =
            Some \<lparr> ptr_transaction = ppt_transaction tx, ptr_id = i \<rparr>))"
proof -
  let ?rep = "ready_report_new (ppt_hash tx)"
  have q1: "queue_ok [tx] s" and q2: "queue_ok q s" using q by (auto simp: queue_ok_def)
  from add_ready_loop_spec [OF ord inv q1, of True ?rep] obtain s1 res1 where
    loop: "add_ready_loop ord [tx] True ?rep s = Some (s1, res1)" "pool_inv s1"
    and cs0: "case res1 of Inl e \<Rightarrow> True \<and> s1 = s \<and> (\<exists>t q'. [tx] = t # q' \<and> e = ReplacementUnderpriced (ppt_transaction t))
      | Inr rep' \<Rightarrow> accounts (ready_hashes s) (waiting_hashes s) (ppt_hash ` set [tx]) ?rep (ready_hashes s1) (waiting_hashes s1) rep' \<and>
         (\<forall>h\<in>ready_hashes s. h \<notin> removed_hashes rep' \<longrightarrow>
            skel (rd_ready_tx (pi_ready s1)) h = skel (rd_ready_tx (pi_ready s)) h) \<and>
         (True \<longrightarrow> (\<forall>t q'. [tx] = t # q' \<longrightarrow> ppt_hash t \<in> removed_hashes rep' \<or>
            (\<exists>i. skel (rd_ready_tx (pi_ready s1)) (ppt_hash t) = Some \<lparr> ptr_transaction = ppt_transaction t, ptr_id = i \<rparr>)))"
    by blast
  have cs: "case res1 of Inl e \<Rightarrow> s1 = s \<and> e = ReplacementUnderpriced (ppt_transaction tx)
      | Inr rep' \<Rightarrow> accounts (ready_hashes s) (waiting_hashes s) {ppt_hash tx} ?rep (ready_hashes s1) (waiting_hashes s1) rep' \<and>
         (ppt_hash tx \<in> removed_hashes rep' \<or>
            (\<exists>i. skel (rd_ready_tx (pi_ready s1)) (ppt_hash tx) = Some \<lparr> ptr_transaction = ppt_transaction tx, ptr_id = i \<rparr>))"
    using cs0 by (cases res1) simp_all
  show ?thesis
  proof (cases res1)
    case (Inl e)
    then show ?thesis using loop cs inv q2 by (simp add: add_ready_transaction_def Let_def)
  next
    case (Inr rep)
    then have acc: "accounts (ready_hashes s) (waiting_hashes s) {ppt_hash tx} ?rep (ready_hashes s1) (waiting_hashes s1) rep"
      using cs by simp
    then have sub: "ready_hashes s1 \<union> waiting_hashes s1 \<subseteq> insert (ppt_hash tx) (ready_hashes s \<union> waiting_hashes s)"
      unfolding accounts_def by blast
    show ?thesis
    proof (cases "ppt_hash tx \<in> removed_hashes rep")
      case True
      obtain ready rm where rm: "remove_with_markers (ra_promoted rep) None (pi_ready s1) = (ready, rm)"
        by (meson surj_pair)
      note rmv = pool_inv_remove [OF loop(2) rm]
      have "waiting_hashes (s1\<lparr> pi_ready := ready \<rparr>) \<subseteq> waiting_hashes s1" by simp
      from order_trans [OF Un_mono [OF rmv(2) this] sub]
      have "ready_hashes (s1\<lparr> pi_ready := ready \<rparr>) \<union> waiting_hashes (s1\<lparr> pi_ready := ready \<rparr>) \<subseteq>
          insert (ppt_hash tx) (ready_hashes s \<union> waiting_hashes s)" .
      note queue_ok_shrink [OF q this]
      then show ?thesis using True Inr loop(1) rmv(1) rm
        by (auto simp: add_ready_transaction_def Let_def clear_transactions_def)
    next
      case False
      then have "\<not> (\<exists>t\<in>set (ra_removed rep). pt_hash t = ppt_hash tx)" by (metis imageI)
      then have "add_ready_transaction ord s tx = Some (s1, Inr (AddedReady rep))"
        using Inr loop(1) by (simp add: add_ready_transaction_def Let_def)
      then show ?thesis using False Inr loop(2) cs queue_ok_shrink [OF q sub] by simp
    qed
  qed
qed

lemma ppt_new_sel [simp]:
  "ppt_transaction (ppt_new now tx provided) = tx"
  "m |\<in>| ppt_missing_markers (ppt_new now tx provided) \<longleftrightarrow> m \<in> set (pt_requires tx) \<and> fmlookup provided m = None"
  by (auto simp: ppt_new_def fset_of_list_elem)

lemma inner_add_spec:
  assumes ord: "orders_ok ord" and inv: "pool_inv s" and wf: "ptx_wf tx"
  shows "\<exists>s' res. inner_add_transaction ord now s tx = Some (s', res) \<and> pool_inv s' \<and>
    (case res of
       Inl e \<Rightarrow> e = CyclicTransaction \<or> s' = s
     | Inr (AddedPending h) \<Rightarrow>
         h = pt_hash tx \<and> pi_ready s' = pi_ready s \<and> pt_hash tx \<notin> pool_hashes s \<and>
         waiting_queue (pi_pending s') = fmupd (pt_hash tx)
           (ppt_new now tx (rd_provided_markers (pi_ready s))) (waiting_queue (pi_pending s))
     | Inr (AddedReady rep) \<Rightarrow>
         accounts (ready_hashes s) (waiting_hashes s) {pt_hash tx} (ready_report_new (pt_hash tx))
           (ready_hashes s') (waiting_hashes s') rep \<and>
         (\<exists>i. skel (rd_ready_tx (pi_ready s')) (pt_hash tx) = Some \<lparr> ptr_transaction = tx, ptr_id = i \<rparr>))"
proof (cases "pool_contains s (pt_hash tx)")
  case True
  then show ?thesis using inv by (simp add: inner_add_transaction_def)
next
  case False
  then have new: "pt_hash tx \<notin> ready_hashes s" "pt_hash tx \<notin> waiting_hashes s" "pt_hash tx \<notin> pool_hashes s"
    by (auto simp: pool_contains_def ready_contains_def pending_contains_def pool_hashes_def)
  let ?tx = "ppt_new now tx (rd_provided_markers (pi_ready s))"
  show ?thesis
  proof (cases "ppt_is_ready ?tx")
    case True
    then have "queue_ok [?tx] s" using new wf by (simp add: queue_ok_def)
    from add_ready_spec [OF ord inv this] obtain s' res where
      ar: "add_ready_transaction ord s ?tx = Some (s', res)" "pool_inv s'"
      "case res of
         Inl e \<Rightarrow> e = CyclicTransaction \<or> e = ReplacementUnderpriced (ppt_transaction ?tx) \<and> s' = s
       | Inr (AddedPending h) \<Rightarrow> False
       | Inr (AddedReady rep) \<Rightarrow>
           accounts (ready_hashes s) (waiting_hashes s) {ppt_hash ?tx} (ready_report_new (ppt_hash ?tx))
             (ready_hashes s') (waiting_hashes s') rep \<and>
           (\<exists>i. skel (rd_ready_tx (pi_ready s')) (ppt_hash ?tx) =
              Some \<lparr> ptr_transaction = ppt_transaction ?tx, ptr_id = i \<rparr>)" by blast
    then show ?thesis using False True
      by (cases res) (auto simp: inner_add_transaction_def Let_def split: added_transaction.splits)
  next
    case wait: False
    have "iter_ok (mo_marker ord)" using ord by (simp add: orders_ok_def)
    from pending_add_spec [OF this pool_invD(2) [OF inv] wait] new(2) obtain pending r where
      pa: "pending_add_transaction (mo_marker ord) (pi_pending s) ?tx = Some (pending, r)" "pending_inv pending"
      and cs: "case r of Inl e \<Rightarrow> pending = pi_pending s \<and> e = ReplacementUnderpriced (ppt_transaction ?tx)
        | Inr _ \<Rightarrow> waiting_queue pending = fmupd (ppt_hash ?tx) ?tx (waiting_queue (pi_pending s))" by auto
    show ?thesis
    proof (cases r)
      case (Inl e)
      then show ?thesis using pa(1) cs wait False inv by (simp add: inner_add_transaction_def Let_def)
    next
      case (Inr u)
      then have wq: "waiting_queue pending = fmupd (pt_hash tx) ?tx (waiting_queue (pi_pending s))" using cs by simp
      have "pool_inv (s\<lparr> pi_pending := pending \<rparr>)"
        using inv pa(2) wf new(1) by (auto simp: pool_inv_def wq split: if_splits)
      then show ?thesis using pa(1) Inr wait False new(3) wq by (simp add: inner_add_transaction_def Let_def)
    qed
  qed
qed

section \<open>Pruning\<close>

lemma prune_collect_spec:
  assumes ord: "orders_ok ord" and "pool_inv s" and "queue_ok q s"
  shows "\<exists>s' imps pruned. prune_collect ord ms s = Some (s', imps, pruned) \<and> pool_inv s' \<and>
    queue_ok (q @ imps) s' \<and> pool_hashes s' \<subseteq> pool_hashes s \<and>
    (\<forall>m\<in>set ms. fmlookup (rd_provided_markers (pi_ready s')) m = None) \<and>
    (\<forall>m. fmlookup (rd_provided_markers (pi_ready s)) m = None \<longrightarrow> fmlookup (rd_provided_markers (pi_ready s')) m = None)"
  using assms(2,3)
proof (induction ms arbitrary: s q)
  case Nil
  then show ?case by simp
next
  case (Cons m ms)
  note inv = Cons.prems(1) and pinv = pool_invD(2) [OF Cons.prems(1)]
  have it: "iter_ok (mo_hash ord)" using ord by (simp add: orders_ok_def)
  from mark_and_unlock_refines [OF it pinv, of "[m]"] obtain pending us where
    mu: "mark_and_unlock (mo_hash ord) [m] (pi_pending s) = Some (pending, us)" "pending_inv pending"
    and wait: "\<And>h. fmlookup (waiting_queue pending) h =
      Option.bind (fmlookup (waiting_queue (pi_pending s)) h) (strike_wait (fset_of_list [m]))"
    and us: "distinct (map ppt_hash us)" "set us = unlocked_by (fset_of_list [m]) (pi_pending s)" by blast
  obtain ready pruned where pt: "prune_tags m (pi_ready s) = Some (ready, pruned)" "ready_inv ready"
    and sh: "shed (skel (rd_ready_tx (pi_ready s))) (skel (rd_ready_tx ready)) pruned"
    and pm: "fmlookup (rd_provided_markers ready) m = None"
    and prov: "\<And>k. fmlookup (rd_provided_markers (pi_ready s)) k = None \<Longrightarrow> fmlookup (rd_provided_markers ready) k = None"
    by (rule prune_tags_spec [OF pool_invD(1) [OF inv]]) blast
  let ?s = "s\<lparr> pi_ready := ready, pi_pending := pending \<rparr>"
  have R: "ready_hashes ?s \<subseteq> ready_hashes s"
    using shedD(2) [OF sh] unfolding skel_None by (auto; metis option.distinct(1) not_None_eq)
  have W: "waiting_hashes ?s \<subseteq> waiting_hashes s" using wait_strike_mem [OF wait] by auto
  have sub: "pool_hashes ?s \<subseteq> pool_hashes s" using Un_mono [OF R W] unfolding pool_hashes_Un .
  have "ready_hashes s \<inter> (ppt_hash ` set q \<union> waiting_hashes s) = {}"
    using Cons.prems(2) pool_invD(3) [OF inv] by (auto simp: queue_ok_def)
  then have disj: "ready_hashes ?s \<inter> (ppt_hash ` set q \<union> waiting_hashes s) = {}" using R by fast
  have "pool_inv ?s"
    by (rule pool_inv_step [OF inv pt(2) mu(2) wait]) (use prov disj wait_strike_mem [OF wait] in auto)
  moreover have "queue_ok (q @ us) ?s"
    by (rule queue_ok_unlock [OF inv Cons.prems(2)]) (use wait us disj in auto)
  ultimately obtain s' imps pruned' where IH: "prune_collect ord ms ?s = Some (s', imps, pruned')" "pool_inv s'"
    "queue_ok ((q @ us) @ imps) s'" "pool_hashes s' \<subseteq> pool_hashes ?s"
    "\<forall>m\<in>set ms. fmlookup (rd_provided_markers (pi_ready s')) m = None"
    "\<forall>m. fmlookup (rd_provided_markers (pi_ready ?s)) m = None \<longrightarrow> fmlookup (rd_provided_markers (pi_ready s')) m = None"
    using Cons.IH by blast
  then show ?case using mu(1) pt(1) sub pm prov by auto
qed

lemma prune_import_spec:
  assumes ord: "orders_ok ord" and "pool_inv s" and "queue_ok q s"
  shows "\<exists>s' promoted failed. prune_import ord q s = Some (s', promoted, failed) \<and> pool_inv s'"
  using assms(2,3)
proof (induction q arbitrary: s)
  case (Cons tx q)
  from add_ready_spec [OF ord Cons.prems] obtain s1 res where
    ar: "add_ready_transaction ord s tx = Some (s1, res)" "pool_inv s1" "queue_ok q s1" by blast
  with Cons.IH [OF ar(2,3)] show ?case by (cases res) auto
qed simp

lemma prune_markers_spec:
  assumes ord: "orders_ok ord" and inv: "pool_inv s"
  shows "\<exists>s' res. prune_markers ord ms s = Some (s', res) \<and> pool_inv s'"
proof -
  have "queue_ok [] s" by (simp add: queue_ok_def)
  from prune_collect_spec [OF ord inv this, of ms] obtain s1 imps pruned where
    pc: "prune_collect ord ms s = Some (s1, imps, pruned)" "pool_inv s1" "queue_ok imps s1" by auto
  with prune_import_spec [OF ord pc(2,3)] show ?thesis by (auto simp: prune_markers_def)
qed

section \<open>The pool as a system of operations\<close>

datatype pool_op =
    OpAdd nat pool_transaction
  | OpMined mined_block_outcome
  | OpPrune "tx_marker list"
  | OpRemoveInvalid "tx_hash list"
  | OpDrop tx_hash
  | OpClear

fun pool_step :: "map_orders \<Rightarrow> pool_inner \<Rightarrow> pool_op \<Rightarrow> pool_inner option" where
  "pool_step ord s (OpAdd now tx) = map_option fst (inner_add_transaction ord now s tx)"
| "pool_step ord s (OpMined outcome) = map_option fst (on_mined_block ord outcome s)"
| "pool_step ord s (OpPrune ms) = map_option fst (prune_markers ord ms s)"
| "pool_step ord s (OpRemoveInvalid hs) = Some (fst (remove_invalid ord hs s))"
| "pool_step ord s (OpDrop h) = Some (fst (drop_transaction h s))"
| "pool_step ord s OpClear = Some (pool_clear s)"

fun pool_op_ok :: "pool_op \<Rightarrow> bool" where
  "pool_op_ok (OpAdd now tx) \<longleftrightarrow> ptx_wf tx"
| "pool_op_ok _ \<longleftrightarrow> True"

text \<open>Two concrete orders: the sorted ones.\<close>

definition sorted_orders :: map_orders where
  "sorted_orders = \<lparr> mo_hash = sorted_list_of_fset, mo_marker = sorted_list_of_fset \<rparr>"

lemma orders_ok_sorted: "orders_ok sorted_orders"
  by (simp add: orders_ok_def sorted_orders_def iter_ok_sorted)

lemma drop_transaction_inv:
  assumes "pool_inv s"
  shows "pool_inv (fst (drop_transaction h s))"
proof -
  obtain ready removed where rm: "remove_with_markers [h] None (pi_ready s) = (ready, removed)" by (meson surj_pair)
  then show ?thesis using pool_inv_remove(1) [OF assms rm] by (simp add: drop_transaction_def)
qed

lemma pool_step_ok:
  assumes ord: "orders_ok ord" and inv: "pool_inv s" and ok: "pool_op_ok x"
  shows "\<exists>s'. pool_step ord s x = Some s' \<and> pool_inv s'"
proof (cases x)
  case (OpAdd now tx)
  then show ?thesis using inner_add_spec [OF ord inv, of tx now] ok by fastforce
next
  case (OpMined outcome)
  obtain s1 removed where "remove_invalid ord (map pt_hash (mb_invalid outcome)) s = (s1, removed)" by (meson surj_pair)
  moreover from this have "pool_inv s1" using remove_invalid_spec [OF inv ord] by blast
  ultimately show ?thesis using prune_markers_spec [OF ord, of s1] OpMined by (fastforce simp: on_mined_block_def)
next
  case (OpPrune ms)
  then show ?thesis using prune_markers_spec [OF ord inv, of ms] by fastforce
next
  case (OpRemoveInvalid hs)
  then show ?thesis using remove_invalid_spec [OF inv ord, of hs] by (cases "remove_invalid ord hs s") auto
qed (use inv in \<open>simp_all add: pool_inv_clear drop_transaction_inv\<close>)

interpretation pool_sys: op_system "pool_step ord" "\<lambda>x. orders_ok ord \<and> pool_op_ok x" pool_inv
  for ord
  by unfold_locales (use pool_step_ok in blast)

section \<open>Listeners\<close>

definition notified :: "('l \<Rightarrow> tx_hash \<Rightarrow> 'l \<times> send_outcome) \<Rightarrow> tx_hash \<Rightarrow> 'l list \<Rightarrow> 'l list" where
  "notified try_send h ls = map fst (filter (\<lambda>(l, r). r \<noteq> SendDisconnected) (map (\<lambda>l. try_send l h) ls))"

lemma notified_append [simp]: "notified f h (xs @ ys) = notified f h xs @ notified f h ys"
  by (simp add: notified_def)

lemma swap_remove_append:
  "swap_remove (length xs) (xs @ [x]) = xs"
  "swap_remove (length xs) (xs @ x # ys @ [y]) = xs @ y # ys"
  by (simp_all add: swap_remove_def butlast_append)

lemma mset_swap_remove_nth:
  assumes "n < length ls"
  shows "mset (drop n (swap_remove n ls)) + {#ls ! n#} = mset (drop n ls)" "take n (swap_remove n ls) = take n ls"
proof -
  obtain xs x ys where ls: "ls = xs @ x # ys" "length xs = n"
    using assms id_take_nth_drop [of n ls] by (metis length_take less_or_eq_imp_le min.absorb2)
  show "mset (drop n (swap_remove n ls)) + {#ls ! n#} = mset (drop n ls)" "take n (swap_remove n ls) = take n ls"
    unfolding ls(1) ls(2) [symmetric] by (cases ys rule: rev_cases; simp add: swap_remove_append)+
qed

lemma mset_notify_loop:
  "n \<le> length ls \<Longrightarrow> mset (notify_loop f h n ls) = mset (notified f h (take n ls)) + mset (drop n ls)"
proof (induction n arbitrary: ls)
  case 0
  then show ?case by (simp add: notified_def)
next
  case (Suc n)
  let ?ls = "swap_remove n ls"
  have n: "n < length ls" "n \<le> length ?ls" using Suc.prems by (auto simp: swap_remove_def)
  note sr = mset_swap_remove_nth [OF n(1)]
  have take: "take (Suc n) ls = take n ls @ [ls ! n]" using n(1) by (rule take_Suc_conv_app_nth)
  have drop: "mset (drop n ?ls) = mset (drop (Suc n) ls)"
    using sr(1) Cons_nth_drop_Suc [OF n(1)] by (metis add_mset_add_single add_right_cancel mset.simps(2))
  obtain l r where lr: "f (ls ! n) h = (l, r)" by (meson surj_pair)
  show ?case using Suc.IH [of ?ls] Suc.IH [of "?ls @ [l]"] n(2) sr(2) drop lr
    by (cases r) (simp_all add: take notified_def Let_def)
qed

end
