(* ===== verification/Pool_Properties.thy ===== *)
theory Pool_Properties
  imports Pool_Invariant
begin

text \<open>
  What the pool promises its clients, with an instance of each property on concrete transactions.
\<close>

section \<open>Sample transactions\<close>

definition sample_legacy :: "u64 \<Rightarrow> u128 \<Rightarrow> typed_transaction" where
  "sample_legacy n price = Legacy \<lparr>
     sg_tx = \<lparr> legacy_chain_id = Some 1, legacy_nonce = n, legacy_gas_price = price, legacy_gas_limit = 21000,
               legacy_to = Call 7, legacy_value = 5, legacy_input = [] \<rparr>,
     sg_signature = impersonated_signature, sg_hash = 0 \<rparr>"

text \<open>Transaction \<open>n\<close> of account 1, with the markers of the RPC handlers.\<close>

definition sample_tx :: "u64 \<Rightarrow> u128 \<Rightarrow> tx_hash \<Rightarrow> pool_transaction" where
  "sample_tx n price h =
     \<lparr> pt_pending_transaction =
         \<lparr> pe_transaction = mi_new (sample_legacy n price), pe_sender = 1, pe_hash = h \<rparr>,
       pt_requires = (if n = 0 then [] else [to_marker (n - 1) 1]),
       pt_provides = [to_marker n 1],
       pt_priority = price \<rparr>"

lemma sample_tx_sel [simp]:
  "pt_hash (sample_tx n price h) = h" "pt_provides (sample_tx n price h) = [to_marker n 1]"
  "pt_requires (sample_tx n price h) = (if n = 0 then [] else [to_marker (n - 1) 1])"
  by (simp_all add: sample_tx_def pt_hash_def)

lemma ptx_wf_sample [simp]: "ptx_wf (sample_tx n price h)"
  by (simp add: ptx_wf_def)

section \<open>Safety of every run\<close>

text \<open>
  C1. Whatever sequence of imports, mined blocks, prunings, removals and clearings is run from the empty
  pool, no \<^verbatim>\<open>assert!\<close>, \<^verbatim>\<open>assert_eq!\<close> or \<^verbatim>\<open>expect\<close> of the pool fires, every loop ends, and the invariant holds
  at the end: the marker indices are exact, no hash is both ready and waiting, and nothing waits for a
  marker that a ready transaction provides.
\<close>

theorem pool_runs_safe:
  assumes "orders_ok ord" and "list_all pool_op_ok ops"
  shows "\<exists>s. run_ops (pool_step ord) pool_inner_default ops = Some s \<and> pool_inv s"
proof -
  have "list_all (\<lambda>x. orders_ok ord \<and> pool_op_ok x) ops" using assms by (simp add: list_all_iff)
  then show ?thesis by (rule pool_sys.run_ok [OF pool_inv_default])
qed

theorem pool_runs_safe_witness:
  "orders_ok sorted_orders \<and>
   list_all pool_op_ok [OpAdd 0 (sample_tx 1 10 100), OpAdd 1 (sample_tx 0 10 101), OpDrop 101] \<and>
   (\<exists>s. run_ops (pool_step sorted_orders) pool_inner_default
      [OpAdd 0 (sample_tx 1 10 100), OpAdd 1 (sample_tx 0 10 101), OpDrop 101] = Some s \<and> pool_inv s)"
  using pool_runs_safe [OF orders_ok_sorted, of "[OpAdd 0 (sample_tx 1 10 100), OpAdd 1 (sample_tx 0 10 101), OpDrop 101]"]
  by (simp add: orders_ok_sorted)

section \<open>Importing a transaction\<close>

definition import_contract :: "pool_inner \<Rightarrow> pool_transaction \<Rightarrow> pool_inner \<Rightarrow> (pool_error, added_transaction) result \<Rightarrow> bool" where
  "import_contract s tx s' res \<longleftrightarrow>
     (case res of
        Inl e \<Rightarrow> e = CyclicTransaction \<or> s' = s
      | Inr (AddedPending h) \<Rightarrow> h = pt_hash tx \<and> pool_hashes s' = insert h (pool_hashes s)
      | Inr (AddedReady rep) \<Rightarrow>
          ra_hash rep = pt_hash tx \<and> ready_contains (pi_ready s') (pt_hash tx) \<and>
          pool_hashes s \<subseteq> pool_hashes s' \<union> pt_hash ` set (ra_removed rep) \<union> set (ra_discarded rep) \<and>
          pool_hashes s' \<subseteq> insert (pt_hash tx) (pool_hashes s))"

lemma import_contractI:
  assumes ord: "orders_ok ord" and inv: "pool_inv s" and wf: "ptx_wf tx"
  shows "\<exists>s' res. inner_add_transaction ord now s tx = Some (s', res) \<and> pool_inv s' \<and> import_contract s tx s' res \<and>
    (\<forall>added. res = Inr added \<longrightarrow> get_transaction s' (pt_hash tx) = Some (pt_pending_transaction tx))"
proof -
  from inner_add_spec [OF ord inv wf, of now] obtain s' res where
    add: "inner_add_transaction ord now s tx = Some (s', res)" "pool_inv s'"
    and cs: "case res of
         Inl e \<Rightarrow> e = CyclicTransaction \<or> s' = s
       | Inr (AddedPending h) \<Rightarrow>
           h = pt_hash tx \<and> pi_ready s' = pi_ready s \<and> pt_hash tx \<notin> pool_hashes s \<and>
           waiting_queue (pi_pending s') = fmupd (pt_hash tx)
             (ppt_new now tx (rd_provided_markers (pi_ready s))) (waiting_queue (pi_pending s))
       | Inr (AddedReady rep) \<Rightarrow>
           accounts (ready_hashes s) (waiting_hashes s) {pt_hash tx} (ready_report_new (pt_hash tx))
             (ready_hashes s') (waiting_hashes s') rep \<and>
           (\<exists>i. skel (rd_ready_tx (pi_ready s')) (pt_hash tx) = Some \<lparr> ptr_transaction = tx, ptr_id = i \<rparr>)" by blast
  consider (err) e where "res = Inl e" | (pend) h where "res = Inr (AddedPending h)" | (rdy) rep where "res = Inr (AddedReady rep)"
    by (metis added_transaction.exhaust sum.exhaust)
  then show ?thesis
  proof cases
    case err
    then show ?thesis using add cs by (simp add: import_contract_def)
  next
    case (pend h)
    then have "pool_hashes s' = insert h (pool_hashes s)" using cs by (auto simp: pool_hashes_Un)
    then show ?thesis using add cs pend by (simp add: import_contract_def get_transaction_def pending_get_def)
  next
    case (rdy rep)
    then have acc: "accounts (ready_hashes s) (waiting_hashes s) {pt_hash tx} (ready_report_new (pt_hash tx))
        (ready_hashes s') (waiting_hashes s') rep" using cs by simp
    from rdy cs obtain rt where rt: "fmlookup (rd_ready_tx (pi_ready s')) (pt_hash tx) = Some rt" "rt_tx rt = tx"
      by (auto dest!: skel_SomeD)
    then have "fmlookup (waiting_queue (pi_pending s')) (pt_hash tx) = None"
      using pool_invD(3) [OF add(2)] by auto
    then have "get_transaction s' (pt_hash tx) = Some (pt_pending_transaction tx)"
      using rt by (simp add: get_transaction_def pending_get_def ready_get_def)
    moreover have "import_contract s tx s' res"
      using acc rt rdy unfolding accounts_def import_contract_def pool_hashes_Un
      by (auto simp: ready_report_new_def ready_contains_def)
    ultimately show ?thesis using add by blast
  qed
qed

text \<open>
  C4. Importing a transaction always returns, and accounts for every transaction of the pool: after a
  successful import of a ready transaction it is in the ready half, and each transaction that was in
  the pool still is, or is reported as removed or discarded; an import into the waiting half only adds
  it; and a failed import leaves the pool exactly as it was, unless the error is \<^verbatim>\<open>CyclicTransaction\<close>.
\<close>

theorem import_accounts:
  assumes "orders_ok ord" and "pool_inv s" and "ptx_wf tx"
  shows "\<exists>s' res. inner_add_transaction ord now s tx = Some (s', res) \<and> pool_inv s' \<and> import_contract s tx s' res"
  using import_contractI [OF assms] by blast

theorem import_accounts_witness:
  "orders_ok sorted_orders \<and> pool_inv pool_inner_default \<and> ptx_wf (sample_tx 0 10 100) \<and>
   (\<exists>s' res. inner_add_transaction sorted_orders 0 pool_inner_default (sample_tx 0 10 100) = Some (s', res) \<and>
      pool_inv s' \<and> import_contract pool_inner_default (sample_tx 0 10 100) s' res)"
  using import_accounts [OF orders_ok_sorted pool_inv_default ptx_wf_sample] orders_ok_sorted pool_inv_default
  by simp

text \<open>
  Insert and lookup: after a successful import, \<^verbatim>\<open>get_transaction\<close> finds the imported transaction under
  its hash, whichever half it went to.
\<close>

theorem import_lookup:
  assumes "orders_ok ord" and "pool_inv s" and "ptx_wf tx"
    and "inner_add_transaction ord now s tx = Some (s', Inr added)"
  shows "get_transaction s' (pt_hash tx) = Some (pt_pending_transaction tx)"
  using import_contractI [OF assms(1-3), of now] assms(4) by auto

lemma import_sample_pending:
  "\<exists>s'. inner_add_transaction sorted_orders 0 pool_inner_default (sample_tx 1 10 100) = Some (s', Inr (AddedPending 100))"
  by (simp add: inner_add_transaction_def pool_contains_def pending_contains_def ready_contains_def
      pool_inner_default_def pending_default_def ready_default_def ppt_new_def ppt_is_ready_def
      pending_add_transaction_def)

theorem import_lookup_witness:
  "\<exists>s'. inner_add_transaction sorted_orders 0 pool_inner_default (sample_tx 1 10 100) = Some (s', Inr (AddedPending 100)) \<and>
     get_transaction s' 100 = Some (pt_pending_transaction (sample_tx 1 10 100))"
proof -
  obtain s' where s': "inner_add_transaction sorted_orders 0 pool_inner_default (sample_tx 1 10 100) = Some (s', Inr (AddedPending 100))"
    using import_sample_pending by blast
  from import_lookup [OF orders_ok_sorted pool_inv_default ptx_wf_sample this] s' show ?thesis by auto
qed

section \<open>Removing\<close>

text \<open>
  C9. \<^verbatim>\<open>remove_invalid\<close> takes every given hash out of both halves and returns every transaction that left,
  the dependents of the removed ones included.
\<close>

theorem remove_invalid_complete:
  assumes "pool_inv s" and "orders_ok ord"
  shows "case remove_invalid ord hs s of (s', removed) \<Rightarrow>
    pool_inv s' \<and> (\<forall>h. pool_contains s' h \<longrightarrow> pool_contains s h \<and> h \<notin> set hs) \<and>
    (\<forall>h. pool_contains s h \<and> \<not> pool_contains s' h \<longrightarrow> (\<exists>tx\<in>set removed. pt_hash tx = h))"
proof -
  obtain s' removed where rm: "remove_invalid ord hs s = (s', removed)" by (meson surj_pair)
  from remove_invalid_spec [OF assms rm] show ?thesis
    unfolding rm pool_hashes_def by (auto simp: subset_iff image_iff)
qed

lemma sample_pool:
  obtains s where "inner_add_transaction sorted_orders 0 pool_inner_default (sample_tx 1 10 100) = Some (s, Inr (AddedPending 100))"
    "pool_inv s" "pool_contains s 100"
proof -
  obtain s where s: "inner_add_transaction sorted_orders 0 pool_inner_default (sample_tx 1 10 100) = Some (s, Inr (AddedPending 100))"
    using import_sample_pending by blast
  moreover have "pool_inv s" "pool_contains s 100"
    using import_contractI [OF orders_ok_sorted pool_inv_default ptx_wf_sample, of 0 1 10 100] s
    by (auto simp: import_contract_def pool_hashes_def)
  ultimately show ?thesis using that by blast
qed

theorem remove_invalid_complete_witness:
  "\<exists>s. pool_inv s \<and> orders_ok sorted_orders \<and> pool_contains s 100 \<and>
   (case remove_invalid sorted_orders [100] s of (s', removed) \<Rightarrow>
    pool_inv s' \<and> (\<forall>h. pool_contains s' h \<longrightarrow> pool_contains s h \<and> h \<notin> set [100]) \<and>
    (\<forall>h. pool_contains s h \<and> \<not> pool_contains s' h \<longrightarrow> (\<exists>tx\<in>set removed. pt_hash tx = h)))"
proof -
  obtain s where s: "pool_inv s" "pool_contains s 100" by (rule sample_pool)
  show ?thesis
    by (intro exI [of _ s] conjI s orders_ok_sorted remove_invalid_complete [OF s(1) orders_ok_sorted])
qed

section \<open>Waiting transactions\<close>

text \<open>
  C10. \<^verbatim>\<open>mark_and_unlock\<close> refines its abstract meaning: the given markers are struck from every waiting
  transaction, those with none left leave the queue and are returned, each once, and the index stays
  exact. In particular the \<^verbatim>\<open>expect("tx is included;")\<close> calls never fail.
\<close>

theorem mark_and_unlock_refinement:
  assumes "iter_ok it" and "pending_inv s"
  shows "\<exists>s' us. mark_and_unlock it ms s = Some (s', us) \<and> pending_inv s' \<and>
    fmlookup (waiting_queue s') = (\<lambda>h. Option.bind (fmlookup (waiting_queue s) h) (strike_wait (fset_of_list ms))) \<and>
    distinct (map ppt_hash us) \<and> set us = unlocked_by (fset_of_list ms) s"
  using mark_and_unlock_refines [OF assms, of ms] by (auto simp: fun_eq_iff)

theorem mark_and_unlock_refinement_witness:
  "\<exists>p. pool_inv p \<and> pool_contains p 100 \<and> iter_ok (sorted_list_of_fset :: tx_hash iter_order) \<and> pending_inv (pi_pending p) \<and>
   (\<exists>s' us. mark_and_unlock sorted_list_of_fset [to_marker 0 1] (pi_pending p) = Some (s', us) \<and> pending_inv s' \<and>
    fmlookup (waiting_queue s') =
      (\<lambda>h. Option.bind (fmlookup (waiting_queue (pi_pending p)) h) (strike_wait (fset_of_list [to_marker 0 1]))) \<and>
    distinct (map ppt_hash us) \<and> set us = unlocked_by (fset_of_list [to_marker 0 1]) (pi_pending p))"
proof -
  obtain p where p: "pool_inv p" "pool_contains p 100" by (rule sample_pool)
  show ?thesis
    by (intro exI [of _ p] conjI p iter_ok_sorted pool_invD(2) [OF p(1)]
        mark_and_unlock_refinement [OF iter_ok_sorted pool_invD(2) [OF p(1)]])
qed

section \<open>Ready transactions\<close>

text \<open>A ready half with transaction 0 of account 1 (hash 10), which unlocks transaction 1 (hash 11).\<close>

definition sample_ready :: ready_transactions where
  "sample_ready =
     \<lparr> rd_id = 2,
       rd_provided_markers = fmupd (to_marker 1 1) 11 (fmupd (to_marker 0 1) 10 fmempty),
       rd_ready_tx =
         fmupd 11 \<lparr> rt_transaction = \<lparr> ptr_transaction = sample_tx 1 5 11, ptr_id = 1 \<rparr>, rt_unlocks = [], rt_requires_offset = 0 \<rparr>
         (fmupd 10 \<lparr> rt_transaction = \<lparr> ptr_transaction = sample_tx 0 5 10, ptr_id = 0 \<rparr>, rt_unlocks = [11], rt_requires_offset = 0 \<rparr>
          fmempty),
       rd_independent = [\<lparr> ptr_transaction = sample_tx 0 5 10, ptr_id = 0 \<rparr>] \<rparr>"

lemma ready_inv_sample: "ready_inv sample_ready"
  by (auto simp: sample_ready_def ready_part_def split: if_splits)

text \<open>
  C17. Replacement. A ready transaction that is not outbid goes in and evicts every current provider of
  its markers; it is refused, with nothing changed, exactly when one of them provides the same markers
  at the same or a higher gas price.
\<close>

theorem ready_replacement:
  assumes "iter_ok it" and "ready_inv s" and "ptx_wf (ppt_transaction tx)" and "ppt_is_ready tx"
    and "\<not> ready_contains s (ppt_hash tx)"
  shows "if ready_outbid (ppt_transaction tx) s
    then ready_add_transaction it s tx = Some (s, Inl (ReplacementUnderpriced (ppt_transaction tx)))
    else \<exists>s' removed. ready_add_transaction it s tx = Some (s', Inr removed) \<and> ready_inv s' \<and>
      ready_contains s' (ppt_hash tx) \<and>
      (\<forall>h\<in>replaced_hashes (ppt_transaction tx) s. \<not> ready_contains s' h)"
proof -
  have new: "skel (rd_ready_tx s) (ppt_hash tx) = None" using assms(5) by (simp add: ready_contains_def)
  have ne: "h \<noteq> ppt_hash tx" if "h \<in> replaced_hashes (ppt_transaction tx) s" for h
    using that ready_partD(4) [OF assms(2)] new by (fastforce simp: replaced_hashes_def simp del: skel_None)
  show ?thesis
  proof (cases "ready_outbid (ppt_transaction tx) s")
    case False
    with ready_add_spec [OF assms(2,1,3) refl assms(4) new] obtain s' removed sk where
      "ready_add_transaction it s tx = Some (s', Inr removed)" "ready_inv s'"
      "\<forall>h\<in>replaced_hashes (ppt_transaction tx) s. sk h = None"
      and sk: "skel (rd_ready_tx s') =
        sk(ppt_hash tx \<mapsto> \<lparr> ptr_transaction = ppt_transaction tx, ptr_id = rd_id s \<rparr>)" by auto
    moreover from this ne have "\<forall>h\<in>replaced_hashes (ppt_transaction tx) s. skel (rd_ready_tx s') h = None" by simp
    moreover have "skel (rd_ready_tx s') (ppt_hash tx) \<noteq> None" by (simp add: sk del: skel_None)
    ultimately show ?thesis using False unfolding ready_contains_def skel_None by auto
  qed (use ready_add_spec [OF assms(2,1,3) refl assms(4) new] in simp)
qed

abbreviation sample_bid :: "u128 \<Rightarrow> pending_pool_transaction" where
  "sample_bid price \<equiv> \<lparr> ppt_transaction = sample_tx 0 price 12, ppt_missing_markers = {||}, ppt_added_at = 0 \<rparr>"

theorem ready_replacement_witness:
  "iter_ok (sorted_list_of_fset :: tx_hash iter_order) \<and> ready_inv sample_ready \<and>
   ready_outbid (sample_tx 0 5 12) sample_ready \<and>
   ready_add_transaction sorted_list_of_fset sample_ready (sample_bid 5) =
     Some (sample_ready, Inl (ReplacementUnderpriced (sample_tx 0 5 12)))"
proof -
  have "ready_outbid (sample_tx 0 5 12) sample_ready"
    by (auto simp: ready_outbid_def replaced_hashes_def sample_ready_def rt_provides_def rt_gas_price_def pt_gas_price_def
        sample_tx_def mi_new_def sample_legacy_def)
  moreover have "\<not> ready_contains sample_ready 12" by (simp add: ready_contains_def sample_ready_def)
  ultimately show ?thesis
    using ready_replacement [OF iter_ok_sorted ready_inv_sample, of "sample_bid 5"]
    by (simp add: ppt_is_ready_def iter_ok_sorted ready_inv_sample)
qed

text \<open>
  C18. Pruning a marker never trips the assertion on the provider index. Afterwards no ready transaction
  provides the marker, nothing was added, and whatever left the ready half is returned.
\<close>

theorem prune_tags_complete:
  assumes "ready_inv s"
  shows "\<exists>s' removed. prune_tags m s = Some (s', removed) \<and> ready_inv s' \<and>
    (\<forall>h rt. ready_get s' h = Some rt \<longrightarrow> m \<notin> set (rt_provides rt)) \<and>
    (\<forall>h. ready_contains s' h \<longrightarrow> ready_contains s h) \<and>
    (\<forall>h rt. ready_get s h = Some rt \<and> \<not> ready_contains s' h \<longrightarrow> rt_tx rt \<in> set removed)"
proof -
  obtain s' removed where p: "prune_tags m s = Some (s', removed)" "ready_inv s'"
    and sh: "shed (skel (rd_ready_tx s)) (skel (rd_ready_tx s')) removed"
    and none: "fmlookup (rd_provided_markers s') m = None"
    by (rule prune_tags_spec [OF assms])
  have "m \<notin> set (rt_provides rt)" if "ready_get s' h = Some rt" for h rt
    using that ready_partD(3) [OF p(2) skel_lookup] none by (fastforce simp: ready_get_def rt_provides_def)
  moreover have "ready_contains s h" if "ready_contains s' h" for h
    using that shedD(2) [OF sh, of h] unfolding ready_contains_def skel_None by metis
  moreover have "rt_tx rt \<in> set removed" if "ready_get s h = Some rt" "\<not> ready_contains s' h" for h rt
    using that shedD(4) [OF sh skel_lookup] by (simp add: ready_contains_def ready_get_def)
  ultimately show ?thesis using p by blast
qed

theorem prune_tags_complete_witness:
  "ready_inv sample_ready \<and>
   (\<exists>s' removed. prune_tags (to_marker 0 1) sample_ready = Some (s', removed) \<and> ready_inv s' \<and>
    (\<forall>h rt. ready_get s' h = Some rt \<longrightarrow> to_marker 0 1 \<notin> set (rt_provides rt)) \<and>
    (\<forall>h. ready_contains s' h \<longrightarrow> ready_contains sample_ready h) \<and>
    (\<forall>h rt. ready_get sample_ready h = Some rt \<and> \<not> ready_contains s' h \<longrightarrow> rt_tx rt \<in> set removed))"
  using prune_tags_complete [OF ready_inv_sample, of "to_marker 0 1"] ready_inv_sample by blast

text \<open>
  The iterator hands out the independent transaction of the highest priority (the oldest one of
  these), and \<^verbatim>\<open>take(n)\<close> yields at most \<open>n\<close> transactions, all of them in the ready half.
\<close>

theorem iterator_best_first:
  assumes "ready_inv s"
  shows "length (iter_take n (get_transactions s)) \<le> n \<and>
    (\<forall>tx\<in>set (iter_take n (get_transactions s)). \<exists>rt. ready_get s (pt_hash tx) = Some rt \<and> rt_tx rt = tx) \<and>
    (case iter_next (get_transactions s) of
       (i, None) \<Rightarrow> rd_independent s = []
     | (i, Some tx) \<Rightarrow> \<exists>r\<in>set (rd_independent s). tx = ptr_transaction r \<and>
         (\<forall>q\<in>set (rd_independent s). q = r \<or> ptr_lt q r))"
proof -
  let ?i = "get_transactions s"
  have inv: "iter_inv ?i" by (rule iter_inv_get_transactions [OF assms])
  have sel: "ti_all ?i = rd_ready_tx s" "ti_independent ?i = rd_independent s" by (simp_all add: get_transactions_def)
  have "\<exists>rt. ready_get s (pt_hash tx) = Some rt \<and> rt_tx rt = tx" if "tx \<in> set (iter_take n ?i)" for tx
    using iter_take_members [OF inv, of n] that by (auto simp: sel ready_get_def dest!: skel_SomeD)
  moreover have "case iter_next ?i of
       (i, None) \<Rightarrow> rd_independent s = []
     | (i, Some tx) \<Rightarrow> \<exists>r\<in>set (rd_independent s). tx = ptr_transaction r \<and>
         (\<forall>q\<in>set (rd_independent s). q = r \<or> ptr_lt q r)"
  proof (cases "rd_independent s = []")
    case True
    then show ?thesis using iter_next_empty [of ?i] by (simp add: sel)
  next
    case False
    then show ?thesis using iter_next_spec [OF inv]
      by (auto simp: sel intro!: bexI [of _ "last (rd_independent s)"])
  qed
  ultimately show ?thesis using iter_take_length by blast
qed

theorem iterator_best_first_witness:
  "ready_inv sample_ready \<and>
   (case iter_next (get_transactions sample_ready) of
      (i, None) \<Rightarrow> False
    | (i, Some tx) \<Rightarrow> tx = sample_tx 0 5 10)"
  using iterator_best_first [OF ready_inv_sample, of 1] ready_inv_sample
  by (auto simp: sample_ready_def split: prod.splits option.splits)

text \<open>
  \<^verbatim>\<open>remove_with_markers\<close> never updates the links of the transactions it leaves in the pool: each
  survivor keeps its whole \<^verbatim>\<open>unlocks\<close> list, the hashes of the removed transactions included. (The loop
  marked "remove from unlocks" compares the provider's hash with the entries of its own list; the
  hypothesis says that no transaction unlocks itself.)
\<close>

theorem remove_keeps_stale_unlocks:
  assumes "no_self_unlock (rd_ready_tx s)"
    and "ready_get (fst (remove_with_markers hs f s)) h = Some rt"
  shows "ready_get s h = Some rt"
  using remove_with_markers_survivors [OF assms(1), of hs f] assms(2)
  unfolding ready_get_def by (metis prod.collapse)

theorem remove_keeps_stale_unlocks_witness:
  "no_self_unlock (rd_ready_tx sample_ready) \<and>
   \<not> ready_contains (fst (remove_with_markers [11] None sample_ready)) 11 \<and>
   map_option rt_unlocks (ready_get (fst (remove_with_markers [11] None sample_ready)) 10) = Some [11]"
proof -
  have ns: "no_self_unlock (rd_ready_tx sample_ready)" by (auto simp: no_self_unlock_def sample_ready_def split: if_splits)
  have lk: "\<exists>rt. ready_get (fst (remove_with_markers [11] None sample_ready)) 10 = Some rt"
    and no: "\<not> ready_contains (fst (remove_with_markers [11] None sample_ready)) 11"
    by (simp_all add: remove_with_markers_snoc [where hs = "[]", simplified] sample_ready_def remove_one_def Let_def
        unlink_marker_def invalidated_by_def ready_get_def ready_contains_def)
  then obtain rt where rt: "ready_get (fst (remove_with_markers [11] None sample_ready)) 10 = Some rt" by blast
  from remove_keeps_stale_unlocks [OF ns rt] have "rt_unlocks rt = [11]" by (auto simp: ready_get_def sample_ready_def)
  then show ?thesis using ns rt no by simp
qed

section \<open>Listeners\<close>

text \<open>
  \<^verbatim>\<open>notify_listener\<close> offers the hash to every listener exactly once, in spite of the reordering by
  \<^verbatim>\<open>swap_remove\<close>, and keeps exactly the listeners whose channel is not closed (a full channel is kept).
\<close>

theorem notify_listener_once:
  "mset (notify_listener try_send h ls) = mset (notified try_send h ls)"
  using mset_notify_loop [of "length ls" ls try_send h] by (simp add: notify_listener_def)

end
