(* ===== verification/Tx_Convert.thy ===== *)
theory Tx_Convert
  imports Eth_Tx
begin

text \<open>
  Conversions of transactions and receipts (\<^verbatim>\<open>crates/anvil/core/src/eth/transaction/mod.rs\<close>): from an RPC
  request to a typed request, from a typed transaction to its RPC form and to the environment of the EVM,
  and the typed receipts.

  JSON fields outside the known ones (\<^verbatim>\<open>OtherFields\<close>) are modelled by what \<^verbatim>\<open>get_deserialized\<close> returns: absent,
  not deserializable, or a value.
\<close>

section \<open>Requests\<close>

datatype 'a json_field = Absent | Malformed | Value 'a

fun json_ok :: "'a json_field \<Rightarrow> 'a option" where
  "json_ok (Value v) = Some v"
| "json_ok _ = None"

definition contains_key :: "'a json_field \<Rightarrow> bool" where
  "contains_key f = (case f of Absent \<Rightarrow> False | _ \<Rightarrow> True)"

record other_fields =
  of_source_hash :: "b256 json_field"
  of_mint :: "u256 json_field"
  of_is_system_tx :: "bool json_field"

type_synonym sidecar = "u8 list"

record transaction_request =
  rq_from :: "address option"
  rq_to :: "tx_kind option"
  rq_gas_price :: "u128 option"
  rq_max_fee_per_gas :: "u128 option"
  rq_max_priority_fee_per_gas :: "u128 option"
  rq_max_fee_per_blob_gas :: "u128 option"
  rq_blob_versioned_hashes :: "b256 list option"
  rq_gas :: "u128 option"
  rq_value :: "u256 option"
  rq_input :: "u8 list option"
  rq_nonce :: "u64 option"
  rq_access_list :: "access_list option"
  rq_sidecar :: "sidecar option"
  rq_transaction_type :: "u8 option"
  rq_other :: other_fields

record deposit_transaction_request =
  dr_source_hash :: b256
  dr_from :: address
  dr_kind :: tx_kind
  dr_mint :: u256
  dr_value :: u256
  dr_gas_limit :: u128
  dr_is_system_tx :: bool
  dr_input :: "u8 list"

datatype typed_transaction_request =
    LegacyRequest tx_legacy
  | EIP2930Request tx_eip2930
  | EIP1559Request tx_eip1559
  | EIP4844Request tx_eip4844 sidecar
  | DepositRequest deposit_transaction_request

definition has_optimism_fields :: "other_fields \<Rightarrow> bool" where
  "has_optimism_fields o' \<longleftrightarrow>
     contains_key (of_source_hash o') \<and> contains_key (of_mint o') \<and> contains_key (of_is_system_tx o')"

text \<open>The rows of the \<^verbatim>\<open>match\<close>, in order.\<close>

definition legacy_row :: "transaction_request \<Rightarrow> bool" where
  "legacy_row r \<longleftrightarrow>
     (rq_transaction_type r = Some 0 \<or> rq_transaction_type r = None \<and> rq_gas_price r \<noteq> None) \<and>
     rq_max_fee_per_gas r = None \<and> rq_max_priority_fee_per_gas r = None \<and> rq_access_list r = None \<and>
     rq_max_fee_per_blob_gas r = None \<and> rq_blob_versioned_hashes r = None \<and> rq_sidecar r = None"

definition eip2930_row :: "transaction_request \<Rightarrow> bool" where
  "eip2930_row r \<longleftrightarrow>
     (rq_transaction_type r = Some 1 \<or> rq_transaction_type r = None \<and> rq_access_list r \<noteq> None) \<and>
     rq_max_fee_per_gas r = None \<and> rq_max_priority_fee_per_gas r = None \<and>
     rq_max_fee_per_blob_gas r = None \<and> rq_blob_versioned_hashes r = None \<and> rq_sidecar r = None"

definition eip1559_row :: "transaction_request \<Rightarrow> bool" where
  "eip1559_row r \<longleftrightarrow>
     (rq_transaction_type r = Some 2 \<or>
      rq_transaction_type r = None \<and> rq_max_fee_per_gas r \<noteq> None \<or>
      rq_transaction_type r = None \<and> rq_max_priority_fee_per_gas r \<noteq> None \<or>
      rq_transaction_type r = None \<and> rq_max_fee_per_gas r = None \<and> rq_max_priority_fee_per_gas r = None \<and>
        rq_access_list r = None) \<and>
     rq_gas_price r = None \<and> rq_blob_versioned_hashes r = None \<and> rq_sidecar r = None"

definition eip4844_row :: "transaction_request \<Rightarrow> bool" where
  "eip4844_row r \<longleftrightarrow>
     rq_transaction_type r = Some 3 \<and> rq_gas_price r = None \<and> rq_max_fee_per_blob_gas r \<noteq> None \<and>
     rq_blob_versioned_hashes r \<noteq> None \<and> rq_sidecar r \<noteq> None"

text \<open>\<^verbatim>\<open>TxKind::default()\<close> is \<^verbatim>\<open>Create\<close>.\<close>

definition transaction_request_to_typed :: "transaction_request \<Rightarrow> typed_transaction_request option" where
  "transaction_request_to_typed r =
     (let nonce = unwrap_or (rq_nonce r) 0; gas = unwrap_or (rq_gas r) 0; v = unwrap_or (rq_value r) 0;
          input = unwrap_or (rq_input r) []; to' = unwrap_or (rq_to r) Create;
          access = unwrap_or (rq_access_list r) []
      in if rq_transaction_type r = Some 0x7E \<or> has_optimism_fields (rq_other r)
         then (case (json_ok (of_source_hash (rq_other r)), json_ok (of_mint (rq_other r)),
                     json_ok (of_is_system_tx (rq_other r))) of
                 (Some source_hash, Some mint, Some is_system_tx) \<Rightarrow>
                   Some (DepositRequest
                     \<lparr> dr_source_hash = source_hash, dr_from = unwrap_or (rq_from r) 0, dr_kind = to',
                       dr_mint = mint, dr_value = v, dr_gas_limit = gas, dr_is_system_tx = is_system_tx,
                       dr_input = input \<rparr>)
               | _ \<Rightarrow> None)
         else if legacy_row r
         then Some (LegacyRequest
                \<lparr> legacy_chain_id = None, legacy_nonce = nonce, legacy_gas_price = unwrap_or (rq_gas_price r) 0,
                  legacy_gas_limit = gas, legacy_to = to', legacy_value = v, legacy_input = input \<rparr>)
         else if eip2930_row r
         then Some (EIP2930Request
                \<lparr> e2930_chain_id = 0, e2930_nonce = nonce, e2930_gas_price = unwrap_or (rq_gas_price r) 0,
                  e2930_gas_limit = gas, e2930_to = to', e2930_value = v, e2930_access_list = access,
                  e2930_input = input \<rparr>)
         else if eip1559_row r
         then Some (EIP1559Request
                \<lparr> e1559_chain_id = 0, e1559_nonce = nonce, e1559_gas_limit = gas,
                  e1559_max_fee_per_gas = unwrap_or (rq_max_fee_per_gas r) 0,
                  e1559_max_priority_fee_per_gas = unwrap_or (rq_max_priority_fee_per_gas r) 0,
                  e1559_to = to', e1559_value = v, e1559_access_list = access, e1559_input = input \<rparr>)
         else if eip4844_row r
         then Some (EIP4844Request
                \<lparr> e4844_chain_id = 0, e4844_nonce = nonce, e4844_gas_limit = gas,
                  e4844_max_fee_per_gas = unwrap_or (rq_max_fee_per_gas r) 0,
                  e4844_max_priority_fee_per_gas = unwrap_or (rq_max_priority_fee_per_gas r) 0,
                  e4844_to = (case to' of Call a \<Rightarrow> a | Create \<Rightarrow> 0), e4844_value = v,
                  e4844_access_list = access,
                  e4844_blob_versioned_hashes = unwrap_or (rq_blob_versioned_hashes r) [],
                  e4844_max_fee_per_blob_gas = unwrap_or (rq_max_fee_per_blob_gas r) 0,
                  e4844_input = input \<rparr> (unwrap_or (rq_sidecar r) []))
         else None)"

section \<open>RPC transactions\<close>

text \<open>\<open>y_parity\<close> is that function of the signature's \<^verbatim>\<open>v\<close>; \<^verbatim>\<open>y_parity_byte\<close> is 1 or 0 accordingly.\<close>

record rpc_signature =
  rs_r :: u256
  rs_s :: u256
  rs_v :: u256
  rs_y_parity :: "bool option"

record rpc_transaction =
  rpc_hash :: b256
  rpc_nonce :: u64
  rpc_block_hash :: "b256 option"
  rpc_block_number :: "u64 option"
  rpc_transaction_index :: "u64 option"
  rpc_from :: address
  rpc_to :: "address option"
  rpc_value :: u256
  rpc_gas_price :: "u128 option"
  rpc_max_fee_per_gas :: "u128 option"
  rpc_max_priority_fee_per_gas :: "u128 option"
  rpc_gas :: u128
  rpc_input :: "u8 list"
  rpc_chain_id :: "u64 option"
  rpc_sig :: "rpc_signature option"
  rpc_access_list :: "access_list option"
  rpc_transaction_type :: "u8 option"
  rpc_max_fee_per_blob_gas :: "u128 option"
  rpc_blob_versioned_hashes :: "b256 list option"

definition rpc_signature_of :: "(parity \<Rightarrow> bool) \<Rightarrow> bool \<Rightarrow> signature \<Rightarrow> rpc_signature" where
  "rpc_signature_of y_parity typed s =
     \<lparr> rs_r = sig_r s, rs_s = sig_s s, rs_v = (if y_parity (sig_v s) then 1 else 0),
       rs_y_parity = (if typed then Some (y_parity (sig_v s)) else None) \<rparr>"

fun to_alloy_transaction_with_hash_and_sender ::
  "(parity \<Rightarrow> bool) \<Rightarrow> typed_transaction \<Rightarrow> b256 \<Rightarrow> address \<Rightarrow> rpc_transaction" where
  "to_alloy_transaction_with_hash_and_sender yp (Legacy s) hash from = (let t = sg_tx s in
     \<lparr> rpc_hash = hash, rpc_nonce = legacy_nonce t, rpc_block_hash = None, rpc_block_number = None,
       rpc_transaction_index = None, rpc_from = from, rpc_to = None, rpc_value = legacy_value t,
       rpc_gas_price = Some (legacy_gas_price t), rpc_max_fee_per_gas = Some (legacy_gas_price t),
       rpc_max_priority_fee_per_gas = Some (legacy_gas_price t), rpc_gas = legacy_gas_limit t,
       rpc_input = legacy_input t, rpc_chain_id = legacy_chain_id t,
       rpc_sig = Some (rpc_signature_of yp False (sg_signature s)), rpc_access_list = None,
       rpc_transaction_type = None, rpc_max_fee_per_blob_gas = None, rpc_blob_versioned_hashes = None \<rparr>)"
| "to_alloy_transaction_with_hash_and_sender yp (EIP2930 s) hash from = (let t = sg_tx s in
     \<lparr> rpc_hash = hash, rpc_nonce = e2930_nonce t, rpc_block_hash = None, rpc_block_number = None,
       rpc_transaction_index = None, rpc_from = from, rpc_to = None, rpc_value = e2930_value t,
       rpc_gas_price = Some (e2930_gas_price t), rpc_max_fee_per_gas = Some (e2930_gas_price t),
       rpc_max_priority_fee_per_gas = Some (e2930_gas_price t), rpc_gas = e2930_gas_limit t,
       rpc_input = e2930_input t, rpc_chain_id = Some (e2930_chain_id t),
       rpc_sig = Some (rpc_signature_of yp True (sg_signature s)), rpc_access_list = Some (e2930_access_list t),
       rpc_transaction_type = Some 1, rpc_max_fee_per_blob_gas = None, rpc_blob_versioned_hashes = None \<rparr>)"
| "to_alloy_transaction_with_hash_and_sender yp (EIP1559 s) hash from = (let t = sg_tx s in
     \<lparr> rpc_hash = hash, rpc_nonce = e1559_nonce t, rpc_block_hash = None, rpc_block_number = None,
       rpc_transaction_index = None, rpc_from = from, rpc_to = None, rpc_value = e1559_value t,
       rpc_gas_price = None, rpc_max_fee_per_gas = Some (e1559_max_fee_per_gas t),
       rpc_max_priority_fee_per_gas = Some (e1559_max_priority_fee_per_gas t), rpc_gas = e1559_gas_limit t,
       rpc_input = e1559_input t, rpc_chain_id = Some (e1559_chain_id t),
       rpc_sig = Some (rpc_signature_of yp True (sg_signature s)), rpc_access_list = Some (e1559_access_list t),
       rpc_transaction_type = Some 2, rpc_max_fee_per_blob_gas = None, rpc_blob_versioned_hashes = None \<rparr>)"
| "to_alloy_transaction_with_hash_and_sender yp (EIP4844 s) hash from = (let t = sg_tx s in
     \<lparr> rpc_hash = hash, rpc_nonce = e4844_nonce t, rpc_block_hash = None, rpc_block_number = None,
       rpc_transaction_index = None, rpc_from = from, rpc_to = None, rpc_value = e4844_value t,
       rpc_gas_price = Some (e4844_max_fee_per_gas t), rpc_max_fee_per_gas = Some (e4844_max_fee_per_gas t),
       rpc_max_priority_fee_per_gas = Some (e4844_max_priority_fee_per_gas t), rpc_gas = e4844_gas_limit t,
       rpc_input = e4844_input t, rpc_chain_id = Some (e4844_chain_id t),
       rpc_sig = Some (rpc_signature_of yp True (sg_signature s)), rpc_access_list = Some (e4844_access_list t),
       rpc_transaction_type = Some 3, rpc_max_fee_per_blob_gas = Some (e4844_max_fee_per_blob_gas t),
       rpc_blob_versioned_hashes = Some (e4844_blob_versioned_hashes t) \<rparr>)"
| "to_alloy_transaction_with_hash_and_sender yp (Deposit t) hash from =
     \<lparr> rpc_hash = hash, rpc_nonce = dep_nonce t, rpc_block_hash = None, rpc_block_number = None,
       rpc_transaction_index = None, rpc_from = from, rpc_to = None, rpc_value = dep_value t,
       rpc_gas_price = None, rpc_max_fee_per_gas = None, rpc_max_priority_fee_per_gas = None,
       rpc_gas = dep_gas_limit t, rpc_input = dep_input t, rpc_chain_id = deposit_chain_id t,
       rpc_sig = None, rpc_access_list = None, rpc_transaction_type = None,
       rpc_max_fee_per_blob_gas = None, rpc_blob_versioned_hashes = None \<rparr>"

section \<open>The environment of the EVM\<close>

record tx_env =
  te_caller :: address
  te_transact_to :: tx_kind
  te_data :: "u8 list"
  te_chain_id :: "u64 option"
  te_nonce :: "u64 option"
  te_value :: u256
  te_gas_price :: u256
  te_gas_priority_fee :: "u256 option"
  te_gas_limit :: u64
  te_access_list :: access_list
  te_max_fee_per_blob_gas :: "u256 option"
  te_blob_hashes :: "b256 list"
  te_source_hash :: "b256 option"
  te_mint :: "u128 option"
  te_is_system_transaction :: "bool option"

text \<open>
  \<open>None\<close> is the panic of \<^verbatim>\<open>mint.to::<u128>()\<close>; \<^verbatim>\<open>as u64\<close> truncates. The storage keys of the flattened access
  list are the words themselves.
\<close>

definition plain_env :: "address \<Rightarrow> tx_kind \<Rightarrow> u8 list \<Rightarrow> u64 option \<Rightarrow> u64 \<Rightarrow> u256 \<Rightarrow> u256 \<Rightarrow> u256 option \<Rightarrow> u64 \<Rightarrow> access_list \<Rightarrow> tx_env" where
  "plain_env caller to' data chain nonce v price priority gas access =
     \<lparr> te_caller = caller, te_transact_to = to', te_data = data, te_chain_id = chain, te_nonce = Some nonce,
       te_value = v, te_gas_price = price, te_gas_priority_fee = priority, te_gas_limit = gas,
       te_access_list = access, te_max_fee_per_blob_gas = None, te_blob_hashes = [], te_source_hash = None,
       te_mint = None, te_is_system_transaction = None \<rparr>"

definition to_revm_tx_env :: "pending_transaction \<Rightarrow> tx_env option" where
  "to_revm_tx_env p =
     (let caller = pe_sender p in
      case mi_transaction (pe_transaction p) of
        Legacy s \<Rightarrow> let t = sg_tx s in
          Some (plain_env caller (legacy_to t) (legacy_input t) (legacy_chain_id t) (legacy_nonce t) (legacy_value t)
            (ucast (legacy_gas_price t)) None (ucast (legacy_gas_limit t)) [])
      | EIP2930 s \<Rightarrow> let t = sg_tx s in
          Some (plain_env caller (e2930_to t) (e2930_input t) (Some (e2930_chain_id t)) (e2930_nonce t) (e2930_value t)
            (ucast (e2930_gas_price t)) None (ucast (e2930_gas_limit t)) (e2930_access_list t))
      | EIP1559 s \<Rightarrow> let t = sg_tx s in
          Some (plain_env caller (e1559_to t) (e1559_input t) (Some (e1559_chain_id t)) (e1559_nonce t) (e1559_value t)
            (ucast (e1559_max_fee_per_gas t)) (Some (ucast (e1559_max_priority_fee_per_gas t)))
            (ucast (e1559_gas_limit t)) (e1559_access_list t))
      | EIP4844 s \<Rightarrow> let t = sg_tx s in
          Some ((plain_env caller (Call (e4844_to t)) (e4844_input t) (Some (e4844_chain_id t)) (e4844_nonce t)
            (e4844_value t) (ucast (e4844_max_fee_per_gas t)) (Some (ucast (e4844_max_priority_fee_per_gas t)))
            (ucast (e4844_gas_limit t)) (e4844_access_list t))
            \<lparr> te_max_fee_per_blob_gas := Some (ucast (e4844_max_fee_per_blob_gas t)),
              te_blob_hashes := e4844_blob_versioned_hashes t \<rparr>)
      | Deposit t \<Rightarrow>
          if unat (dep_mint t) < 2 ^ 128
          then Some ((plain_env caller (dep_kind t) (dep_input t) (deposit_chain_id t) (dep_nonce t) (dep_value t) 0 None
                 (ucast (dep_gas_limit t)) [])
                 \<lparr> te_source_hash := Some (dep_source_hash t), te_mint := Some (ucast (dep_mint t)),
                   te_is_system_transaction := Some (dep_is_system_tx t) \<rparr>)
          else None)"

section \<open>Receipts\<close>

record log =
  lg_address :: address
  lg_topics :: "b256 list"
  lg_data :: "u8 list"

type_synonym bloom = "2048 word"

record receipt_with_bloom =
  rc_status :: bool
  rc_cumulative_gas_used :: u128
  rc_logs :: "log list"
  rc_logs_bloom :: bloom

record deposit_receipt =
  dp_inner :: receipt_with_bloom
  dp_deposit_nonce :: "u64 option"
  dp_deposit_receipt_version :: "u64 option"

datatype typed_receipt =
    LegacyReceipt receipt_with_bloom
  | EIP2930Receipt receipt_with_bloom
  | EIP1559Receipt receipt_with_bloom
  | EIP4844Receipt receipt_with_bloom
  | DepositReceipt deposit_receipt

fun as_receipt_with_bloom :: "typed_receipt \<Rightarrow> receipt_with_bloom" where
  "as_receipt_with_bloom (LegacyReceipt r) = r"
| "as_receipt_with_bloom (EIP2930Receipt r) = r"
| "as_receipt_with_bloom (EIP1559Receipt r) = r"
| "as_receipt_with_bloom (EIP4844Receipt r) = r"
| "as_receipt_with_bloom (DepositReceipt r) = dp_inner r"

definition cumulative_gas_used :: "typed_receipt \<Rightarrow> u128" where
  "cumulative_gas_used r = rc_cumulative_gas_used (as_receipt_with_bloom r)"

definition receipt_logs_bloom :: "typed_receipt \<Rightarrow> bloom" where
  "receipt_logs_bloom r = rc_logs_bloom (as_receipt_with_bloom r)"

definition receipt_logs :: "typed_receipt \<Rightarrow> log list" where
  "receipt_logs r = rc_logs (as_receipt_with_bloom r)"

fun receipt_type_flag :: "typed_receipt \<Rightarrow> u8 option" where
  "receipt_type_flag (LegacyReceipt _) = None"
| "receipt_type_flag (EIP2930Receipt _) = Some 1"
| "receipt_type_flag (EIP1559Receipt _) = Some 2"
| "receipt_type_flag (EIP4844Receipt _) = Some 3"
| "receipt_type_flag (DepositReceipt _) = Some 0x7E"

section \<open>Facts\<close>

lemma unat_ucast_u256: "unat (ucast (x :: u128) :: u256) = unat x"
  using unsigned_less [of x, where ?'a = nat] by (simp add: unat_ucast_mod)

lemma request_rows_exclusive:
  "legacy_row r \<Longrightarrow> \<not> eip4844_row r" "eip2930_row r \<Longrightarrow> \<not> eip4844_row r" "eip1559_row r \<Longrightarrow> \<not> eip4844_row r"
  "eip1559_row r \<Longrightarrow> \<not> legacy_row r"
  by (auto simp: legacy_row_def eip2930_row_def eip1559_row_def eip4844_row_def)

fun request_type :: "typed_transaction_request \<Rightarrow> u8" where
  "request_type (LegacyRequest _) = 0"
| "request_type (EIP2930Request _) = 1"
| "request_type (EIP1559Request _) = 2"
| "request_type (EIP4844Request _ _) = 3"
| "request_type (DepositRequest _) = 0x7E"

section \<open>Properties\<close>

text \<open>
  A request is never turned into a transaction of another kind than it asks for: a request with a
  \<^verbatim>\<open>type\<close> is converted to that type or refused (the deposit fields make it a deposit), a request with
  blob hashes or a sidecar is refused unless it asks for type 3, and a request that names both a gas price and an
  EIP-1559 fee is refused.
\<close>

theorem request_keeps_type:
  assumes "transaction_request_to_typed r = Some t"
  shows "(\<forall>n. rq_transaction_type r = Some n \<longrightarrow> request_type t = n \<or> has_optimism_fields (rq_other r)) \<and>
    (request_type t = 0x7E \<longleftrightarrow> rq_transaction_type r = Some 0x7E \<or> has_optimism_fields (rq_other r)) \<and>
    (request_type t \<noteq> 0x7E \<and> (rq_blob_versioned_hashes r \<noteq> None \<or> rq_sidecar r \<noteq> None) \<longrightarrow>
       rq_transaction_type r = Some 3) \<and>
    (request_type t \<noteq> 0x7E \<and> rq_gas_price r \<noteq> None \<longrightarrow>
       rq_max_fee_per_gas r = None \<and> rq_max_priority_fee_per_gas r = None)"
  using assms
  by (auto simp: transaction_request_to_typed_def Let_def legacy_row_def eip2930_row_def eip1559_row_def eip4844_row_def
      split: if_splits option.splits)

definition sample_request :: transaction_request where
  "sample_request =
     \<lparr> rq_from = Some 1, rq_to = Some (Call 2), rq_gas_price = None, rq_max_fee_per_gas = Some 9,
       rq_max_priority_fee_per_gas = None, rq_max_fee_per_blob_gas = None, rq_blob_versioned_hashes = None,
       rq_gas = Some 21000, rq_value = None, rq_input = None, rq_nonce = Some 4, rq_access_list = None, rq_sidecar = None,
       rq_transaction_type = Some 2, rq_other = \<lparr> of_source_hash = Absent, of_mint = Absent, of_is_system_tx = Absent \<rparr> \<rparr>"

theorem request_keeps_type_witness:
  "\<exists>t. transaction_request_to_typed sample_request = Some t \<and> request_type t = 2"
proof -
  obtain t where t: "transaction_request_to_typed sample_request = Some t"
    by (simp add: transaction_request_to_typed_def sample_request_def has_optimism_fields_def contains_key_def
        legacy_row_def eip2930_row_def eip1559_row_def)
  show ?thesis using request_keeps_type [OF t] t
    by (auto simp: sample_request_def has_optimism_fields_def contains_key_def)
qed

text \<open>
  C29. The EVM executes the transaction that was signed: the environment carries the sender, the callee,
  the input, the value, the nonce, the chain and the gas price of the transaction. The gas limit is cut to its low 64 bits.
  Only a deposit that mints \<open>2 ^ 128\<close> or more has no environment.
\<close>

theorem tx_env_faithful:
  "case to_revm_tx_env p of
     None \<Rightarrow> \<exists>t. mi_transaction (pe_transaction p) = Deposit t \<and> 2 ^ 128 \<le> unat (dep_mint t)
   | Some e \<Rightarrow>
       let tx = mi_transaction (pe_transaction p) in
       te_caller e = pe_sender p \<and> te_transact_to e = kind tx \<and> te_data e = tx_data tx \<and> te_value e = tx_value tx \<and>
       te_nonce e = Some (tx_nonce tx) \<and> te_chain_id e = chain_id tx \<and> unat (te_gas_price e) = unat (gas_price tx) \<and>
       unat (te_gas_limit e) = unat (gas_limit tx) mod 2 ^ 64 \<and>
       (te_gas_priority_fee e \<noteq> None \<longleftrightarrow> is_dynamic_fee tx)"
  by (cases "mi_transaction (pe_transaction p)")
    (auto simp: to_revm_tx_env_def plain_env_def Let_def unat_ucast_u256 unat_ucast_mod)

end
