(* ===== verification/Eth_Block.thy ===== *)
theory Eth_Block
  imports Tx_Convert
begin

text \<open>
  Blocks (\<^verbatim>\<open>crates/anvil/core/src/eth/block.rs\<close>). The hash of the ommers and the root of the transaction trie are
  computed with RLP, keccak-256 and the trie builder of other crates; they are arguments.
\<close>

record header =
  hd_parent_hash :: b256
  hd_ommers_hash :: b256
  hd_beneficiary :: address
  hd_state_root :: b256
  hd_transactions_root :: b256
  hd_receipts_root :: b256
  hd_withdrawals_root :: "b256 option"
  hd_logs_bloom :: bloom
  hd_difficulty :: u256
  hd_number :: u64
  hd_gas_limit :: u128
  hd_gas_used :: u128
  hd_timestamp :: u64
  hd_extra_data :: "u8 list"
  hd_mix_hash :: b256
  hd_nonce :: u64
  hd_base_fee_per_gas :: "u128 option"
  hd_blob_gas_used :: "u128 option"
  hd_excess_blob_gas :: "u128 option"
  hd_parent_beacon_block_root :: "b256 option"
  hd_requests_root :: "b256 option"

record partial_header =
  ph_parent_hash :: b256
  ph_beneficiary :: address
  ph_state_root :: b256
  ph_receipts_root :: b256
  ph_logs_bloom :: bloom
  ph_difficulty :: u256
  ph_number :: u64
  ph_gas_limit :: u128
  ph_gas_used :: u128
  ph_timestamp :: u64
  ph_extra_data :: "u8 list"
  ph_mix_hash :: b256
  ph_blob_gas_used :: "u128 option"
  ph_excess_blob_gas :: "u128 option"
  ph_parent_beacon_block_root :: "b256 option"
  ph_nonce :: u64
  ph_base_fee :: "u128 option"

definition partial_header_default :: partial_header where
  "partial_header_default =
     \<lparr> ph_parent_hash = 0, ph_beneficiary = 0, ph_state_root = 0, ph_receipts_root = 0, ph_logs_bloom = 0,
       ph_difficulty = 0, ph_number = 0, ph_gas_limit = 0, ph_gas_used = 0, ph_timestamp = 0, ph_extra_data = [],
       ph_mix_hash = 0, ph_blob_gas_used = None, ph_excess_blob_gas = None, ph_parent_beacon_block_root = None,
       ph_nonce = 0, ph_base_fee = None \<rparr>"

record block =
  bk_header :: header
  bk_transactions :: "maybe_impersonated_transaction list"
  bk_ommers :: "header list"

definition block_new ::
  "(header list \<Rightarrow> b256) \<Rightarrow> (maybe_impersonated_transaction list \<Rightarrow> b256) \<Rightarrow>
   partial_header \<Rightarrow> maybe_impersonated_transaction list \<Rightarrow> header list \<Rightarrow> block" where
  "block_new ommers_hash_of transactions_root_of p transactions ommers =
     \<lparr> bk_header =
         \<lparr> hd_parent_hash = ph_parent_hash p, hd_ommers_hash = ommers_hash_of ommers,
           hd_beneficiary = ph_beneficiary p, hd_state_root = ph_state_root p,
           hd_transactions_root = transactions_root_of transactions, hd_receipts_root = ph_receipts_root p,
           hd_withdrawals_root = None, hd_logs_bloom = ph_logs_bloom p, hd_difficulty = ph_difficulty p,
           hd_number = ph_number p, hd_gas_limit = ph_gas_limit p, hd_gas_used = ph_gas_used p,
           hd_timestamp = ph_timestamp p, hd_extra_data = ph_extra_data p, hd_mix_hash = ph_mix_hash p,
           hd_nonce = ph_nonce p, hd_base_fee_per_gas = ph_base_fee p, hd_blob_gas_used = ph_blob_gas_used p,
           hd_excess_blob_gas = ph_excess_blob_gas p, hd_parent_beacon_block_root = ph_parent_beacon_block_root p,
           hd_requests_root = None \<rparr>,
       bk_transactions = transactions, bk_ommers = ommers \<rparr>"

definition partial_header_from :: "header \<Rightarrow> partial_header" where
  "partial_header_from h =
     \<lparr> ph_parent_hash = hd_parent_hash h, ph_beneficiary = hd_beneficiary h, ph_state_root = hd_state_root h,
       ph_receipts_root = hd_receipts_root h, ph_logs_bloom = hd_logs_bloom h, ph_difficulty = hd_difficulty h,
       ph_number = hd_number h, ph_gas_limit = hd_gas_limit h, ph_gas_used = hd_gas_used h,
       ph_timestamp = hd_timestamp h, ph_extra_data = hd_extra_data h, ph_mix_hash = hd_mix_hash h,
       ph_blob_gas_used = hd_blob_gas_used h, ph_excess_blob_gas = hd_excess_blob_gas h,
       ph_parent_beacon_block_root = hd_parent_beacon_block_root h, ph_nonce = hd_nonce h,
       ph_base_fee = hd_base_fee_per_gas h \<rparr>"

lemma partial_header_block_new [simp]:
  "partial_header_from (bk_header (block_new oh tr p txs ommers)) = p"
  "bk_transactions (block_new oh tr p txs ommers) = txs"
  by (simp_all add: partial_header_from_def block_new_def)

section \<open>The environment of a block\<close>

record blob_excess_gas_and_price =
  excess_blob_gas :: u64
  blob_gasprice :: u128

text \<open>\<^verbatim>\<open>BlockEnv\<close> of the EVM.\<close>

record block_env =
  be_number :: u256
  be_coinbase :: address
  be_timestamp :: u256
  be_gas_limit :: u256
  be_basefee :: u256
  be_difficulty :: u256
  be_prevrandao :: "b256 option"
  be_blob_excess_gas_and_price :: "blob_excess_gas_and_price option"

text \<open>\<^verbatim>\<open>to::<T>()\<close> of a wide integer: \<open>None\<close> is its panic when the value does not fit.\<close>

definition to_narrow :: "'a::len word \<Rightarrow> 'b::len word option" where
  "to_narrow x = (if unat x < 2 ^ LENGTH('b) then Some (ucast x) else None)"

lemma to_narrow_SomeD: "(to_narrow (x :: 'a::len word) :: 'b::len word option) = Some y \<Longrightarrow> unat y = unat x"
  by (auto simp: to_narrow_def unat_ucast_mod split: if_splits)

definition get_blob_excess_gas :: "block_env \<Rightarrow> u64 option" where
  "get_blob_excess_gas e = map_option excess_blob_gas (be_blob_excess_gas_and_price e)"

section \<open>What is kept of an executed transaction\<close>

text \<open>Call traces and the exit code are opaque: a type variable and a byte.\<close>

record 'tr transaction_info =
  tn_transaction_hash :: b256
  tn_transaction_index :: u64
  tn_from :: address
  tn_to :: "address option"
  tn_contract_address :: "address option"
  tn_traces :: "'tr list"
  tn_exit :: u8
  tn_out :: "u8 list option"
  tn_nonce :: u64
  tn_gas_used :: u128

record 'tr block_info =
  bi_block :: block
  bi_transactions :: "'tr transaction_info list"
  bi_receipts :: "typed_receipt list"

end
