(* ===== verification/Fees.thy ===== *)
theory Fees
  imports Eth_Block
begin

text \<open>
  Fees (\<^verbatim>\<open>crates/anvil/src/eth/fees.rs\<close>): the fee manager, the fields of a fee request and the fee history
  cache with its percentile rewards.

  The hard fork identifiers and the base fee and blob fee formulas belong to the \<^verbatim>\<open>revm\<close> and \<^verbatim>\<open>alloy\<close>
  crates and are arguments. The floating point values are kept as what they are computed from: a ratio
  as its two operands, and the gas a percentile aims at as the argument \<open>target\<close>.
\<close>

section \<open>The fee manager\<close>

record spec_ids =
  LONDON :: u8
  CANCUN :: u8

record fee_manager =
  fm_spec_id :: u8
  fm_base_fee :: u128
  fm_blob_excess_gas_and_price :: blob_excess_gas_and_price
  fm_gas_price :: u128

definition fee_manager_new :: "u8 \<Rightarrow> u128 \<Rightarrow> u128 \<Rightarrow> blob_excess_gas_and_price \<Rightarrow> fee_manager" where
  "fee_manager_new spec_id fee price blob =
     \<lparr> fm_spec_id = spec_id, fm_base_fee = fee, fm_blob_excess_gas_and_price = blob,
       fm_gas_price = price \<rparr>"

definition fm_is_eip1559 :: "spec_ids \<Rightarrow> fee_manager \<Rightarrow> bool" where
  "fm_is_eip1559 sp fm \<longleftrightarrow> LONDON sp \<le> fm_spec_id fm"

definition fm_is_eip4844 :: "spec_ids \<Rightarrow> fee_manager \<Rightarrow> bool" where
  "fm_is_eip4844 sp fm \<longleftrightarrow> CANCUN sp \<le> fm_spec_id fm"

definition base_fee_per_blob_gas :: "spec_ids \<Rightarrow> fee_manager \<Rightarrow> u128" where
  "base_fee_per_blob_gas sp fm =
     (if fm_is_eip4844 sp fm then blob_gasprice (fm_blob_excess_gas_and_price fm) else 0)"

definition blob_gas_price :: "spec_ids \<Rightarrow> fee_manager \<Rightarrow> u128" where
  "blob_gas_price sp fm = (if fm_is_eip4844 sp fm then base_fee_per_blob_gas sp fm else 0)"

definition base_fee :: "spec_ids \<Rightarrow> fee_manager \<Rightarrow> u128" where
  "base_fee sp fm = (if fm_is_eip1559 sp fm then fm_base_fee fm else 0)"

definition raw_gas_price :: "fee_manager \<Rightarrow> u128" where
  "raw_gas_price fm = fm_gas_price fm"

definition excess_blob_gas_and_price :: "spec_ids \<Rightarrow> fee_manager \<Rightarrow> blob_excess_gas_and_price option" where
  "excess_blob_gas_and_price sp fm =
     (if fm_is_eip4844 sp fm then Some (fm_blob_excess_gas_and_price fm) else None)"

definition set_gas_price :: "u128 \<Rightarrow> fee_manager \<Rightarrow> fee_manager" where
  "set_gas_price price fm = fm\<lparr> fm_gas_price := price \<rparr>"

definition set_base_fee :: "u128 \<Rightarrow> fee_manager \<Rightarrow> fee_manager" where
  "set_base_fee fee fm = fm\<lparr> fm_base_fee := fee \<rparr>"

definition set_blob_excess_gas_and_price :: "blob_excess_gas_and_price \<Rightarrow> fee_manager \<Rightarrow> fee_manager" where
  "set_blob_excess_gas_and_price b fm = fm\<lparr> fm_blob_excess_gas_and_price := b \<rparr>"

definition get_next_block_base_fee_per_gas ::
  "(u128 \<Rightarrow> u128 \<Rightarrow> u128 \<Rightarrow> u128) \<Rightarrow> spec_ids \<Rightarrow> fee_manager \<Rightarrow> u128 \<Rightarrow> u128 \<Rightarrow> u128 \<Rightarrow> u128" where
  "get_next_block_base_fee_per_gas calc sp fm used limit last_fee_per_gas =
     (if base_fee sp fm = 0 then 0 else calc used limit last_fee_per_gas)"

definition get_next_block_blob_base_fee_per_gas :: "(u64 \<Rightarrow> u128) \<Rightarrow> u128 \<Rightarrow> u128" where
  "get_next_block_blob_base_fee_per_gas calc_blob_gasprice excess = calc_blob_gasprice (ucast excess)"

definition get_next_block_blob_excess_gas :: "(u64 \<Rightarrow> u64 \<Rightarrow> u64) \<Rightarrow> u128 \<Rightarrow> u128 \<Rightarrow> u64" where
  "get_next_block_blob_excess_gas calc_excess_blob_gas used excess =
     calc_excess_blob_gas (ucast used) (ucast excess)"

section \<open>The fees of a request\<close>

record fee_details =
  fd_gas_price :: "u128 option"
  fd_max_fee_per_gas :: "u128 option"
  fd_max_priority_fee_per_gas :: "u128 option"
  fd_max_fee_per_blob_gas :: "u128 option"

definition fee_details_zero :: fee_details where
  "fee_details_zero =
     \<lparr> fd_gas_price = Some 0, fd_max_fee_per_gas = Some 0, fd_max_priority_fee_per_gas = Some 0,
       fd_max_fee_per_blob_gas = None \<rparr>"

definition or_zero_fees :: "fee_details \<Rightarrow> fee_details" where
  "or_zero_fees d =
     (let no_fees = fd_gas_price d = None \<and> fd_max_fee_per_gas d = None in
      \<lparr> fd_gas_price = (if no_fees then Some 0 else fd_gas_price d),
        fd_max_fee_per_gas = (if no_fees then Some 0 else fd_max_fee_per_gas d),
        fd_max_priority_fee_per_gas = fd_max_priority_fee_per_gas d,
        fd_max_fee_per_blob_gas = (if no_fees then None else fd_max_fee_per_blob_gas d) \<rparr>)"

definition fee_split :: "fee_details \<Rightarrow> u128 option \<times> u128 option \<times> u128 option \<times> u128 option" where
  "fee_split d = (fd_gas_price d, fd_max_fee_per_gas d, fd_max_priority_fee_per_gas d, fd_max_fee_per_blob_gas d)"

datatype fee_error = InvalidFeeInput

text \<open>The check both EIP-1559 arms make, and what they return.\<close>

definition fee_details_1559 ::
  "u128 option \<Rightarrow> u128 option \<Rightarrow> u128 option \<Rightarrow> (fee_error, fee_details) result" where
  "fee_details_1559 max_fee max_priority blob =
     (if (case max_priority of None \<Rightarrow> False | Some p \<Rightarrow> unwrap_or max_fee 0 < p)
      then Inl InvalidFeeInput
      else Inr \<lparr> fd_gas_price = max_fee, fd_max_fee_per_gas = max_fee,
                 fd_max_priority_fee_per_gas = max_priority, fd_max_fee_per_blob_gas = blob \<rparr>)"

fun fee_details_new ::
  "u128 option \<Rightarrow> u128 option \<Rightarrow> u128 option \<Rightarrow> u128 option \<Rightarrow> (fee_error, fee_details) result" where
  "fee_details_new request_gas_price None None None =
     Inr \<lparr> fd_gas_price = request_gas_price, fd_max_fee_per_gas = request_gas_price,
           fd_max_priority_fee_per_gas = request_gas_price, fd_max_fee_per_blob_gas = None \<rparr>"
| "fee_details_new request_gas_price max_fee max_priority None = fee_details_1559 max_fee max_priority None"
| "fee_details_new request_gas_price max_fee max_priority blob = fee_details_1559 max_fee max_priority blob"

section \<open>The fee history\<close>

record fee_history_cache_item =
  fh_base_fee :: u128
  fh_gas_used_ratio :: "u128 \<times> u128"
  fh_base_fee_per_blob_gas :: "u128 option"
  fh_blob_gas_used_ratio :: "u128 \<times> u128"
  fh_excess_blob_gas :: "u128 option"
  fh_blob_gas_used :: "u128 option"
  fh_rewards :: "u128 list"

text \<open>What the entry of a block reads of it.\<close>

record fee_block =
  fb_number :: u64
  fb_gas_used :: u128
  fb_gas_limit :: u128
  fb_blob_gas_used :: "u128 option"
  fb_transactions :: "typed_transaction list"

fun effective_reward :: "u128 \<Rightarrow> typed_transaction option \<Rightarrow> u128" where
  "effective_reward base (Some (Legacy t)) = saturating_sub (legacy_gas_price (sg_tx t)) base"
| "effective_reward base (Some (EIP2930 t)) = saturating_sub (e2930_gas_price (sg_tx t)) base"
| "effective_reward base (Some (EIP1559 t)) =
     min (e1559_max_priority_fee_per_gas (sg_tx t)) (saturating_sub (e1559_max_fee_per_gas (sg_tx t)) base)"
| "effective_reward base (Some (EIP4844 t)) =
     min (e4844_max_priority_fee_per_gas (sg_tx t)) (saturating_sub (e4844_max_fee_per_gas (sg_tx t)) base)"
| "effective_reward base (Some (Deposit _)) = 0"
| "effective_reward base None = 0"

definition nth_opt :: "'a list \<Rightarrow> nat \<Rightarrow> 'a option" where
  "nth_opt xs i = (if i < length xs then Some (xs ! i) else None)"

text \<open>\<open>receipts\<close> are the values of \<^verbatim>\<open>cumulative_gas_used()\<close>.\<close>

definition tx_rewards :: "u128 \<Rightarrow> typed_transaction list \<Rightarrow> u128 list \<Rightarrow> (u128 \<times> u128) list" where
  "tx_rewards base txs receipts =
     sort_key snd (map (\<lambda>(i, gas). (gas, effective_reward base (nth_opt txs i))) (enumerate 0 receipts))"

text \<open>The inner loop over the sorted transactions for one percentile.\<close>

fun percentile_reward :: "u128 \<Rightarrow> u128 \<Rightarrow> (u128 \<times> u128) list \<Rightarrow> u128 option" where
  "percentile_reward target_gas sum_gas [] = None"
| "percentile_reward target_gas sum_gas ((gas, reward) # ts) =
     (let sum' = sum_gas + gas in
      if target_gas \<le> sum' then Some reward else percentile_reward target_gas sum' ts)"

text \<open>
  \<open>target i gas_used\<close> is \<^verbatim>\<open>(p * gas_used / 100f64) as u128\<close> for the \<open>i\<close>-th of the 201 percentiles;
  \<open>max_data_gas\<close> is \<^verbatim>\<open>MAX_DATA_GAS_PER_BLOCK\<close>.
\<close>

definition create_cache_entry ::
  "(nat \<Rightarrow> u128 \<Rightarrow> u128) \<Rightarrow> u128 \<Rightarrow> spec_ids \<Rightarrow> fee_manager \<Rightarrow> fee_block option \<Rightarrow> u128 list option \<Rightarrow>
   fee_history_cache_item \<times> u64 option" where
  "create_cache_entry target max_data_gas sp fm block receipts =
     (let base = base_fee sp fm;
          blob = excess_blob_gas_and_price sp fm;
          item = \<lparr> fh_base_fee = base, fh_gas_used_ratio = (0, 1),
                   fh_base_fee_per_blob_gas = map_option blob_gasprice blob,
                   fh_blob_gas_used_ratio = (0, 1),
                   fh_excess_blob_gas = map_option (ucast \<circ> excess_blob_gas) blob,
                   fh_blob_gas_used = map_option (\<lambda>_. 0) blob, fh_rewards = [] \<rparr>
      in case (block, receipts) of
           (Some b, Some rs) \<Rightarrow>
             (item\<lparr> fh_gas_used_ratio := (fb_gas_used b, fb_gas_limit b),
                    fh_blob_gas_used_ratio :=
                      (case fb_blob_gas_used b of None \<Rightarrow> (0, 1) | Some g \<Rightarrow> (g, max_data_gas)),
                    fh_rewards := List.map_filter
                      (\<lambda>i. percentile_reward (target i (fb_gas_used b)) 0 (tx_rewards base (fb_transactions b) rs))
                      [0..<201] \<rparr>,
              Some (fb_number b))
         | _ \<Rightarrow> (item\<lparr> fh_rewards := replicate 201 0 \<rparr>, None))"

type_synonym fee_history_cache = "(u64, fee_history_cache_item) fmap"

definition insert_cache_entry ::
  "u64 \<Rightarrow> fee_history_cache_item \<Rightarrow> u64 option \<Rightarrow> fee_history_cache \<Rightarrow> fee_history_cache" where
  "insert_cache_entry limit item block_number cache =
     (case block_number of
        None \<Rightarrow> cache
      | Some n \<Rightarrow>
          let cache' = fmupd n item cache;
              pop_next = saturating_sub n limit;
              num_remove = saturating_sub (word_of_nat (fcard (fmdom cache'))) limit
          in fold (\<lambda>num. fmdrop (pop_next - word_of_nat num)) [0..<unat num_remove] cache')"

text \<open>One poll of the service: every block notification that is there is entered.\<close>

definition fee_history_poll ::
  "(b256 \<Rightarrow> fee_history_cache_item \<times> u64 option) \<Rightarrow> u64 \<Rightarrow> b256 list \<Rightarrow> fee_history_cache \<Rightarrow> fee_history_cache" where
  "fee_history_poll entry limit hashes cache =
     fold (\<lambda>h. case entry h of (item, n) \<Rightarrow> insert_cache_entry limit item n) hashes cache"

section \<open>Properties\<close>

subsection \<open>Requests\<close>

text \<open>
  \<^verbatim>\<open>FeeDetails::new\<close> refuses a request exactly when it names a priority fee above its maximum fee (a
  missing maximum counts as 0); otherwise the priority fee it returns is at most the maximum fee, the
  gas price is the maximum fee, and a legacy request has all three equal.
\<close>

theorem fee_details_new_checked:
  "case fee_details_new gp max_fee prio blob of
     Inl _ \<Rightarrow> \<exists>p. prio = Some p \<and> unwrap_or max_fee 0 < p
   | Inr d \<Rightarrow> \<not> (\<exists>p. prio = Some p \<and> unwrap_or max_fee 0 < p) \<and>
       fd_gas_price d = fd_max_fee_per_gas d \<and>
       fd_max_fee_per_gas d = (if max_fee = None \<and> prio = None \<and> blob = None then gp else max_fee) \<and>
       unwrap_or (fd_max_priority_fee_per_gas d) 0 \<le> unwrap_or (fd_max_fee_per_gas d) 0"
  by (cases max_fee; cases prio; cases blob)
    (auto simp: fee_details_1559_def unwrap_or_def word_gt_0)

subsection \<open>The history cache is a sliding window\<close>

definition cache_window :: "nat \<Rightarrow> nat \<Rightarrow> fee_history_cache \<Rightarrow> bool" where
  "cache_window lo hi cache \<longleftrightarrow> (\<forall>b. fmlookup cache b \<noteq> None \<longleftrightarrow> lo \<le> unat b \<and> unat b < hi)"

lemma cache_window_card:
  assumes "cache_window lo hi cache" and "hi \<le> 2 ^ 64"
  shows "fcard (fmdom cache) = hi - lo"
proof -
  have "fset (fmdom cache) = (word_of_nat :: nat \<Rightarrow> u64) ` {lo..<hi}"
  proof (rule set_eqI)
    fix b :: u64
    have "b \<in> fset (fmdom cache) \<longleftrightarrow> lo \<le> unat b \<and> unat b < hi"
      using assms(1) by (simp add: cache_window_def fmlookup_dom_iff)
    also have "\<dots> \<longleftrightarrow> b \<in> word_of_nat ` {lo..<hi}"
      using assms(2) by (auto simp: image_iff unat_word_of_nat intro!: bexI [of _ "unat b"])
    finally show "b \<in> fset (fmdom cache) \<longleftrightarrow> b \<in> word_of_nat ` {lo..<hi}" .
  qed
  moreover have "inj_on (word_of_nat :: nat \<Rightarrow> u64) {lo..<hi}"
    by (rule inj_onI) (use assms(2) in \<open>auto simp: word_eq_unat unat_word_of_nat\<close>)
  ultimately show ?thesis by (simp add: fcard.rep_eq card_image)
qed

lemma insert_cache_entry_window:
  assumes win: "cache_window lo n cache" and lo: "n - unat limit \<le> lo" "lo \<le> n" and n: "Suc n < 2 ^ 64"
  shows "cache_window (max lo (Suc n - unat limit)) (Suc n) (insert_cache_entry limit item (Some (word_of_nat n)) cache)"
proof -
  let ?n = "word_of_nat n :: u64" and ?c = "fmupd (word_of_nat n) item cache"
  have un: "unat ?n = n" using n by (simp add: unat_word_of_nat)
  have win': "cache_window lo (Suc n) ?c"
    unfolding cache_window_def
  proof
    fix b :: u64
    have "b = ?n \<longleftrightarrow> unat b = n" using un by (simp add: word_eq_unat)
    then show "fmlookup ?c b \<noteq> None \<longleftrightarrow> lo \<le> unat b \<and> unat b < Suc n"
      using win lo(2) by (auto simp: cache_window_def)
  qed
  have len: "unat (word_of_nat (fcard (fmdom ?c)) :: u64) = Suc n - lo"
    using cache_window_card [OF win'] n by (subst unat_word_of_nat) auto
  let ?pop = "saturating_sub ?n limit"
  let ?num = "saturating_sub (word_of_nat (fcard (fmdom ?c))) limit :: u64"
  have pop: "unat ?pop = n - unat limit" by (simp add: sat_simps un)
  consider (keep) "Suc n - unat limit \<le> lo" | (drop) "lo = n - unat limit" "unat limit \<le> n"
    using lo by linarith
  then show ?thesis
  proof cases
    case keep
    then have "unat ?num = 0" using len by (simp add: sat_simps)
    then show ?thesis using win' keep by (simp add: insert_cache_entry_def Let_def max_def)
  next
    case drop
    then have num: "unat ?num = 1" using len by (simp add: sat_simps)
    have "insert_cache_entry limit item (Some ?n) cache = fmdrop ?pop ?c"
      unfolding insert_cache_entry_def Let_def option.case num by simp
    moreover have "cache_window (Suc lo) (Suc n) (fmdrop ?pop ?c)"
      unfolding cache_window_def
    proof
      fix b :: u64
      have "b = ?pop \<longleftrightarrow> unat b = lo" using pop drop by (simp add: word_eq_unat)
      then show "fmlookup (fmdrop ?pop ?c) b \<noteq> None \<longleftrightarrow> Suc lo \<le> unat b \<and> unat b < Suc n"
        using win' by (auto simp: cache_window_def)
    qed
    ultimately show ?thesis using drop by (simp add: Suc_diff_le)
  qed
qed

definition insert_blocks :: "u64 \<Rightarrow> nat \<Rightarrow> fee_history_cache_item list \<Rightarrow> fee_history_cache" where
  "insert_blocks limit start items =
     fold (\<lambda>(i, item). insert_cache_entry limit item (Some (word_of_nat i))) (enumerate start items) fmempty"

text \<open>
  C25. The fee history is a sliding window: when consecutive blocks are entered from \<open>start\<close> on, the cache
  holds exactly the blocks of the last \<open>limit\<close> of them, so its size never exceeds the limit, although
  each insertion only deletes the keys computed from the block number.
\<close>

theorem fee_history_window:
  assumes "start + length items < 2 ^ 64"
  shows "(fmlookup (insert_blocks limit start items) b \<noteq> None \<longleftrightarrow>
       start \<le> unat b \<and> unat b < start + length items \<and> start + length items \<le> unat b + unat limit) \<and>
    fcard (fmdom (insert_blocks limit start items)) = min (length items) (unat limit)"
proof -
  have win: "cache_window (max start (start + length xs - unat limit)) (start + length xs) (insert_blocks limit start xs)"
    if "start + length xs < 2 ^ 64" for xs
    using that
  proof (induction xs rule: rev_induct)
    case Nil
    then show ?case by (simp add: insert_blocks_def cache_window_def)
  next
    case (snoc x xs)
    let ?n = "start + length xs" and ?lo = "max start (start + length xs - unat limit)"
    have "cache_window (max ?lo (Suc ?n - unat limit)) (Suc ?n)
        (insert_cache_entry limit x (Some (word_of_nat ?n)) (insert_blocks limit start xs))"
      by (rule insert_cache_entry_window) (use snoc in auto)
    moreover have "max ?lo (Suc ?n - unat limit) = max start (Suc ?n - unat limit)" by auto
    moreover have "insert_blocks limit start (xs @ [x]) =
        insert_cache_entry limit x (Some (word_of_nat ?n)) (insert_blocks limit start xs)"
      by (simp add: insert_blocks_def enumerate_append_eq)
    ultimately show ?case by simp
  qed
  note w = win [OF assms]
  have "fcard (fmdom (insert_blocks limit start items)) =
      start + length items - max start (start + length items - unat limit)"
    by (rule cache_window_card [OF w]) (use assms in simp)
  then show ?thesis using w by (auto simp: cache_window_def max_def min_def)
qed

definition sample_item :: fee_history_cache_item where
  "sample_item = \<lparr> fh_base_fee = 7, fh_gas_used_ratio = (1, 2), fh_base_fee_per_blob_gas = None,
     fh_blob_gas_used_ratio = (0, 1), fh_excess_blob_gas = None, fh_blob_gas_used = None, fh_rewards = [] \<rparr>"

theorem fee_history_window_witness:
  "(10::nat) + length (replicate 3 sample_item) < 2 ^ 64 \<and>
   fmlookup (insert_blocks 2 10 (replicate 3 sample_item)) 10 = None \<and>
   fmlookup (insert_blocks 2 10 (replicate 3 sample_item)) 11 \<noteq> None \<and>
   fcard (fmdom (insert_blocks 2 10 (replicate 3 sample_item))) = 2"
  using fee_history_window [of 10 "replicate 3 sample_item" 2 10]
    fee_history_window [of 10 "replicate 3 sample_item" 2 11] by simp

subsection \<open>Percentile rewards\<close>

text \<open>The rewards with the gas of each transaction itself in place of the running totals.\<close>

fun first_reaching :: "nat \<Rightarrow> nat \<Rightarrow> (nat \<times> u128) list \<Rightarrow> u128 option" where
  "first_reaching target acc [] = None"
| "first_reaching target acc ((gas, reward) # ts) =
     (if target \<le> acc + gas then Some reward else first_reaching target (acc + gas) ts)"

lemma first_reaching_mem: "first_reaching target acc ts = Some r \<Longrightarrow> r \<in> snd ` set ts"
  by (induction target acc ts rule: first_reaching.induct) (auto split: if_splits)

lemma first_reaching_mono:
  assumes "list_all2 (\<lambda>(g, r) (g', r'). g' \<le> g \<and> r = r') ts ts'" and "acc' \<le> acc" and "sorted (map snd ts')"
    and "first_reaching target acc' ts' = Some r'"
  shows "\<exists>r. first_reaching target acc ts = Some r \<and> r \<le> r'"
  using assms
proof (induction ts ts' arbitrary: acc acc' rule: list_all2_induct)
  case (Cons x xs y ys)
  obtain g r g' where xy: "x = (g, r)" "y = (g', r)" "g' \<le> g" using Cons.hyps(1) by auto
  show ?case
  proof (cases "target \<le> acc + g")
    case True
    have "r \<le> r'"
    proof (cases "target \<le> acc' + g'")
      case False
      then have "r' \<in> snd ` set ys" using Cons.prems(3) xy by (simp add: first_reaching_mem)
      then show ?thesis using Cons.prems(2) xy by auto
    qed (use Cons.prems xy in simp)
    then show ?thesis using True xy by simp
  next
    case False
    then have "\<not> target \<le> acc' + g'" using xy Cons.prems(1) by simp
    then show ?thesis using Cons.IH [of "acc' + g'" "acc + g"] Cons.prems False xy by auto
  qed
qed simp

lemma percentile_reward_unat:
  "unat acc + sum_list (map (unat \<circ> fst) ts) < 2 ^ 128 \<Longrightarrow>
   percentile_reward target acc ts = first_reaching (unat target) (unat acc) (map (apfst unat) ts)"
proof (induction target acc ts rule: percentile_reward.induct)
  case (2 target acc gas reward ts)
  then have "unat (acc + gas) = unat acc + unat gas" by (simp add: unat_word_ariths)
  then show ?case using 2 by (simp add: Let_def word_le_nat_alt)
qed simp

lemma insort_key_map: "insort_key k (f x) (map f xs) = map f (insort_key (\<lambda>x. k (f x)) x xs)"
  by (induction xs) auto

lemma sort_key_map: "sort_key k (map f xs) = map f (sort_key (\<lambda>x. k (f x)) xs)"
  by (induction xs) (simp_all add: insort_key_map)

text \<open>The gas of transaction \<open>i\<close> itself, from the running totals.\<close>

definition own_gas :: "u128 list \<Rightarrow> nat \<Rightarrow> nat" where
  "own_gas receipts i = unat (receipts ! i) - (if i = 0 then 0 else unat (receipts ! (i - 1)))"

definition own_rewards :: "u128 \<Rightarrow> typed_transaction list \<Rightarrow> u128 list \<Rightarrow> (nat \<times> u128) list" where
  "own_rewards base txs receipts =
     sort_key snd (map (\<lambda>i. (own_gas receipts i, effective_reward base (nth_opt txs i))) [0..<length receipts])"

lemma tx_rewards_upt:
  "tx_rewards base txs receipts =
     sort_key snd (map (\<lambda>i. (receipts ! i, effective_reward base (nth_opt txs i))) [0..<length receipts])"
proof -
  have "enumerate 0 receipts = map (\<lambda>i. (i, receipts ! i)) [0..<length receipts]"
    by (rule nth_equalityI) (simp_all add: nth_enumerate_eq)
  then have "map (\<lambda>(i, gas). (gas, effective_reward base (nth_opt txs i))) (enumerate 0 receipts) =
      map (\<lambda>i. (receipts ! i, effective_reward base (nth_opt txs i))) [0..<length receipts]"
    by (simp add: comp_def)
  then show ?thesis by (simp only: tx_rewards_def)
qed

text \<open>
  C34. The percentile rewards of the fee history are never above the rewards at the same percentiles of
  the block's gas: the code adds up the receipts' cumulative gas where the gas of each transaction is
  due, so the running sum reaches the target too early, at a transaction with the same or a lower
  reward.
\<close>

theorem percentile_reward_underestimates:
  assumes "sum_list (map unat receipts) < 2 ^ 128"
    and "first_reaching (unat target_gas) 0 (own_rewards base txs receipts) = Some due"
  shows "\<exists>r. percentile_reward target_gas 0 (tx_rewards base txs receipts) = Some r \<and> r \<le> due"
proof -
  let ?rw = "\<lambda>i. effective_reward base (nth_opt txs i)"
  define js where "js = sort_key ?rw [0..<length receipts]"
  have set_js: "mset js = mset [0..<length receipts]" by (simp add: js_def)
  have code: "tx_rewards base txs receipts = map (\<lambda>i. (receipts ! i, ?rw i)) js"
    and own: "own_rewards base txs receipts = map (\<lambda>i. (own_gas receipts i, ?rw i)) js"
    by (simp_all add: tx_rewards_upt own_rewards_def sort_key_map js_def)
  have "sum_list (map (unat \<circ> fst) (tx_rewards base txs receipts)) = sum_list (map (\<lambda>i. unat (receipts ! i)) js)"
    by (simp add: code comp_def)
  also have "\<dots> = sum_list (map (\<lambda>i. unat (receipts ! i)) [0..<length receipts])"
    using set_js by (simp only: mset_map flip: sum_mset_sum_list)
  also have "map (\<lambda>i. unat (receipts ! i)) [0..<length receipts] = map unat receipts"
    by (rule nth_equalityI) simp_all
  finally have "percentile_reward target_gas 0 (tx_rewards base txs receipts) =
      first_reaching (unat target_gas) 0 (map (apfst unat) (tx_rewards base txs receipts))"
    using assms(1) percentile_reward_unat [of 0 "tx_rewards base txs receipts" target_gas] by (simp add: comp_def)
  moreover have "list_all2 (\<lambda>(g, r) (g', r'). g' \<le> g \<and> r = r')
      (map (apfst unat) (tx_rewards base txs receipts)) (own_rewards base txs receipts)"
    by (simp add: code own list_all2_map1 list_all2_map2 list_all2_same own_gas_def)
  moreover have "sorted (map snd (own_rewards base txs receipts))" by (simp add: own_rewards_def)
  ultimately show ?thesis using first_reaching_mono [OF _ order_refl _ assms(2)] by simp
qed

definition sample_priced :: "u128 \<Rightarrow> typed_transaction" where
  "sample_priced price = Legacy \<lparr>
     sg_tx = \<lparr> legacy_chain_id = None, legacy_nonce = 0, legacy_gas_price = price, legacy_gas_limit = 100,
               legacy_to = Create, legacy_value = 0, legacy_input = [] \<rparr>,
     sg_signature = impersonated_signature, sg_hash = 0 \<rparr>"

theorem percentile_reward_underestimates_witness:
  "sum_list (map unat [100, 200, 300 :: u128]) < 2 ^ 128 \<and>
   first_reaching (unat (240 :: u128)) 0 (own_rewards 0 [sample_priced 1, sample_priced 2, sample_priced 3] [100, 200, 300]) = Some 3 \<and>
   percentile_reward 240 0 (tx_rewards 0 [sample_priced 1, sample_priced 2, sample_priced 3] [100, 200, 300]) = Some 2 \<and>
   (\<exists>r. percentile_reward 240 0 (tx_rewards 0 [sample_priced 1, sample_priced 2, sample_priced 3] [100, 200, 300]) = Some r \<and> r \<le> 3)"
proof -
  let ?txs = "[sample_priced 1, sample_priced 2, sample_priced 3]"
  have own: "first_reaching (unat (240 :: u128)) 0 (own_rewards 0 ?txs [100, 200, 300]) = Some 3"
    by (simp add: own_rewards_def own_gas_def nth_opt_def sample_priced_def saturating_sub_def upt_rec)
  moreover have "percentile_reward 240 0 (tx_rewards 0 ?txs [100, 200, 300]) = Some 2"
    by (simp add: tx_rewards_upt nth_opt_def sample_priced_def saturating_sub_def upt_rec Let_def)
  ultimately show ?thesis using percentile_reward_underestimates [OF _ own] by simp
qed

end
