(* ===== verification/Block_Time.thy ===== *)
theory Block_Time
  imports Prelude
begin

text \<open>
  Block times (\<^verbatim>\<open>crates/anvil/src/eth/backend/time.rs\<close>). The clock (\<^verbatim>\<open>duration_since_unix_epoch().as_secs()\<close>) is
  the argument \<open>now\<close>. The offset is an \<^verbatim>\<open>i128\<close>, here an integer that every operation keeps in its range.
\<close>

definition i128_saturating_add :: "int \<Rightarrow> int \<Rightarrow> int" where
  "i128_saturating_add a b = max (- (2 ^ 127)) (min (2 ^ 127 - 1) (a + b))"

record time_manager =
  tm_offset :: int
  tm_last_timestamp :: u64
  tm_next_exact_timestamp :: "u64 option"
  tm_interval :: "u64 option"

definition tm_reset :: "u64 \<Rightarrow> u64 \<Rightarrow> time_manager \<Rightarrow> time_manager" where
  "tm_reset now start tm =
     tm\<lparr> tm_last_timestamp := start, tm_offset := uint start - uint now, tm_next_exact_timestamp := None \<rparr>"

definition tm_new :: "u64 \<Rightarrow> u64 \<Rightarrow> time_manager" where
  "tm_new now start =
     tm_reset now start
       \<lparr> tm_offset = 0, tm_last_timestamp = 0, tm_next_exact_timestamp = None, tm_interval = None \<rparr>"

definition add_offset :: "int \<Rightarrow> time_manager \<Rightarrow> time_manager \<times> int" where
  "add_offset d tm =
     (let next = i128_saturating_add (tm_offset tm) d in (tm\<lparr> tm_offset := next \<rparr>, next))"

definition increase_time :: "u64 \<Rightarrow> time_manager \<Rightarrow> time_manager \<times> int" where
  "increase_time seconds tm = add_offset (uint seconds) tm"

datatype time_error = TimestampError u64

definition set_next_block_timestamp :: "u64 \<Rightarrow> time_manager \<Rightarrow> time_manager \<times> (time_error, unit) result" where
  "set_next_block_timestamp timestamp tm =
     (if timestamp \<le> tm_last_timestamp tm then (tm, Inl (TimestampError timestamp))
      else (tm\<lparr> tm_next_exact_timestamp := Some timestamp \<rparr>, Inr ()))"

definition set_block_timestamp_interval :: "u64 \<Rightarrow> time_manager \<Rightarrow> time_manager" where
  "set_block_timestamp_interval interval tm = tm\<lparr> tm_interval := Some interval \<rparr>"

definition remove_block_timestamp_interval :: "time_manager \<Rightarrow> time_manager \<times> bool" where
  "remove_block_timestamp_interval tm = (tm\<lparr> tm_interval := None \<rparr>, tm_interval tm \<noteq> None)"

definition compute_next_timestamp :: "u64 \<Rightarrow> time_manager \<Rightarrow> u64 \<times> int option" where
  "compute_next_timestamp now tm =
     (let last_timestamp = tm_last_timestamp tm;
          (next_timestamp, update_offset) =
            (case tm_next_exact_timestamp tm of
               Some next \<Rightarrow> (next, True)
             | None \<Rightarrow>
                 (case tm_interval tm of
                    Some interval \<Rightarrow> (saturating_add last_timestamp interval, False)
                  | None \<Rightarrow> (word_of_int (i128_saturating_add (uint now) (tm_offset tm)), False)));
          next_timestamp = (if next_timestamp \<le> last_timestamp then last_timestamp + 1 else next_timestamp)
      in (next_timestamp, if update_offset then Some (uint next_timestamp - uint now) else None))"

definition next_timestamp :: "u64 \<Rightarrow> time_manager \<Rightarrow> time_manager \<times> u64" where
  "next_timestamp now tm =
     (let (next, next_offset) = compute_next_timestamp now tm in
      (tm\<lparr> tm_next_exact_timestamp := None,
           tm_offset := (case next_offset of Some d \<Rightarrow> d | None \<Rightarrow> tm_offset tm),
           tm_last_timestamp := next \<rparr>, next))"

definition current_call_timestamp :: "u64 \<Rightarrow> time_manager \<Rightarrow> u64" where
  "current_call_timestamp now tm = fst (compute_next_timestamp now tm)"

section \<open>Properties\<close>

lemma uint_u64_less: "uint (a :: u64) < 2 ^ 64"
  using unsigned_less [of a, where ?'a = int] by simp

lemma i128_saturating_add_exact:
  "0 \<le> a \<Longrightarrow> 0 \<le> b \<Longrightarrow> 0 \<le> c \<Longrightarrow> a < 2 ^ 64 \<Longrightarrow> b < 2 ^ 64 \<Longrightarrow> c < 2 ^ 64 \<Longrightarrow>
   i128_saturating_add a (b - c) = a + (b - c)"
  by (simp add: i128_saturating_add_def)

lemma compute_next_increases:
  assumes "tm_last_timestamp tm \<noteq> - 1"
  shows "tm_last_timestamp tm < fst (compute_next_timestamp now tm)"
proof -
  have "tm_last_timestamp tm < tm_last_timestamp tm + 1"
    using assms by (rule less_add_1)
  then show ?thesis by (simp add: compute_next_timestamp_def Let_def split_beta not_le)
qed

lemma next_timestamp_sel:
  "snd (next_timestamp now tm) = fst (compute_next_timestamp now tm)"
  "tm_last_timestamp (fst (next_timestamp now tm)) = fst (compute_next_timestamp now tm)"
  "tm_next_exact_timestamp (fst (next_timestamp now tm)) = None"
  by (simp_all add: next_timestamp_def Let_def split_beta)

text \<open>The operations between two blocks and the mining of a block itself.\<close>

datatype time_op =
    IncreaseTime u64
  | SetNext u64
  | SetInterval u64
  | RemoveInterval
  | NextBlock u64

fun time_step :: "time_op \<Rightarrow> time_manager \<Rightarrow> time_manager \<times> u64 list" where
  "time_step (IncreaseTime d) tm = (fst (increase_time d tm), [])"
| "time_step (SetNext t) tm = (fst (set_next_block_timestamp t tm), [])"
| "time_step (SetInterval i) tm = (set_block_timestamp_interval i tm, [])"
| "time_step RemoveInterval tm = (fst (remove_block_timestamp_interval tm), [])"
| "time_step (NextBlock now) tm = (case next_timestamp now tm of (tm', t) \<Rightarrow> (tm', [t]))"

fun time_run :: "time_op list \<Rightarrow> time_manager \<Rightarrow> time_manager \<times> u64 list" where
  "time_run [] tm = (tm, [])"
| "time_run (x # xs) tm =
     (let (tm1, ts) = time_step x tm; (tm2, ts') = time_run xs tm1 in (tm2, ts @ ts'))"

lemma time_step_cases:
  "time_step x tm = (tm', ts) \<Longrightarrow>
     ts = [] \<and> tm_last_timestamp tm' = tm_last_timestamp tm \<or>
     (\<exists>now. ts = [fst (compute_next_timestamp now tm)] \<and> tm_last_timestamp tm' = fst (compute_next_timestamp now tm))"
  by (cases x; auto simp: increase_time_def add_offset_def set_next_block_timestamp_def set_block_timestamp_interval_def
      remove_block_timestamp_interval_def Let_def next_timestamp_def split: if_splits prod.splits; metis fst_conv)


abbreviation sample_time_ops :: "time_op list" where
  "sample_time_ops \<equiv> [NextBlock 100, SetNext 500, NextBlock 101, SetInterval 0, NextBlock 102]"


text \<open>
  An accepted override is the next block's timestamp and is used once; a refused one (at or before
  the last block) leaves everything as it was. The override also moves the clock offset, so that
  without an interval the following block at clock time \<open>now'\<close> is stamped with the override plus the
  time that passed.
\<close>

theorem set_next_block_timestamp_exact:
  "case set_next_block_timestamp t tm of
     (tm', Inl e) \<Rightarrow> t \<le> tm_last_timestamp tm \<and> tm' = tm
   | (tm', Inr _) \<Rightarrow>
       tm_last_timestamp tm < t \<and> snd (next_timestamp now tm') = t \<and>
       tm_next_exact_timestamp (fst (next_timestamp now tm')) = None \<and>
       (tm_interval tm = None \<and> now < now' \<and> uint t + (uint now' - uint now) < 2 ^ 64 \<longrightarrow>
          snd (next_timestamp now' (fst (next_timestamp now tm'))) = t + (now' - now))"
proof (cases "t \<le> tm_last_timestamp tm")
  case True
  then show ?thesis by (simp add: set_next_block_timestamp_def)
next
  case False
  let ?tm = "tm\<lparr> tm_next_exact_timestamp := Some t \<rparr>"
  have c: "compute_next_timestamp now ?tm = (t, Some (uint t - uint now))"
    using False by (simp add: compute_next_timestamp_def Let_def)
  have s1: "fst (next_timestamp now ?tm) =
      tm\<lparr> tm_next_exact_timestamp := None, tm_offset := uint t - uint now, tm_last_timestamp := t \<rparr>"
    by (simp add: next_timestamp_def c)
  have "snd (next_timestamp now' (fst (next_timestamp now ?tm))) = t + (now' - now)"
    if "tm_interval tm = None" "now < now'" and fit: "uint t + (uint now' - uint now) < 2 ^ 64"
  proof -
    have d: "uint now < uint now'" using that by (simp add: word_less_alt)
    have r: "uint t + (uint now' - uint now) = uint (t + (now' - now))"
    proof -
      have "uint (now' - now) = uint now' - uint now" using d by (intro uint_sub_if' [THEN trans]) simp
      then show ?thesis using fit iffD1 [OF uint_add_lem, of t "now' - now"] by simp
    qed
    have "i128_saturating_add (uint now') (uint t - uint now) = uint now' + (uint t - uint now)"
      by (intro i128_saturating_add_exact unsigned_greater_eq) (rule uint_u64_less)+
    then have sat: "i128_saturating_add (uint now') (uint t - uint now) = uint (t + (now' - now))"
      using r by simp
    have "t < t + (now' - now)" using d r by (simp add: word_less_alt)
    then show ?thesis using that(1) sat unfolding s1
      by (auto simp: next_timestamp_sel compute_next_timestamp_def Let_def dest: leD)
  qed
  then show ?thesis using False c
    by (simp add: set_next_block_timestamp_def next_timestamp_sel(3)) (simp add: next_timestamp_def)
qed

theorem set_next_block_timestamp_exact_witness:
  "(tm_interval (tm_new 100 90) = None \<and> (7::u64) < 17 \<and> uint (500::u64) + (uint (17::u64) - uint (7::u64)) < 2 ^ 64) \<and>
   (case set_next_block_timestamp 500 (tm_new 100 90) of
     (tm', Inl e) \<Rightarrow> False
   | (tm', Inr _) \<Rightarrow>
       snd (next_timestamp 7 tm') = 500 \<and>
       snd (next_timestamp 17 (fst (next_timestamp 7 tm'))) = 510)"
proof -
  have i: "tm_interval (tm_new 100 90) = None" by (simp add: tm_new_def tm_reset_def)
  have l: "\<not> 500 \<le> tm_last_timestamp (tm_new 100 90)" by (simp add: tm_new_def tm_reset_def)
  show ?thesis
    using set_next_block_timestamp_exact [of 500 "tm_new 100 90" 7 17] i l
    by (simp add: set_next_block_timestamp_def)
qed

end
