(* ===== verification/State_Db.thy ===== *)
theory State_Db
  imports Eth_Block
begin

text \<open>
  The state database of the node (\<^verbatim>\<open>crates/anvil/src/eth/backend/db.rs\<close>): moving a \<^verbatim>\<open>CacheDB\<close> into a
  snapshot and back, the account setters of the trait \<^verbatim>\<open>Db\<close>, loading a dumped state, and the block
  form that is dumped.

  \<^verbatim>\<open>CacheDB\<close>, \<^verbatim>\<open>AccountInfo\<close> and \<^verbatim>\<open>DbAccount\<close> are structs of \<^verbatim>\<open>revm\<close>, here records of their public fields.
  What the trait only calls (\<^verbatim>\<open>basic\<close>, \<^verbatim>\<open>insert_account\<close>, \<^verbatim>\<open>set_storage_at\<close>, the hash function) is an
  argument.
\<close>

section \<open>The cache database\<close>

type_synonym bytecode = "u8 list"

record account_info =
  ai_balance :: u256
  ai_nonce :: u64
  ai_code_hash :: b256
  ai_code :: "bytecode option"

datatype account_state = NotExisting | Touched | StorageCleared | NoState

record db_account =
  da_info :: account_info
  da_account_state :: account_state
  da_storage :: "(u256, u256) fmap"

record cache_db =
  cd_accounts :: "(address, db_account) fmap"
  cd_contracts :: "(b256, bytecode) fmap"
  cd_block_hashes :: "(u256, b256) fmap"

record state_snapshot =
  ss_accounts :: "(address, account_info) fmap"
  ss_storage :: "(address, (u256, u256) fmap) fmap"
  ss_block_hashes :: "(u256, b256) fmap"

text \<open>The loop over the accounts of \<^verbatim>\<open>clear_into_snapshot\<close>; the list is the iteration order.\<close>

fun take_accounts ::
  "(address \<times> db_account) list \<Rightarrow>
   (b256, bytecode) fmap \<times> (address, account_info) fmap \<times> (address, (u256, u256) fmap) fmap \<Rightarrow>
   (b256, bytecode) fmap \<times> (address, account_info) fmap \<times> (address, (u256, u256) fmap) fmap" where
  "take_accounts [] st = st"
| "take_accounts ((addr, acc) # rest) (contracts, accounts, account_storage) =
     (let info = (da_info acc)\<lparr> ai_code := fmlookup contracts (ai_code_hash (da_info acc)) \<rparr> in
      take_accounts rest
        (fmdrop (ai_code_hash (da_info acc)) contracts, fmupd addr info accounts,
         fmupd addr (da_storage acc) account_storage))"

definition entries :: "'k iter_order \<Rightarrow> ('k, 'v) fmap \<Rightarrow> ('k \<times> 'v) list" where
  "entries it m = List.map_filter (\<lambda>k. map_option (Pair k) (fmlookup m k)) (it (fmdom m))"

definition clear_into_snapshot :: "address iter_order \<Rightarrow> cache_db \<Rightarrow> cache_db \<times> state_snapshot" where
  "clear_into_snapshot it db =
     (case take_accounts (entries it (cd_accounts db)) (cd_contracts db, fmempty, fmempty) of
        (contracts, accounts, account_storage) \<Rightarrow>
          (\<lparr> cd_accounts = fmempty, cd_contracts = contracts, cd_block_hashes = fmempty \<rparr>,
           \<lparr> ss_accounts = accounts, ss_storage = account_storage, ss_block_hashes = cd_block_hashes db \<rparr>))"

definition put_account ::
  "(address, (u256, u256) fmap) fmap \<Rightarrow> address \<times> account_info \<Rightarrow> cache_db \<Rightarrow> cache_db" where
  "put_account storage = (\<lambda>(addr, acc) db.
     db\<lparr> cd_contracts :=
           (case ai_code acc of None \<Rightarrow> cd_contracts db
            | Some code \<Rightarrow> fmupd (ai_code_hash acc) code (cd_contracts db)),
         cd_accounts := fmupd addr
           \<lparr> da_info = acc\<lparr> ai_code := None \<rparr>, da_account_state = NoState,
             da_storage = unwrap_or (fmlookup storage addr) fmempty \<rparr> (cd_accounts db) \<rparr>)"

definition init_from_snapshot :: "address iter_order \<Rightarrow> state_snapshot \<Rightarrow> cache_db \<Rightarrow> cache_db" where
  "init_from_snapshot it snap db =
     (fold (put_account (ss_storage snap)) (entries it (ss_accounts snap)) db)
       \<lparr> cd_block_hashes := ss_block_hashes snap \<rparr>"

section \<open>The trait \<^verbatim>\<open>Db\<close>\<close>

text \<open>\<open>basic\<close> may fail; \<open>dflt\<close> is \<^verbatim>\<open>AccountInfo::default()\<close>.\<close>

definition db_update_account ::
  "(address \<Rightarrow> 'db \<Rightarrow> ('e, account_info option) result) \<Rightarrow> (address \<Rightarrow> account_info \<Rightarrow> 'db \<Rightarrow> 'db) \<Rightarrow> account_info \<Rightarrow>
   (account_info \<Rightarrow> account_info) \<Rightarrow> address \<Rightarrow> 'db \<Rightarrow> 'db \<times> ('e, unit) result" where
  "db_update_account basic insert_account dflt f addr db =
     (case basic addr db of
        Inl e \<Rightarrow> (db, Inl e)
      | Inr info \<Rightarrow> (insert_account addr (f (unwrap_or info dflt)) db, Inr ()))"

definition db_set_nonce ::
  "(address \<Rightarrow> 'db \<Rightarrow> ('e, account_info option) result) \<Rightarrow> (address \<Rightarrow> account_info \<Rightarrow> 'db \<Rightarrow> 'db) \<Rightarrow> account_info \<Rightarrow>
   address \<Rightarrow> u64 \<Rightarrow> 'db \<Rightarrow> 'db \<times> ('e, unit) result" where
  "db_set_nonce basic ins dflt addr nonce = db_update_account basic ins dflt (\<lambda>i. i\<lparr> ai_nonce := nonce \<rparr>) addr"

definition db_set_balance ::
  "(address \<Rightarrow> 'db \<Rightarrow> ('e, account_info option) result) \<Rightarrow> (address \<Rightarrow> account_info \<Rightarrow> 'db \<Rightarrow> 'db) \<Rightarrow> account_info \<Rightarrow>
   address \<Rightarrow> u256 \<Rightarrow> 'db \<Rightarrow> 'db \<times> ('e, unit) result" where
  "db_set_balance basic ins dflt addr balance = db_update_account basic ins dflt (\<lambda>i. i\<lparr> ai_balance := balance \<rparr>) addr"

definition db_set_code ::
  "(address \<Rightarrow> 'db \<Rightarrow> ('e, account_info option) result) \<Rightarrow> (address \<Rightarrow> account_info \<Rightarrow> 'db \<Rightarrow> 'db) \<Rightarrow> account_info \<Rightarrow>
   b256 \<Rightarrow> (u8 list \<Rightarrow> b256) \<Rightarrow> address \<Rightarrow> u8 list \<Rightarrow> 'db \<Rightarrow> 'db \<times> ('e, unit) result" where
  "db_set_code basic ins dflt ke keccak256 addr code =
     db_update_account basic ins dflt
       (\<lambda>i. i\<lparr> ai_code_hash := (if code = [] then ke else keccak256 code), ai_code := Some code \<rparr>) addr"

record serializable_account_record =
  sa_nonce :: u64
  sa_balance :: u256
  sa_code :: "u8 list"
  sa_storage :: "(u256 \<times> u256) list"

text \<open>
  \<^verbatim>\<open>load_state\<close>: a failing \<^verbatim>\<open>set_storage_at\<close> ends the load, with what was loaded before it in place. The
  lists are the ascending orders of the two \<^verbatim>\<open>BTreeMap\<close>s.
\<close>

fun load_storage ::
  "(address \<Rightarrow> u256 \<Rightarrow> u256 \<Rightarrow> 'db \<Rightarrow> 'db \<times> ('e, unit) result) \<Rightarrow> address \<Rightarrow> (u256 \<times> u256) list \<Rightarrow> 'db \<Rightarrow>
   'db \<times> ('e, unit) result" where
  "load_storage set_at addr [] db = (db, Inr ())"
| "load_storage set_at addr ((k, v) # kvs) db =
     (case set_at addr k v db of
        (db', Inl e) \<Rightarrow> (db', Inl e)
      | (db', Inr _) \<Rightarrow> load_storage set_at addr kvs db')"

fun load_accounts ::
  "(address \<Rightarrow> 'db \<Rightarrow> ('e, account_info option) result) \<Rightarrow> (address \<Rightarrow> account_info \<Rightarrow> 'db \<Rightarrow> 'db) \<Rightarrow> b256 \<Rightarrow>
   (address \<Rightarrow> u256 \<Rightarrow> u256 \<Rightarrow> 'db \<Rightarrow> 'db \<times> ('e, unit) result) \<Rightarrow>
   (address \<times> serializable_account_record) list \<Rightarrow> 'db \<Rightarrow> 'db \<times> ('e, bool) result" where
  "load_accounts basic ins ke set_at [] db = (db, Inr True)"
| "load_accounts basic ins ke set_at ((addr, account) # rest) db =
     (let old = (case basic addr db of Inr (Some i) \<Rightarrow> ai_nonce i | _ \<Rightarrow> 0);
          db1 = ins addr
            \<lparr> ai_balance = sa_balance account, ai_nonce = max old (sa_nonce account), ai_code_hash = ke,
              ai_code = (if sa_code account = [] then None else Some (sa_code account)) \<rparr> db
      in case load_storage set_at addr (sa_storage account) db1 of
           (db2, Inl e) \<Rightarrow> (db2, Inl e)
         | (db2, Inr _) \<Rightarrow> load_accounts basic ins ke set_at rest db2)"

section \<open>Dumped blocks\<close>

record serializable_block =
  sb_header :: header
  sb_transactions :: "typed_transaction list"
  sb_ommers :: "header list"

definition block_to_serializable :: "block \<Rightarrow> serializable_block" where
  "block_to_serializable b =
     \<lparr> sb_header = bk_header b, sb_transactions = map mi_transaction (bk_transactions b), sb_ommers = bk_ommers b \<rparr>"

definition serializable_to_block :: "serializable_block \<Rightarrow> block" where
  "serializable_to_block b =
     \<lparr> bk_header = sb_header b, bk_transactions = map mi_new (sb_transactions b), bk_ommers = sb_ommers b \<rparr>"

section \<open>Snapshots restore the database\<close>

lemma set_entries:
  assumes "iter_ok it"
  shows "set (entries it m) = {(k, v). fmlookup m k = Some v}"
proof (intro set_eqI iffI)
  fix kv assume "kv \<in> {(k, v). fmlookup m k = Some v}"
  then show "kv \<in> set (entries it m)"
    by (auto simp: entries_def List.map_filter_def iter_okD(1) [OF assms] fmlookup_dom_iff image_iff
        intro!: bexI [of _ "fst kv"])
qed (auto simp: entries_def List.map_filter_def)

lemma distinct_entries:
  assumes "iter_ok it"
  shows "distinct (map fst (entries it m))"
proof -
  have "map fst (List.map_filter (\<lambda>k. map_option (Pair k) (fmlookup m k)) ks) = filter (\<lambda>k. fmlookup m k \<noteq> None) ks" for ks
    by (induction ks) (auto simp: List.map_filter_def)
  then show ?thesis using iter_okD(2) [OF assms] by (simp add: entries_def)
qed

abbreviation acc_hash :: "db_account \<Rightarrow> b256" where
  "acc_hash acc \<equiv> ai_code_hash (da_info acc)"

lemma take_accounts_Cons:
  assumes "take_accounts ((b, bcc) # L) (C, A, S) = (C', A', S')"
  shows "take_accounts L (fmdrop (acc_hash bcc) C,
      fmupd b ((da_info bcc)\<lparr> ai_code := fmlookup C (acc_hash bcc) \<rparr>) A, fmupd b (da_storage bcc) S) = (C', A', S')"
  using assms by (simp add: Let_def)

lemma take_accounts_contracts:
  "take_accounts L (C, A, S) = (C', A', S') \<Longrightarrow>
   fmlookup C' h = (if h \<in> acc_hash ` snd ` set L then None else fmlookup C h)"
proof (induction L arbitrary: C A S)
  case (Cons x L)
  obtain b bcc where x: "x = (b, bcc)" by (cases x)
  from Cons.IH [OF take_accounts_Cons [OF Cons.prems [unfolded x]]] show ?case by (auto simp: x)
qed simp

lemma take_accounts_other:
  "take_accounts L (C, A, S) = (C', A', S') \<Longrightarrow> a \<notin> fst ` set L \<Longrightarrow>
   fmlookup A' a = fmlookup A a \<and> fmlookup S' a = fmlookup S a"
proof (induction L arbitrary: C A S)
  case (Cons x L)
  obtain b bcc where x: "x = (b, bcc)" by (cases x)
  from Cons.IH [OF take_accounts_Cons [OF Cons.prems(1) [unfolded x]]] Cons.prems(2) show ?case by (auto simp: x)
qed simp

lemma take_accounts_entry:
  "take_accounts L (C, A, S) = (C', A', S') \<Longrightarrow> distinct (map fst L) \<Longrightarrow> (a, acc) \<in> set L \<Longrightarrow>
   fmlookup S' a = Some (da_storage acc) \<and>
   (\<exists>c. fmlookup A' a = Some ((da_info acc)\<lparr> ai_code := c \<rparr>) \<and> (c = None \<or> c = fmlookup C (acc_hash acc)))"
proof (induction L arbitrary: C A S)
  case (Cons x L)
  obtain b bcc where x: "x = (b, bcc)" by (cases x)
  note step = take_accounts_Cons [OF Cons.prems(1) [unfolded x]]
  show ?case
  proof (cases "(a, acc) \<in> set L")
    case True
    with Cons.IH [OF step] Cons.prems(2) show ?thesis by (fastforce simp: x split: if_splits)
  next
    case False
    then have "a = b" "acc = bcc" using Cons.prems(3) by (auto simp: x)
    then show ?thesis using take_accounts_other [OF step, of a] Cons.prems(2) by (auto simp: x)
  qed
qed simp

lemma take_accounts_code:
  "take_accounts L (C, A, S) = (C', A', S') \<Longrightarrow> distinct (map fst L) \<Longrightarrow>
   h \<in> acc_hash ` snd ` set L \<Longrightarrow> fmlookup C h = Some c \<Longrightarrow>
   \<exists>a acc. (a, acc) \<in> set L \<and> acc_hash acc = h \<and> fmlookup A' a = Some ((da_info acc)\<lparr> ai_code := Some c \<rparr>)"
proof (induction L arbitrary: C A S)
  case (Cons x L)
  obtain b bcc where x: "x = (b, bcc)" by (cases x)
  note step = take_accounts_Cons [OF Cons.prems(1) [unfolded x]]
  show ?case
  proof (cases "acc_hash bcc = h")
    case True
    moreover have "fmlookup A' b = Some ((da_info bcc)\<lparr> ai_code := Some c \<rparr>)"
      using take_accounts_other [OF step, of b] Cons.prems(2,4) True by (simp add: x)
    ultimately show ?thesis by (auto simp: x)
  next
    case False
    then have "h \<in> acc_hash ` snd ` set L" "fmlookup (fmdrop (acc_hash bcc) C) h = Some c"
      using Cons.prems(3,4) by (auto simp: x)
    from Cons.IH [OF step _ this] Cons.prems(2) show ?thesis by (auto simp: x)
  qed
qed simp

lemma put_accounts_lookup:
  assumes "distinct (map fst L)"
  shows "fmlookup (cd_accounts (fold (put_account st) L db)) a =
    (case map_of L a of
       None \<Rightarrow> fmlookup (cd_accounts db) a
     | Some acc \<Rightarrow> Some \<lparr> da_info = acc\<lparr> ai_code := None \<rparr>, da_account_state = NoState,
         da_storage = unwrap_or (fmlookup st a) fmempty \<rparr>)"
  using assms
proof (induction L arbitrary: db)
  case (Cons x L)
  obtain b acc where x: "x = (b, acc)" by (cases x)
  have "map_of L b = None" using Cons.prems by (simp add: x map_of_eq_None_iff)
  then show ?case using Cons by (auto simp: x put_account_def split: option.split)
qed simp

lemma put_account_contract:
  "fmlookup (cd_contracts (put_account st (b, acc) db)) h =
     (if ai_code_hash acc = h \<and> ai_code acc \<noteq> None then ai_code acc else fmlookup (cd_contracts db) h)"
  by (auto simp: put_account_def split: option.split)

lemma put_accounts_contracts:
  assumes "\<And>a acc c'. (a, acc) \<in> set L \<Longrightarrow> ai_code_hash acc = h \<Longrightarrow> ai_code acc = Some c' \<Longrightarrow> c' = c"
  shows "fmlookup (cd_contracts (fold (put_account st) L db)) h =
    (if list_ex (\<lambda>(a, acc). ai_code_hash acc = h \<and> ai_code acc \<noteq> None) L then Some c
     else fmlookup (cd_contracts db) h)"
  using assms
proof (induction L rule: rev_induct)
  case (snoc x L)
  obtain b acc where x: "x = (b, acc)" by (cases x)
  have "fmlookup (cd_contracts (fold (put_account st) L db)) h =
    (if list_ex (\<lambda>(a, acc). ai_code_hash acc = h \<and> ai_code acc \<noteq> None) L then Some c
     else fmlookup (cd_contracts db) h)"
    by (rule snoc.IH) (use snoc.prems in auto)
  moreover have "ai_code_hash acc = h \<and> ai_code acc \<noteq> None \<Longrightarrow> ai_code acc = Some c"
    using snoc.prems [of b acc] by (auto simp: x)
  ultimately show ?case by (auto simp: x put_account_contract)
qed simp

definition unlabelled :: "db_account \<Rightarrow> db_account" where
  "unlabelled acc = acc\<lparr> da_info := (da_info acc)\<lparr> ai_code := None \<rparr>, da_account_state := NoState \<rparr>"

lemma snapshot_restores:
  assumes it: "iter_ok it" and it': "iter_ok it'"
  shows "(case clear_into_snapshot it db of (db', snap) \<Rightarrow> init_from_snapshot it' snap db') =
    db\<lparr> cd_accounts := fmmap unlabelled (cd_accounts db) \<rparr>"
proof -
  let ?L = "entries it (cd_accounts db)"
  obtain C A S where ta: "take_accounts ?L (cd_contracts db, fmempty, fmempty) = (C, A, S)" by (metis prod_cases3)
  note dL = distinct_entries [OF it, of "cd_accounts db"] and sL = set_entries [OF it, of "cd_accounts db"]
  define L' where "L' = entries it' A"
  have sL': "set L' = {(k, v). fmlookup A k = Some v}" and dL': "distinct (map fst L')"
    by (simp_all add: L'_def set_entries [OF it'] distinct_entries [OF it'])
  let ?db = "\<lparr> cd_accounts = fmempty, cd_contracts = C, cd_block_hashes = fmempty \<rparr>"
  let ?r = "fold (put_account S) L' ?db"
  have dom: "fmlookup A a = None \<longleftrightarrow> fmlookup (cd_accounts db) a = None" for a
    using take_accounts_other [OF ta, of a] take_accounts_entry [OF ta dL, of a] sL by (force simp: image_iff)
  have acc: "fmlookup (cd_accounts ?r) a = map_option unlabelled (fmlookup (cd_accounts db) a)" for a
  proof (cases "fmlookup (cd_accounts db) a")
    case None
    then have "map_of L' a = None" using dom [of a] sL' by (auto simp: map_of_eq_None_iff)
    then show ?thesis using None by (simp add: put_accounts_lookup [OF dL'])
  next
    case (Some acc)
    then obtain c where e: "fmlookup S a = Some (da_storage acc)" "fmlookup A a = Some ((da_info acc)\<lparr> ai_code := c \<rparr>)"
      using take_accounts_entry [OF ta dL, of a acc] sL by auto
    then have "map_of L' a = Some ((da_info acc)\<lparr> ai_code := c \<rparr>)" using sL' dL' by (auto intro: map_of_is_SomeI)
    then show ?thesis using Some e by (simp add: put_accounts_lookup [OF dL'] unlabelled_def unwrap_or_def)
  qed
  have origin: "ai_code i = None \<or> ai_code i = fmlookup (cd_contracts db) (ai_code_hash i)" if i: "(a, i) \<in> set L'" for a i
  proof -
    obtain acc where "fmlookup (cd_accounts db) a = Some acc" using dom [of a] i sL' by auto
    with take_accounts_entry [OF ta dL, of a acc] sL sL' i show ?thesis by auto
  qed
  have con: "fmlookup (cd_contracts ?r) h = fmlookup (cd_contracts db) h" for h
  proof (cases "fmlookup (cd_contracts db) h")
    case None
    then have no: "ai_code i = None" if "(a, i) \<in> set L'" "ai_code_hash i = h" for a i
      using that origin [of a i] by auto
    then have "\<not> list_ex (\<lambda>(a, acc). ai_code_hash acc = h \<and> ai_code acc \<noteq> None) L'"
      by (auto simp: list_ex_iff)
    then show ?thesis using put_accounts_contracts [of L' h "[]" S ?db] None take_accounts_contracts [OF ta, of h] no
      by fastforce
  next
    case (Some c)
    have agree: "c' = c" if "(a, i) \<in> set L'" "ai_code_hash i = h" "ai_code i = Some c'" for a i c'
      using that origin [of a i] Some by auto
    show ?thesis
    proof (cases "h \<in> acc_hash ` snd ` set ?L")
      case True
      from take_accounts_code [OF ta dL this Some] obtain a i where
        "(a, i\<lparr> ai_code := Some c \<rparr>) \<in> set L'" "ai_code_hash i = h" using sL' by fastforce
      then have "list_ex (\<lambda>(a, acc). ai_code_hash acc = h \<and> ai_code acc \<noteq> None) L'"
        unfolding list_ex_iff by (intro bexI [of _ "(a, i\<lparr> ai_code := Some c \<rparr>)"]) simp_all
      then show ?thesis using put_accounts_contracts [of L' h c S ?db, OF agree] Some by simp
    next
      case False
      then have "fmlookup C h = Some c" using take_accounts_contracts [OF ta, of h] Some by simp
      then show ?thesis using put_accounts_contracts [of L' h c S ?db, OF agree] Some by auto
    qed
  qed
  have "cd_accounts ?r = fmmap unlabelled (cd_accounts db)" "cd_contracts ?r = cd_contracts db"
    using acc con by (auto intro!: fmap_ext)
  then show ?thesis
    by (simp add: clear_into_snapshot_def ta init_from_snapshot_def L'_def)
qed

text \<open>
  What a client of the database may rely on: a state that was moved into a snapshot comes back with the
  same \<open>view\<close>.
\<close>

locale state_snapshotting =
  fixes clear_into :: "'st \<Rightarrow> 'st \<times> 'sn"
    and init_from :: "'sn \<Rightarrow> 'st \<Rightarrow> 'st"
    and view :: "'st \<Rightarrow> 'v"
  assumes restore: "view (init_from (snd (clear_into st)) (fst (clear_into st))) = view st"
    and again: "view (init_from sn (init_from sn st)) = view (init_from sn st)"

text \<open>Loading a snapshot twice is loading it once: the second pass writes the same entries.\<close>

lemma fmadd_singleton: "m ++\<^sub>f fmap_of_list [(k, v)] = fmupd k v m"
  by (rule fmap_ext) simp

lemma put_accounts_fields:
  "cd_accounts (fold (put_account storage) xs db) =
     cd_accounts db ++\<^sub>f fmap_of_list (rev (map (\<lambda>(addr, acc). (addr,
        \<lparr> da_info = acc\<lparr> ai_code := None \<rparr>, da_account_state = NoState,
          da_storage = unwrap_or (fmlookup storage addr) fmempty \<rparr>)) xs)) \<and>
   cd_contracts (fold (put_account storage) xs db) =
     cd_contracts db ++\<^sub>f fmap_of_list (rev (List.map_filter (\<lambda>(addr, acc).
        map_option (Pair (ai_code_hash acc)) (ai_code acc)) xs)) \<and>
   cd_block_hashes (fold (put_account storage) xs db) = cd_block_hashes db"
proof (induction xs arbitrary: db)
  case Nil
  show ?case by (simp add: List.map_filter_simps)
next
  case (Cons x xs)
  obtain addr acc where x: "x = (addr, acc)" by (cases x)
  have step: "cd_accounts (put_account storage x db) = fmupd addr
        \<lparr> da_info = acc\<lparr> ai_code := None \<rparr>, da_account_state = NoState,
          da_storage = unwrap_or (fmlookup storage addr) fmempty \<rparr> (cd_accounts db)"
      "cd_contracts (put_account storage x db) =
        (case ai_code acc of None \<Rightarrow> cd_contracts db | Some code \<Rightarrow> fmupd (ai_code_hash acc) code (cd_contracts db))"
      "cd_block_hashes (put_account storage x db) = cd_block_hashes db"
    by (simp_all add: put_account_def x)
  show ?case using Cons.IH [of "put_account storage x db"] unfolding step
    by (cases "ai_code acc") (simp_all add: x List.map_filter_simps fmadd_singleton del: fmap_of_list_simps)
qed

lemma fmadd_again: "(m ++\<^sub>f n) ++\<^sub>f n = m ++\<^sub>f n"
  by (rule fmap_ext) simp

lemma init_from_snapshot_again:
  "init_from_snapshot it snap (init_from_snapshot it snap db) = init_from_snapshot it snap db"
  by (rule cache_db.equality) (simp_all add: init_from_snapshot_def put_accounts_fields fmadd_again)

definition db_view ::
  "cache_db \<Rightarrow> (address, db_account) fmap \<times> (b256, bytecode) fmap \<times> (u256, b256) fmap" where
  "db_view db = (fmmap unlabelled (cd_accounts db), cd_contracts db, cd_block_hashes db)"

lemma unlabelled_idem: "unlabelled (unlabelled acc) = unlabelled acc"
  by (simp add: unlabelled_def)

lemma fmmap_unlabelled_idem: "fmmap unlabelled (fmmap unlabelled m) = fmmap unlabelled m"
  by (rule fmap_ext) (simp add: option.map_comp comp_def unlabelled_idem)

interpretation cache_db_snap: state_snapshotting
  "clear_into_snapshot sorted_list_of_fset" "init_from_snapshot sorted_list_of_fset" db_view
proof unfold_locales
  fix st :: cache_db
  have "init_from_snapshot sorted_list_of_fset (snd (clear_into_snapshot sorted_list_of_fset st))
      (fst (clear_into_snapshot sorted_list_of_fset st)) = st\<lparr> cd_accounts := fmmap unlabelled (cd_accounts st) \<rparr>"
    using snapshot_restores [OF iter_ok_sorted iter_ok_sorted, of st] by (simp add: split_beta)
  then show "db_view (init_from_snapshot sorted_list_of_fset (snd (clear_into_snapshot sorted_list_of_fset st))
      (fst (clear_into_snapshot sorted_list_of_fset st))) = db_view st"
    by (simp add: db_view_def fmmap_unlabelled_idem)
qed (simp add: init_from_snapshot_again)

section \<open>Properties\<close>

text \<open>
  C28. \<^verbatim>\<open>init_from_snapshot\<close> after \<^verbatim>\<open>clear_into_snapshot\<close> restores balances, nonces, code hashes, storage, block
  hashes and the whole contract map, also when accounts share their code; it resets the account state
  of every account (a cleared storage is forgotten) and drops a code kept in the account itself.
\<close>

theorem snapshot_roundtrip:
  assumes "iter_ok it" and "iter_ok it'"
  shows "(case clear_into_snapshot it db of (db', snap) \<Rightarrow> init_from_snapshot it' snap db') =
    db\<lparr> cd_accounts := fmmap
          (\<lambda>acc. acc\<lparr> da_info := (da_info acc)\<lparr> ai_code := None \<rparr>, da_account_state := NoState \<rparr>)
          (cd_accounts db) \<rparr>"
  using snapshot_restores [OF assms] by (simp add: unlabelled_def [abs_def])

definition sample_db :: cache_db where
  "sample_db =
     (let acc = \<lparr> da_info = \<lparr> ai_balance = 3, ai_nonce = 1, ai_code_hash = 9, ai_code = None \<rparr>,
                  da_account_state = StorageCleared, da_storage = fmupd 1 2 fmempty \<rparr>
      in \<lparr> cd_accounts = fmupd 5 acc (fmupd 4 acc fmempty), cd_contracts = fmupd 9 [96] fmempty,
           cd_block_hashes = fmempty \<rparr>)"

theorem snapshot_roundtrip_witness:
  "iter_ok (sorted_list_of_fset :: address iter_order) \<and>
   (case clear_into_snapshot sorted_list_of_fset sample_db of (db', snap) \<Rightarrow>
      fmlookup (cd_contracts (init_from_snapshot sorted_list_of_fset snap db')) 9 = Some [96] \<and>
      map_option da_account_state (fmlookup (cd_accounts (init_from_snapshot sorted_list_of_fset snap db')) 4) = Some NoState)"
  using snapshot_roundtrip [OF iter_ok_sorted iter_ok_sorted, of sample_db] iter_ok_sorted
  by (auto simp: split_beta sample_db_def Let_def)

text \<open>
  A block survives dumping and loading exactly when none of its transactions was sent by an
  impersonated account: the dumped form has no place for the impersonated sender.
\<close>

theorem block_dump_roundtrip:
  "serializable_to_block (block_to_serializable b) = b \<longleftrightarrow>
     (\<forall>i < length (bk_transactions b). mi_impersonated_sender (bk_transactions b ! i) = None)"
proof -
  have "map (mi_new \<circ> mi_transaction) xs = xs \<longleftrightarrow> (\<forall>i < length xs. mi_impersonated_sender (xs ! i) = None)" for xs
  proof -
    have "mi_new (mi_transaction x) = x \<longleftrightarrow> mi_impersonated_sender x = None" for x
      by (cases x) (auto simp: mi_new_def)
    then show ?thesis by (simp add: list_eq_iff_nth_eq)
  qed
  then show ?thesis by (cases b) (simp add: serializable_to_block_def block_to_serializable_def)
qed

definition sample_block :: block where
  "sample_block =
     block_new (\<lambda>_. 0) (\<lambda>_. 0) (partial_header_default\<lparr> ph_number := 1, ph_timestamp := 5 \<rparr>)
       [mi_impersonated (Deposit \<lparr> dep_nonce = 0, dep_source_hash = 0, dep_from = 1,
          dep_kind = Create, dep_mint = 0, dep_value = 0, dep_gas_limit = 0, dep_is_system_tx = False, dep_input = [] \<rparr>) 7] []"

theorem block_dump_roundtrip_witness:
  "mi_impersonated_sender (bk_transactions sample_block ! 0) = Some 7 \<and>
   serializable_to_block (block_to_serializable sample_block) \<noteq> sample_block"
  using block_dump_roundtrip [of sample_block] by (simp add: sample_block_def mi_impersonated_def)

end
