(* ===== verification/Chain_Storage.thy ===== *)
theory Chain_Storage
  imports State_Db "HOL-Library.Sublist"
begin

text \<open>
  Historic states and the chain (\<^verbatim>\<open>crates/anvil/src/eth/backend/mem/storage.rs\<close>).

  \<^verbatim>\<open>InMemoryBlockStates\<close> keeps the states of recent blocks in memory, older ones on disk and drops the
  rest. The state type \<open>'st\<close> comes with the two functions \<open>clear_into\<close> and \<open>init_from\<close> that move it into a
  snapshot and back (\<open>State_Db\<close>); the disk is a map from hashes to snapshots. \<^verbatim>\<open>enforce_limits\<close> has a loop
  that need not end, so it and its callers return \<open>None\<close> when it does not.
\<close>

section \<open>States of recent blocks\<close>

definition DEFAULT_HISTORY_LIMIT :: nat where "DEFAULT_HISTORY_LIMIT = 500"
definition MIN_HISTORY_LIMIT :: nat where "MIN_HISTORY_LIMIT = 10"
definition MAX_ON_DISK_HISTORY_LIMIT :: nat where "MAX_ON_DISK_HISTORY_LIMIT = 3600"

record ('st, 'sn) block_states =
  bs_states :: "(b256, 'st) fmap"
  bs_on_disk_states :: "(b256, 'st) fmap"
  bs_in_memory_limit :: nat
  bs_min_in_memory_limit :: nat
  bs_max_on_disk_limit :: nat
  bs_oldest_on_disk :: "b256 list"
  bs_present :: "b256 list"
  bs_disk_cache :: "(b256, 'sn) fmap"

definition block_states_new :: "nat \<Rightarrow> ('st, 'sn) block_states" where
  "block_states_new limit =
     \<lparr> bs_states = fmempty, bs_on_disk_states = fmempty, bs_in_memory_limit = limit,
       bs_min_in_memory_limit = min limit MIN_HISTORY_LIMIT,
       bs_max_on_disk_limit = MAX_ON_DISK_HISTORY_LIMIT, bs_oldest_on_disk = [], bs_present = [],
       bs_disk_cache = fmempty \<rparr>"

definition memory_only :: "('st, 'sn) block_states \<Rightarrow> ('st, 'sn) block_states" where
  "memory_only s = s\<lparr> bs_max_on_disk_limit := 0 \<rparr>"

definition is_memory_only :: "('st, 'sn) block_states \<Rightarrow> bool" where
  "is_memory_only s \<longleftrightarrow> bs_max_on_disk_limit s = 0"

text \<open>The body of the first loop of \<^verbatim>\<open>enforce_limits\<close>.\<close>

definition evict_one :: "('st \<Rightarrow> 'st \<times> 'sn) \<Rightarrow> ('st, 'sn) block_states \<Rightarrow> ('st, 'sn) block_states" where
  "evict_one clear_into s =
     (case bs_present s of
        [] \<Rightarrow> s
      | hash # rest \<Rightarrow>
          let s1 = s\<lparr> bs_present := rest \<rparr> in
          (case fmlookup (bs_states s) hash of
             None \<Rightarrow> s1
           | Some state \<Rightarrow>
               let s2 = s1\<lparr> bs_states := fmdrop hash (bs_states s) \<rparr> in
               if is_memory_only s then s2
               else case clear_into state of (state', snapshot) \<Rightarrow>
                 s2\<lparr> bs_disk_cache := fmupd hash snapshot (bs_disk_cache s),
                     bs_on_disk_states := fmupd hash state' (bs_on_disk_states s),
                     bs_oldest_on_disk := bs_oldest_on_disk s @ [hash] \<rparr>))"

partial_function (option) enforce_memory ::
  "('st \<Rightarrow> 'st \<times> 'sn) \<Rightarrow> ('st, 'sn) block_states \<Rightarrow> ('st, 'sn) block_states option" where
  "enforce_memory clear_into s =
     (if bs_in_memory_limit s \<le> length (bs_present s)
      then enforce_memory clear_into (evict_one clear_into s) else Some s)"

text \<open>The second loop; with a positive limit it ends.\<close>

function enforce_disk :: "('st, 'sn) block_states \<Rightarrow> ('st, 'sn) block_states" where
  "enforce_disk s =
     (if \<not> is_memory_only s \<and> bs_max_on_disk_limit s \<le> length (bs_oldest_on_disk s)
      then case bs_oldest_on_disk s of
             [] \<Rightarrow> s
           | hash # rest \<Rightarrow>
               enforce_disk (s\<lparr> bs_oldest_on_disk := rest,
                                bs_on_disk_states := fmdrop hash (bs_on_disk_states s),
                                bs_disk_cache := fmdrop hash (bs_disk_cache s) \<rparr>)
      else s)"
  by pat_completeness auto
termination by (relation "measure (length \<circ> bs_oldest_on_disk)") auto

declare enforce_disk.simps [simp del]

definition enforce_limits ::
  "('st \<Rightarrow> 'st \<times> 'sn) \<Rightarrow> ('st, 'sn) block_states \<Rightarrow> ('st, 'sn) block_states option" where
  "enforce_limits clear_into s = map_option enforce_disk (enforce_memory clear_into s)"

text \<open>\<open>secs\<close> is \<^verbatim>\<open>block_time.as_secs()\<close>.\<close>

definition update_interval_mine_block_time ::
  "('st \<Rightarrow> 'st \<times> 'sn) \<Rightarrow> u64 \<Rightarrow> ('st, 'sn) block_states \<Rightarrow> ('st, 'sn) block_states option" where
  "update_interval_mine_block_time clear_into secs s =
     (if secs \<le> 2 then enforce_limits clear_into (s\<lparr> bs_in_memory_limit := DEFAULT_HISTORY_LIMIT * 3 \<rparr>)
      else Some s)"

definition states_insert ::
  "('st \<Rightarrow> 'st \<times> 'sn) \<Rightarrow> b256 \<Rightarrow> 'st \<Rightarrow> ('st, 'sn) block_states \<Rightarrow> ('st, 'sn) block_states option" where
  "states_insert clear_into hash state s =
     (let s1 = (if \<not> is_memory_only s \<and> bs_in_memory_limit s \<le> length (bs_present s)
                then s\<lparr> bs_in_memory_limit := max (bs_in_memory_limit s - 1) (bs_min_in_memory_limit s) \<rparr>
                else s)
      in map_option (\<lambda>s2. s2\<lparr> bs_states := fmupd hash state (bs_states s2), bs_present := bs_present s2 @ [hash] \<rparr>)
           (enforce_limits clear_into s1))"

definition states_get ::
  "('sn \<Rightarrow> 'st \<Rightarrow> 'st) \<Rightarrow> b256 \<Rightarrow> ('st, 'sn) block_states \<Rightarrow> ('st, 'sn) block_states \<times> 'st option" where
  "states_get init_from hash s =
     (case fmlookup (bs_states s) hash of
        Some state \<Rightarrow> (s, Some state)
      | None \<Rightarrow>
          (case (fmlookup (bs_on_disk_states s) hash, fmlookup (bs_disk_cache s) hash) of
             (Some state, Some cached) \<Rightarrow>
               let state' = init_from cached state in
               (s\<lparr> bs_on_disk_states := fmupd hash state' (bs_on_disk_states s) \<rparr>, Some state')
           | _ \<Rightarrow> (s, None)))"

definition set_cache_limit :: "nat \<Rightarrow> ('st, 'sn) block_states \<Rightarrow> ('st, 'sn) block_states" where
  "set_cache_limit limit s = s\<lparr> bs_in_memory_limit := limit \<rparr>"

definition states_clear :: "('st, 'sn) block_states \<Rightarrow> ('st, 'sn) block_states" where
  "states_clear s =
     s\<lparr> bs_states := fmempty, bs_on_disk_states := fmempty, bs_present := [], bs_oldest_on_disk := [],
        bs_disk_cache := fold fmdrop (bs_oldest_on_disk s) (bs_disk_cache s) \<rparr>"

text \<open>The \<^verbatim>\<open>--prune-history\<close> setting (\<^verbatim>\<open>config.rs\<close>) and the states the backend starts with.\<close>

record prune_config =
  pc_enabled :: bool
  pc_max_memory_history :: "nat option"

definition prune_config_from_args :: "nat option option \<Rightarrow> prune_config" where
  "prune_config_from_args v =
     (case v of
        None \<Rightarrow> \<lparr> pc_enabled = False, pc_max_memory_history = None \<rparr>
      | Some m \<Rightarrow> \<lparr> pc_enabled = True, pc_max_memory_history = m \<rparr>)"

definition is_state_history_supported :: "prune_config \<Rightarrow> bool" where
  "is_state_history_supported c \<longleftrightarrow> \<not> pc_enabled c \<or> pc_max_memory_history c \<noteq> None"

definition initial_states :: "prune_config \<Rightarrow> ('st, 'sn) block_states" where
  "initial_states c =
     (if pc_enabled c
      then memory_only (case pc_max_memory_history c of
             Some limit \<Rightarrow> block_states_new limit
           | None \<Rightarrow> block_states_new DEFAULT_HISTORY_LIMIT)
      else block_states_new DEFAULT_HISTORY_LIMIT)"

section \<open>The chain\<close>

record 'tr mined_transaction =
  mt_info :: "'tr transaction_info"
  mt_receipt :: typed_receipt
  mt_block_hash :: b256
  mt_block_number :: u64

record 'tr blockchain_storage =
  cs_blocks :: "(b256, block) fmap"
  cs_hashes :: "(u64, b256) fmap"
  cs_best_hash :: b256
  cs_best_number :: u64
  cs_genesis_hash :: b256
  cs_transactions :: "(tx_hash, 'tr mined_transaction) fmap"
  cs_total_difficulty :: u256

datatype block_tag = Latest | Earliest | PendingBlock | BlockNumber u64 | Safe | Finalized

datatype block_id = BlockHash b256 | BlockTag block_tag

text \<open>
  \<open>oh\<close> and \<open>tr\<close> are the roots of \<^verbatim>\<open>Block::new\<close>, \<open>hash_slow\<close> is the header hash of \<^verbatim>\<open>alloy\<close>. The result is \<open>None\<close>
  when the gas limit of the environment does not fit into 128 bits.
\<close>

definition storage_new ::
  "(header list \<Rightarrow> b256) \<Rightarrow> (maybe_impersonated_transaction list \<Rightarrow> b256) \<Rightarrow> (header \<Rightarrow> b256) \<Rightarrow>
   block_env \<Rightarrow> u128 option \<Rightarrow> u64 \<Rightarrow> 'tr blockchain_storage option" where
  "storage_new oh tr hash_slow env base_fee timestamp =
     map_option (\<lambda>limit.
       let partial_header = partial_header_default
             \<lparr> ph_timestamp := timestamp, ph_base_fee := base_fee, ph_gas_limit := limit,
               ph_beneficiary := be_coinbase env, ph_difficulty := be_difficulty env,
               ph_blob_gas_used := map_option (\<lambda>_. 0) (be_blob_excess_gas_and_price env),
               ph_excess_blob_gas := map_option ucast (get_blob_excess_gas env) \<rparr>;
           block = block_new oh tr partial_header [] [];
           genesis_hash = hash_slow (bk_header block)
       in \<lparr> cs_blocks = fmupd genesis_hash block fmempty, cs_hashes = fmupd 0 genesis_hash fmempty,
            cs_best_hash = genesis_hash, cs_best_number = 0, cs_genesis_hash = genesis_hash,
            cs_transactions = fmempty, cs_total_difficulty = 0 \<rparr>) (to_narrow (be_gas_limit env))"

definition storage_forked :: "u64 \<Rightarrow> b256 \<Rightarrow> u256 \<Rightarrow> 'tr blockchain_storage" where
  "storage_forked block_number block_hash total_difficulty =
     \<lparr> cs_blocks = fmempty, cs_hashes = fmupd block_number block_hash fmempty, cs_best_hash = block_hash,
       cs_best_number = block_number, cs_genesis_hash = 0, cs_transactions = fmempty,
       cs_total_difficulty = total_difficulty \<rparr>"

definition storage_empty :: "'tr blockchain_storage" where
  "storage_empty =
     \<lparr> cs_blocks = fmempty, cs_hashes = fmempty, cs_best_hash = 0, cs_best_number = 0, cs_genesis_hash = 0,
       cs_transactions = fmempty, cs_total_difficulty = 0 \<rparr>"

definition remove_block_transactions ::
  "(maybe_impersonated_transaction \<Rightarrow> tx_hash) \<Rightarrow> b256 \<Rightarrow> 'tr blockchain_storage \<Rightarrow> 'tr blockchain_storage" where
  "remove_block_transactions tx_hash_of block_hash s =
     (case fmlookup (cs_blocks s) block_hash of
        None \<Rightarrow> s
      | Some b \<Rightarrow>
          s\<lparr> cs_transactions := fold (\<lambda>tx. fmdrop (tx_hash_of tx)) (bk_transactions b) (cs_transactions s),
             cs_blocks := fmupd block_hash (b\<lparr> bk_transactions := [] \<rparr>) (cs_blocks s) \<rparr>)"

definition remove_block_transactions_by_number ::
  "(maybe_impersonated_transaction \<Rightarrow> tx_hash) \<Rightarrow> u64 \<Rightarrow> 'tr blockchain_storage \<Rightarrow> 'tr blockchain_storage" where
  "remove_block_transactions_by_number tx_hash_of num s =
     (case fmlookup (cs_hashes s) num of
        None \<Rightarrow> s
      | Some hash \<Rightarrow> remove_block_transactions tx_hash_of hash s)"

fun storage_hash :: "block_tag \<Rightarrow> 'tr blockchain_storage \<Rightarrow> b256 option" where
  "storage_hash Latest s = Some (cs_best_hash s)"
| "storage_hash Earliest s = Some (cs_genesis_hash s)"
| "storage_hash PendingBlock s = None"
| "storage_hash (BlockNumber num) s = fmlookup (cs_hashes s) num"
| "storage_hash Safe s =
     (if 32 < cs_best_number s then fmlookup (cs_hashes s) (cs_best_number s - 32) else Some (cs_genesis_hash s))"
| "storage_hash Finalized s =
     (if 32 * 2 < cs_best_number s then fmlookup (cs_hashes s) (cs_best_number s - 32 * 2)
      else Some (cs_genesis_hash s))"

fun chain_hash :: "block_id \<Rightarrow> 'tr blockchain_storage \<Rightarrow> b256 option" where
  "chain_hash (BlockHash h) s = Some h"
| "chain_hash (BlockTag num) s = storage_hash num s"

definition get_block_by_hash :: "'tr blockchain_storage \<Rightarrow> b256 \<Rightarrow> block option" where
  "get_block_by_hash s h = fmlookup (cs_blocks s) h"

definition get_transaction_by_hash :: "'tr blockchain_storage \<Rightarrow> tx_hash \<Rightarrow> 'tr mined_transaction option" where
  "get_transaction_by_hash s h = fmlookup (cs_transactions s) h"

definition blocks_count :: "'tr blockchain_storage \<Rightarrow> nat" where
  "blocks_count s = fcard (fmdom (cs_blocks s))"

definition serialized_blocks :: "b256 iter_order \<Rightarrow> 'tr blockchain_storage \<Rightarrow> serializable_block list" where
  "serialized_blocks it s =
     map block_to_serializable (List.map_filter (fmlookup (cs_blocks s)) (it (fmdom (cs_blocks s))))"

definition load_block :: "(header \<Rightarrow> b256) \<Rightarrow> serializable_block \<Rightarrow> 'tr blockchain_storage \<Rightarrow> 'tr blockchain_storage" where
  "load_block hash_slow sb s =
     (let b = serializable_to_block sb;
          block_hash = hash_slow (bk_header b);
          block_number = hd_number (bk_header b)
      in s\<lparr> cs_blocks := fmupd block_hash b (cs_blocks s),
            cs_hashes := fmupd block_number block_hash (cs_hashes s) \<rparr>)"

definition load_blocks :: "(header \<Rightarrow> b256) \<Rightarrow> serializable_block list \<Rightarrow> 'tr blockchain_storage \<Rightarrow> 'tr blockchain_storage" where
  "load_blocks hash_slow bs s = fold (load_block hash_slow) bs s"

section \<open>Eviction\<close>

lemma evict_one_limits [simp]:
  "bs_in_memory_limit (evict_one c s) = bs_in_memory_limit s"
  "bs_min_in_memory_limit (evict_one c s) = bs_min_in_memory_limit s"
  "bs_max_on_disk_limit (evict_one c s) = bs_max_on_disk_limit s"
  "bs_present (evict_one c s) = tl (bs_present s)"
  "is_memory_only (evict_one c s) = is_memory_only s"
  by (auto simp: evict_one_def is_memory_only_def Let_def split: list.split option.split prod.split)

lemma evict_limits [simp]:
  "bs_in_memory_limit ((evict_one c ^^ k) s) = bs_in_memory_limit s"
  "bs_min_in_memory_limit ((evict_one c ^^ k) s) = bs_min_in_memory_limit s"
  "bs_max_on_disk_limit ((evict_one c ^^ k) s) = bs_max_on_disk_limit s"
  "bs_present ((evict_one c ^^ k) s) = drop k (bs_present s)"
  "is_memory_only ((evict_one c ^^ k) s) = is_memory_only s"
  by (induction k) (simp_all add: drop_Suc tl_drop)

lemma enforce_memory_evict:
  assumes "0 < bs_in_memory_limit s"
  shows "enforce_memory c s = Some ((evict_one c ^^ (Suc (length (bs_present s)) - bs_in_memory_limit s)) s)"
  using assms
proof (induction "length (bs_present s)" arbitrary: s rule: less_induct)
  case less
  show ?case
  proof (cases "bs_in_memory_limit s \<le> length (bs_present s)")
    case True
    then have len: "length (bs_present (evict_one c s)) < length (bs_present s)" using less.prems by auto
    have "enforce_memory c s = enforce_memory c (evict_one c s)"
      using True by (subst enforce_memory.simps) simp
    also have "\<dots> = Some ((evict_one c ^^ (length (bs_present s) - bs_in_memory_limit s)) (evict_one c s))"
      using less.hyps [OF len] less.prems True len by simp
    also have "\<dots> = Some ((evict_one c ^^ Suc (length (bs_present s) - bs_in_memory_limit s)) s)"
      by (simp add: funpow_swap1)
    finally show ?thesis using True by (simp add: Suc_diff_le del: funpow.simps)
  next
    case False
    then show ?thesis by (subst enforce_memory.simps) simp
  qed
qed

lemma enforce_memory_diverges:
  assumes "bs_in_memory_limit s = 0"
  shows "enforce_memory c s = None"
proof -
  have "bs_in_memory_limit s \<noteq> 0" if "enforce_memory c s = Some s'" for s'
    by (rule enforce_memory.raw_induct [where P = "\<lambda>c s s'. bs_in_memory_limit s \<noteq> 0", OF _ that])
      (fastforce split: if_splits)
  then show ?thesis using assms by (cases "enforce_memory c s") auto
qed

lemma enforce_disk_limits [simp]:
  "bs_in_memory_limit (enforce_disk s) = bs_in_memory_limit s"
  "bs_min_in_memory_limit (enforce_disk s) = bs_min_in_memory_limit s"
  "bs_max_on_disk_limit (enforce_disk s) = bs_max_on_disk_limit s"
  "bs_present (enforce_disk s) = bs_present s"
  "bs_states (enforce_disk s) = bs_states s"
  by (induction s rule: enforce_disk.induct; subst enforce_disk.simps; simp split: list.split)+

lemma enforce_disk_memory_only [simp]: "is_memory_only (enforce_disk s) = is_memory_only s"
  by (simp add: is_memory_only_def)

definition purged :: "('st, 'sn) block_states \<Rightarrow> nat" where
  "purged s = (if is_memory_only s then 0 else Suc (length (bs_oldest_on_disk s)) - bs_max_on_disk_limit s)"

lemma enforce_disk_drop:
  "bs_oldest_on_disk (enforce_disk s) = drop (purged s) (bs_oldest_on_disk s) \<and>
   (\<forall>h. fmlookup (bs_on_disk_states (enforce_disk s)) h =
      (if h \<in> set (take (purged s) (bs_oldest_on_disk s)) then None else fmlookup (bs_on_disk_states s) h)) \<and>
   (\<forall>h. fmlookup (bs_disk_cache (enforce_disk s)) h =
      (if h \<in> set (take (purged s) (bs_oldest_on_disk s)) then None else fmlookup (bs_disk_cache s) h))"
proof (induction s rule: enforce_disk.induct)
  case (1 s)
  show ?case
  proof (cases "\<not> is_memory_only s \<and> bs_max_on_disk_limit s \<le> length (bs_oldest_on_disk s)")
    case True
    then obtain hash rest where old: "bs_oldest_on_disk s = hash # rest"
      by (cases "bs_oldest_on_disk s") (auto simp: is_memory_only_def)
    let ?s = "s\<lparr> bs_oldest_on_disk := rest, bs_on_disk_states := fmdrop hash (bs_on_disk_states s),
                 bs_disk_cache := fmdrop hash (bs_disk_cache s) \<rparr>"
    have eq: "enforce_disk s = enforce_disk ?s" using True old by (subst enforce_disk.simps) simp
    have p: "purged s = Suc (purged ?s)"
      using True old by (simp add: purged_def is_memory_only_def Suc_diff_le)
    show ?thesis using 1 [OF True old] unfolding eq p old by auto
  next
    case False
    then have "enforce_disk s = s" by (subst enforce_disk.simps) (simp only: if_False)
    then show ?thesis using False by (auto simp: purged_def)
  qed
qed

section \<open>What stays readable\<close>

definition bs_inv :: "('st, 'sn) block_states \<Rightarrow> bool" where
  "bs_inv s \<longleftrightarrow>
     distinct (bs_present s @ bs_oldest_on_disk s) \<and>
     (\<forall>h. h \<in> set (bs_present s) \<longleftrightarrow> fmlookup (bs_states s) h \<noteq> None) \<and>
     (\<forall>h. h \<in> set (bs_oldest_on_disk s) \<longleftrightarrow> fmlookup (bs_on_disk_states s) h \<noteq> None) \<and>
     (\<forall>h. h \<in> set (bs_oldest_on_disk s) \<longrightarrow> fmlookup (bs_disk_cache s) h \<noteq> None) \<and>
     (is_memory_only s \<longrightarrow> bs_oldest_on_disk s = [])"

lemma bs_invI:
  assumes "distinct (bs_present s @ bs_oldest_on_disk s)"
    and "\<And>h. h \<in> set (bs_present s) \<longleftrightarrow> fmlookup (bs_states s) h \<noteq> None"
    and "\<And>h. h \<in> set (bs_oldest_on_disk s) \<longleftrightarrow> fmlookup (bs_on_disk_states s) h \<noteq> None"
    and "\<And>h. h \<in> set (bs_oldest_on_disk s) \<Longrightarrow> fmlookup (bs_disk_cache s) h \<noteq> None"
    and "is_memory_only s \<Longrightarrow> bs_oldest_on_disk s = []"
  shows "bs_inv s"
  using assms by (simp add: bs_inv_def)

lemma bs_invD:
  assumes "bs_inv s"
  shows "distinct (bs_present s @ bs_oldest_on_disk s)"
    and "h \<in> set (bs_present s) \<longleftrightarrow> fmlookup (bs_states s) h \<noteq> None"
    and "h \<in> set (bs_oldest_on_disk s) \<longleftrightarrow> fmlookup (bs_on_disk_states s) h \<noteq> None"
    and "h \<in> set (bs_oldest_on_disk s) \<Longrightarrow> fmlookup (bs_disk_cache s) h \<noteq> None"
    and "is_memory_only s \<Longrightarrow> bs_oldest_on_disk s = []"
  using assms by (auto simp: bs_inv_def)

lemma bs_inv_new: "bs_inv (block_states_new limit)" "bs_inv (memory_only (block_states_new limit))"
  by (simp_all add: bs_inv_def block_states_new_def memory_only_def)

text \<open>The block hashes whose state can be had, oldest first.\<close>

definition bs_history :: "('st, 'sn) block_states \<Rightarrow> b256 list" where
  "bs_history s = bs_oldest_on_disk s @ bs_present s"

text \<open>The memory limit that \<^verbatim>\<open>insert\<close> goes by: in the mode with a disk it shrinks by one whenever it is reached.\<close>

definition insert_limit :: "('st, 'sn) block_states \<Rightarrow> nat" where
  "insert_limit s =
     (if \<not> is_memory_only s \<and> bs_in_memory_limit s \<le> length (bs_present s)
      then max (bs_in_memory_limit s - 1) (bs_min_in_memory_limit s) else bs_in_memory_limit s)"

definition last_n :: "nat \<Rightarrow> 'a list \<Rightarrow> 'a list" where
  "last_n n xs = drop (length xs - n) xs"

lemma length_last_n: "length (last_n n xs) = min n (length xs)"
  by (simp add: last_n_def)

lemma set_last_n: "set (last_n n xs) \<subseteq> set xs"
  by (simp add: last_n_def set_drop_subset)

lemma distinct_last_n: "distinct xs \<Longrightarrow> distinct (last_n n xs)"
  by (simp add: last_n_def)

lemma last_n_append: "last_n n (last_n n xs @ ys) = last_n n (xs @ ys)"
  by (cases "length xs \<le> n") (auto simp: last_n_def add.commute)

fun insert_all ::
  "('st \<Rightarrow> 'st \<times> 'sn) \<Rightarrow> (b256 \<times> 'st) list \<Rightarrow> ('st, 'sn) block_states \<Rightarrow> ('st, 'sn) block_states option" where
  "insert_all clear_into [] s = Some s"
| "insert_all clear_into ((hash, state) # xs) s =
     Option.bind (states_insert clear_into hash state s) (insert_all clear_into xs)"

context state_snapshotting
begin

definition bs_view :: "('st, 'sn) block_states \<Rightarrow> b256 \<Rightarrow> 'v option" where
  "bs_view s h = map_option view (snd (states_get init_from h s))"

lemma bs_view_lookup:
  "bs_view s h =
     (case fmlookup (bs_states s) h of
        Some st \<Rightarrow> Some (view st)
      | None \<Rightarrow>
          (case (fmlookup (bs_on_disk_states s) h, fmlookup (bs_disk_cache s) h) of
             (Some st, Some sn) \<Rightarrow> Some (view (init_from sn st))
           | _ \<Rightarrow> None))"
  by (auto simp: bs_view_def states_get_def Let_def split: option.split)

lemma bs_view_domain:
  assumes "bs_inv s"
  shows "bs_view s h \<noteq> None \<longleftrightarrow> h \<in> set (bs_history s)"
  using bs_invD(2-4) [OF assms, of h] unfolding bs_view_lookup bs_history_def by (auto split: option.split)

text \<open>The states that \<open>s'\<close> still has, of those of \<open>s\<close>: the most recent ones, unchanged.\<close>

definition keeps :: "('st, 'sn) block_states \<Rightarrow> ('st, 'sn) block_states \<Rightarrow> bool" where
  "keeps s s' \<longleftrightarrow> bs_inv s' \<and> suffix (bs_history s') (bs_history s) \<and>
     (\<forall>g\<in>set (bs_history s'). bs_view s' g = bs_view s g)"

lemma keeps_refl: "bs_inv s \<Longrightarrow> keeps s s"
  by (simp add: keeps_def)

lemma keeps_trans: "keeps s s1 \<Longrightarrow> keeps s1 s2 \<Longrightarrow> keeps s s2"
  unfolding keeps_def by (metis set_mono_suffix subsetD suffix_order.trans)

lemma keeps_evict_one:
  assumes inv: "bs_inv s" and pr: "bs_present s \<noteq> []"
  shows "keeps s (evict_one clear_into s)"
proof -
  obtain h rest where pr: "bs_present s = h # rest" using pr by (cases "bs_present s") auto
  obtain st where st: "fmlookup (bs_states s) h = Some st" using bs_invD(2) [OF inv, of h] pr by auto
  obtain st' sn where c: "clear_into st = (st', sn)" by (meson surj_pair)
  have v: "view (init_from sn st') = view st" using restore [of st] c by simp
  note dist = bs_invD(1) [OF inv, unfolded pr]
  then have fresh: "h \<notin> set rest" "h \<notin> set (bs_oldest_on_disk s)" by auto
  have pres: "g \<in> set rest \<longleftrightarrow> g \<noteq> h \<and> fmlookup (bs_states s) g \<noteq> None" for g
    using bs_invD(2) [OF inv, of g] fresh(1) pr by auto
  show ?thesis
  proof (cases "is_memory_only s")
    case True
    have ev: "evict_one clear_into s = s\<lparr> bs_present := rest, bs_states := fmdrop h (bs_states s) \<rparr>"
      using True by (simp add: evict_one_def pr st)
    have old: "bs_oldest_on_disk s = []" using bs_invD(5) [OF inv True] .
    have "bs_inv (evict_one clear_into s)" unfolding ev
      by (rule bs_invI) (use dist pres bs_invD(3,4) [OF inv] old in auto)
    moreover have "bs_view (evict_one clear_into s) g = bs_view s g" if "g \<in> set rest" for g
      using that fresh(1) unfolding ev bs_view_lookup by (auto split: option.split)
    moreover have "bs_history (evict_one clear_into s) = rest" "bs_history s = h # rest"
      unfolding ev bs_history_def by (simp_all add: old pr)
    ultimately show ?thesis by (simp add: keeps_def suffix_ConsI)
  next
    case False
    have ev: "evict_one clear_into s = s\<lparr> bs_present := rest, bs_states := fmdrop h (bs_states s),
        bs_disk_cache := fmupd h sn (bs_disk_cache s), bs_on_disk_states := fmupd h st' (bs_on_disk_states s),
        bs_oldest_on_disk := bs_oldest_on_disk s @ [h] \<rparr>"
      using False by (simp add: evict_one_def pr st c)
    have "bs_inv (evict_one clear_into s)" unfolding ev
      by (rule bs_invI) (use dist pres bs_invD(3,4) [OF inv] False in \<open>auto simp: is_memory_only_def\<close>)
    moreover have "bs_view (evict_one clear_into s) g = bs_view s g" for g
      using v st unfolding ev bs_view_lookup by (cases "g = h") (simp_all split: option.split)
    moreover have "bs_history (evict_one clear_into s) = bs_history s" unfolding ev bs_history_def by (simp add: pr)
    ultimately show ?thesis by (simp add: keeps_def)
  qed
qed

lemma keeps_evict:
  assumes "bs_inv s" and "k \<le> length (bs_present s)"
  shows "keeps s ((evict_one clear_into ^^ k) s)"
  using assms(2)
proof (induction k)
  case 0
  then show ?case using assms(1) by (simp add: keeps_refl)
next
  case (Suc k)
  let ?s = "(evict_one clear_into ^^ k) s"
  have "keeps s ?s" using Suc by simp
  moreover from this have "keeps ?s (evict_one clear_into ?s)"
    using Suc.prems by (intro keeps_evict_one) (auto simp: keeps_def)
  ultimately show ?case by (simp add: keeps_trans)
qed

lemma keeps_enforce_disk:
  assumes inv: "bs_inv s"
  shows "keeps s (enforce_disk s)"
proof -
  let ?t = "set (take (purged s) (bs_oldest_on_disk s))" and ?d = "drop (purged s) (bs_oldest_on_disk s)"
  note d = enforce_disk_drop [of s]
  have dist: "distinct (bs_present s @ ?d)" "?t \<inter> set (bs_present s) = {}"
    using bs_invD(1) [OF inv] by (auto dest: in_set_takeD in_set_dropD)
  have disj: "?t \<inter> set ?d = {}"
    using bs_invD(1) [OF inv] by (intro set_take_disj_set_drop_if_distinct) auto
  have old: "?t \<union> set ?d = set (bs_oldest_on_disk s)" by (metis append_take_drop_id set_append)
  have "bs_inv (enforce_disk s)"
  proof (rule bs_invI)
    show "distinct (bs_present (enforce_disk s) @ bs_oldest_on_disk (enforce_disk s))" using d dist(1) by simp
    show "h \<in> set (bs_present (enforce_disk s)) \<longleftrightarrow> fmlookup (bs_states (enforce_disk s)) h \<noteq> None" for h
      using bs_invD(2) [OF inv, of h] d by simp
    show "h \<in> set (bs_oldest_on_disk (enforce_disk s)) \<longleftrightarrow> fmlookup (bs_on_disk_states (enforce_disk s)) h \<noteq> None" for h
      using bs_invD(3) [OF inv, of h] d disj old by auto
    show "fmlookup (bs_disk_cache (enforce_disk s)) h \<noteq> None" if "h \<in> set (bs_oldest_on_disk (enforce_disk s))" for h
      using that bs_invD(4) [OF inv, of h] d disj old by auto
    show "is_memory_only (enforce_disk s) \<Longrightarrow> bs_oldest_on_disk (enforce_disk s) = []"
      using bs_invD(5) [OF inv] d by simp
  qed
  moreover have hist: "bs_history (enforce_disk s) = ?d @ bs_present s" by (simp add: bs_history_def d)
  moreover have "bs_view (enforce_disk s) g = bs_view s g" if "g \<in> set (bs_history (enforce_disk s))" for g
  proof -
    have "g \<notin> ?t" using that disj dist(2) hist by auto
    then show ?thesis using d by (simp add: bs_view_lookup split: option.split)
  qed
  moreover have "suffix (?d @ bs_present s) (bs_history s)"
    by (simp add: bs_history_def suffix_drop)
  ultimately show ?thesis by (simp add: keeps_def)
qed

lemma enforce_limits_spec:
  assumes inv: "bs_inv s" and pos: "0 < bs_in_memory_limit s"
  shows "\<exists>s'. enforce_limits clear_into s = Some s' \<and> keeps s s' \<and>
    bs_present s' = drop (Suc (length (bs_present s)) - bs_in_memory_limit s) (bs_present s) \<and>
    bs_in_memory_limit s' = bs_in_memory_limit s \<and> bs_min_in_memory_limit s' = bs_min_in_memory_limit s \<and>
    bs_max_on_disk_limit s' = bs_max_on_disk_limit s \<and>
    (\<not> is_memory_only s \<longrightarrow> length (bs_oldest_on_disk s') < bs_max_on_disk_limit s)"
proof -
  let ?k = "Suc (length (bs_present s)) - bs_in_memory_limit s"
  let ?s = "(evict_one clear_into ^^ ?k) s"
  have k1: "keeps s ?s" using pos by (intro keeps_evict [OF inv]) simp
  then have k2: "keeps ?s (enforce_disk ?s)" by (intro keeps_enforce_disk) (simp add: keeps_def)
  have "length (bs_oldest_on_disk (enforce_disk ?s)) < bs_max_on_disk_limit s" if "\<not> is_memory_only s"
    using that enforce_disk_drop [of ?s] by (simp add: purged_def is_memory_only_def)
  then show ?thesis
    using keeps_trans [OF k1 k2] enforce_memory_evict [OF pos] by (simp add: enforce_limits_def)
qed

lemma memory_limit_irrelevant [simp]:
  "bs_inv (s\<lparr> bs_in_memory_limit := l \<rparr>) = bs_inv s"
  "bs_history (s\<lparr> bs_in_memory_limit := l \<rparr>) = bs_history s"
  "bs_view (s\<lparr> bs_in_memory_limit := l \<rparr>) g = bs_view s g"
  by (simp_all add: bs_inv_def is_memory_only_def bs_history_def bs_view_lookup split: option.split)

lemma bs_view_insert:
  "bs_view (s\<lparr> bs_states := fmupd hash state (bs_states s), bs_present := p \<rparr>) g =
     (if g = hash then Some (view state) else bs_view s g)"
  by (simp add: bs_view_lookup split: option.split)

lemma states_insert_spec:
  assumes inv: "bs_inv s" and pos: "0 < insert_limit s" and new: "hash \<notin> set (bs_history s)"
  shows "\<exists>s' kept. states_insert clear_into hash state s = Some s' \<and> bs_inv s' \<and>
    bs_history s' = kept @ [hash] \<and> suffix kept (bs_history s) \<and>
    bs_view s' hash = Some (view state) \<and> (\<forall>g\<in>set kept. bs_view s' g = bs_view s g) \<and>
    bs_in_memory_limit s' = insert_limit s \<and> bs_min_in_memory_limit s' = bs_min_in_memory_limit s \<and>
    bs_max_on_disk_limit s' = bs_max_on_disk_limit s \<and>
    bs_present s' = drop (Suc (length (bs_present s)) - insert_limit s) (bs_present s) @ [hash] \<and>
    (\<not> is_memory_only s \<longrightarrow> length (bs_oldest_on_disk s') < bs_max_on_disk_limit s)"
proof -
  let ?s1 = "s\<lparr> bs_in_memory_limit := insert_limit s \<rparr>"
  let ?ins = "\<lambda>s. s\<lparr> bs_states := fmupd hash state (bs_states s), bs_present := bs_present s @ [hash] \<rparr>"
  have inv1: "bs_inv ?s1" using inv by simp
  obtain s2 where s2: "enforce_limits clear_into ?s1 = Some s2" and k1: "keeps ?s1 s2"
    and l: "bs_in_memory_limit s2 = insert_limit s" "bs_min_in_memory_limit s2 = bs_min_in_memory_limit s"
      "bs_max_on_disk_limit s2 = bs_max_on_disk_limit s"
      "bs_present s2 = drop (Suc (length (bs_present s)) - insert_limit s) (bs_present s)"
      "\<not> is_memory_only s \<longrightarrow> length (bs_oldest_on_disk s2) < bs_max_on_disk_limit s"
    using enforce_limits_spec [OF inv1] pos by (auto simp: is_memory_only_def)
  then have inv2: "bs_inv s2" and suf: "suffix (bs_history s2) (bs_history s)"
    and same: "\<And>g. g \<in> set (bs_history s2) \<Longrightarrow> bs_view s2 g = bs_view s g" using k1 by (auto simp: keeps_def)
  have new2: "hash \<notin> set (bs_history s2)" using new suf set_mono_suffix by blast
  then have fresh: "hash \<notin> set (bs_present s2)" "hash \<notin> set (bs_oldest_on_disk s2)" by (auto simp: bs_history_def)
  have ins: "states_insert clear_into hash state s = Some (?ins s2)"
    using s2 by (auto simp: states_insert_def insert_limit_def split: if_splits)
  have "bs_inv (?ins s2)"
    using bs_invD [OF inv2] fresh by (intro bs_invI) (auto simp: is_memory_only_def)
  moreover have "bs_view (?ins s2) hash = Some (view state)" by (simp add: bs_view_insert)
  moreover have "bs_view (?ins s2) g = bs_view s g" if "g \<in> set (bs_history s2)" for g
    using same [OF that] that new2 by (auto simp: bs_view_insert)
  moreover have "bs_history (?ins s2) = bs_history s2 @ [hash]" by (simp add: bs_history_def)
  ultimately show ?thesis using ins suf l by (intro exI [of _ "?ins s2"] exI [of _ "bs_history s2"]) simp
qed

lemma states_get_keeps:
  assumes inv: "bs_inv s"
  shows "bs_inv (fst (states_get init_from h s)) \<and> bs_history (fst (states_get init_from h s)) = bs_history s \<and>
    bs_view (fst (states_get init_from h s)) g = bs_view s g"
proof (cases "fmlookup (bs_states s) h = None \<and> fmlookup (bs_on_disk_states s) h \<noteq> None \<and> fmlookup (bs_disk_cache s) h \<noteq> None")
  case True
  then obtain st sn where st: "fmlookup (bs_states s) h = None" "fmlookup (bs_on_disk_states s) h = Some st"
    "fmlookup (bs_disk_cache s) h = Some sn" by auto
  then have g: "fst (states_get init_from h s) =
      s\<lparr> bs_on_disk_states := fmupd h (init_from sn st) (bs_on_disk_states s) \<rparr>"
    by (simp add: states_get_def Let_def)
  have "bs_inv (fst (states_get init_from h s))" unfolding g
    using bs_invD [OF inv] st(2) by (intro bs_invI) (auto simp: is_memory_only_def)
  then show ?thesis using st unfolding g by (auto simp: bs_history_def bs_view_lookup again split: option.split)
next
  case False
  then have "fst (states_get init_from h s) = s"
    by (auto simp: states_get_def Let_def split: option.split)
  then show ?thesis using inv by simp
qed

lemma states_insert_window:
  assumes inv: "bs_inv s" and mem: "is_memory_only s" and pos: "0 < bs_in_memory_limit s"
    and new: "hash \<notin> set (bs_history s)"
  shows "\<exists>s'. states_insert clear_into hash state s = Some s' \<and> bs_inv s' \<and> is_memory_only s' \<and>
    bs_in_memory_limit s' = bs_in_memory_limit s \<and>
    bs_history s' = last_n (bs_in_memory_limit s) (bs_history s @ [hash]) \<and>
    (\<forall>g\<in>set (bs_history s'). bs_view s' g = (if g = hash then Some (view state) else bs_view s g))"
proof -
  let ?L = "bs_in_memory_limit s"
  have L: "insert_limit s = ?L" using mem by (simp add: insert_limit_def)
  obtain s' kept where s': "states_insert clear_into hash state s = Some s'" "bs_inv s'"
    "bs_history s' = kept @ [hash]" "bs_view s' hash = Some (view state)"
    "\<forall>g\<in>set kept. bs_view s' g = bs_view s g" "bs_in_memory_limit s' = ?L"
    "bs_max_on_disk_limit s' = bs_max_on_disk_limit s"
    "bs_present s' = drop (Suc (length (bs_present s)) - ?L) (bs_present s) @ [hash]"
    using states_insert_spec [OF inv _ new, of state] pos unfolding L by blast
  then have mem': "is_memory_only s'" using mem by (simp add: is_memory_only_def)
  have "bs_history s = bs_present s" "bs_history s' = bs_present s'"
    using bs_invD(5) [OF inv mem] bs_invD(5) [OF s'(2) mem'] by (simp_all add: bs_history_def)
  then have "bs_history s' = last_n ?L (bs_history s @ [hash])"
    using s'(8) pos by (simp add: last_n_def)
  moreover have "\<forall>g\<in>set (bs_history s'). bs_view s' g = (if g = hash then Some (view state) else bs_view s g)"
    using s'(3-5) by auto
  ultimately show ?thesis using s'(1,2,6) mem' by blast
qed

lemma insert_all_window:
  assumes "bs_inv s" and "is_memory_only s" and "0 < bs_in_memory_limit s"
    and "length (bs_history s) \<le> bs_in_memory_limit s" and "distinct (bs_history s @ map fst xs)"
  shows "\<exists>s'. insert_all clear_into xs s = Some s' \<and> bs_inv s' \<and>
    bs_history s' = last_n (bs_in_memory_limit s) (bs_history s @ map fst xs) \<and>
    (\<forall>g\<in>set (bs_history s'). bs_view s' g =
       (case map_of xs g of Some state \<Rightarrow> Some (view state) | None \<Rightarrow> bs_view s g))"
  using assms
proof (induction xs arbitrary: s)
  case Nil
  then show ?case by (simp add: last_n_def)
next
  case (Cons x xs)
  obtain hash state where x: "x = (hash, state)" by (cases x)
  have new: "hash \<notin> set (bs_history s)" using Cons.prems(5) x by auto
  obtain s1 where s1: "states_insert clear_into hash state s = Some s1" "bs_inv s1" "is_memory_only s1"
    "bs_in_memory_limit s1 = bs_in_memory_limit s"
    and h1: "bs_history s1 = last_n (bs_in_memory_limit s) (bs_history s @ [hash])"
    and v1: "\<forall>g\<in>set (bs_history s1). bs_view s1 g = (if g = hash then Some (view state) else bs_view s g)"
    using states_insert_window [OF Cons.prems(1-3) new, of state] by blast
  have "distinct (bs_history s1 @ map fst xs)"
    using Cons.prems(5) set_last_n [of "bs_in_memory_limit s" "bs_history s @ [hash]"]
    unfolding h1 x by (auto simp: distinct_last_n)
  then obtain s' where s': "insert_all clear_into xs s1 = Some s'" "bs_inv s'"
    and h': "bs_history s' = last_n (bs_in_memory_limit s) (bs_history s1 @ map fst xs)"
    and v': "\<forall>g\<in>set (bs_history s'). bs_view s' g =
       (case map_of xs g of Some state \<Rightarrow> Some (view state) | None \<Rightarrow> bs_view s1 g)"
    using Cons.IH [of s1] s1 Cons.prems(3) by (auto simp: h1 length_last_n)
  have hist: "bs_history s' = last_n (bs_in_memory_limit s) (bs_history s @ map fst (x # xs))"
    unfolding h' h1 by (simp add: last_n_append x)
  have "bs_view s' g = (case map_of (x # xs) g of Some state \<Rightarrow> Some (view state) | None \<Rightarrow> bs_view s g)"
    if g: "g \<in> set (bs_history s')" for g
  proof (cases "map_of xs g")
    case None
    then have "g \<in> set (bs_history s1)"
      using g set_last_n [of "bs_in_memory_limit s" "bs_history s1 @ map fst xs"] unfolding h' by (auto simp: map_of_eq_None_iff)
    then show ?thesis using v' v1 g None by (simp add: x)
  next
    case (Some st)
    then have "g \<noteq> hash" using Cons.prems(5) x by (force dest: map_of_SomeD)
    then show ?thesis using v' g Some by (simp add: x)
  qed
  then show ?case using s1(1) s' hist by (simp add: x)
qed

end

section \<open>Properties\<close>

text \<open>Reading a state from the node's own database type.\<close>

definition read_state :: "(cache_db, state_snapshot) block_states \<Rightarrow> b256 \<Rightarrow> cache_db option" where
  "read_state s h = snd (states_get (init_from_snapshot sorted_list_of_fset) h s)"

lemma bs_view_read: "cache_db_snap.bs_view s h = map_option db_view (read_state s h)"
  by (simp add: cache_db_snap.bs_view_def read_state_def)



text \<open>
  With \<^verbatim>\<open>--prune-history n\<close> for a positive \<open>n\<close> the node answers for exactly the states of the last \<open>n\<close> blocks
  it inserted: after any number of insertions under distinct hashes, the last \<open>n\<close> hashes and no other
  are readable, each with the state inserted under it.
\<close>

theorem prune_history_window:
  assumes "0 < n" and "distinct (map fst xs)"
  shows "\<exists>s. insert_all (clear_into_snapshot sorted_list_of_fset) xs
      (initial_states (prune_config_from_args (Some (Some n)))) = Some s \<and>
    (\<forall>h. map_option db_view (read_state s h) =
       (if h \<in> set (drop (length xs - n) (map fst xs)) then map_option db_view (map_of xs h) else None))"
proof -
  let ?s = "initial_states (prune_config_from_args (Some (Some n))) :: (cache_db, state_snapshot) block_states"
  have s: "?s = memory_only (block_states_new n)" by (simp add: initial_states_def prune_config_from_args_def)
  have init: "bs_inv ?s" "is_memory_only ?s" "bs_in_memory_limit ?s = n" "bs_history ?s = []"
    by (simp_all add: s bs_inv_new) (simp_all add: memory_only_def block_states_new_def is_memory_only_def bs_history_def)
  obtain s' where s': "insert_all (clear_into_snapshot sorted_list_of_fset) xs ?s = Some s'" "bs_inv s'"
    and hist: "bs_history s' = drop (length xs - n) (map fst xs)"
    and view: "\<forall>g\<in>set (bs_history s'). cache_db_snap.bs_view s' g =
       (case map_of xs g of Some state \<Rightarrow> Some (db_view state) | None \<Rightarrow> cache_db_snap.bs_view ?s g)"
    using cache_db_snap.insert_all_window [OF init(1,2), of xs] assms init(3,4) by (auto simp: last_n_def)
  have "cache_db_snap.bs_view s' h =
     (if h \<in> set (drop (length xs - n) (map fst xs)) then map_option db_view (map_of xs h) else None)" for h
  proof (cases "h \<in> set (bs_history s')")
    case True
    then have "map_of xs h \<noteq> None" unfolding hist by (auto simp: map_of_eq_None_iff dest: in_set_dropD)
    then show ?thesis using True view hist by (auto split: option.split)
  next
    case False
    then show ?thesis using cache_db_snap.bs_view_domain [OF s'(2), of h] unfolding hist by metis
  qed
  then show ?thesis using s'(1) unfolding bs_view_read by blast
qed

theorem prune_history_window_witness:
  "0 < (1::nat) \<and> distinct (map fst [(7, sample_db), (8 :: b256, sample_db)]) \<and>
   (\<exists>s. insert_all (clear_into_snapshot sorted_list_of_fset) [(7, sample_db), (8, sample_db)]
      (initial_states (prune_config_from_args (Some (Some 1)))) = Some s \<and> read_state s 7 = None \<and>
      map_option db_view (read_state s 8) = Some (db_view sample_db))"
proof -
  let ?xs = "[(7, sample_db), (8 :: b256, sample_db)]"
  have hyp: "0 < (1::nat)" "distinct (map fst ?xs)" by simp_all
  obtain s where s: "insert_all (clear_into_snapshot sorted_list_of_fset) ?xs
      (initial_states (prune_config_from_args (Some (Some 1)))) = Some s"
    and view: "\<forall>h. map_option db_view (read_state s h) =
       (if h \<in> set (drop (length ?xs - 1) (map fst ?xs)) then map_option db_view (map_of ?xs h) else None)"
    using prune_history_window [OF hyp] by blast
  have "read_state s 7 = None" "map_option db_view (read_state s 8) = Some (db_view sample_db)"
    using view [rule_format, of 7] view [rule_format, of 8] by simp_all
  with s hyp show ?thesis by blast
qed

text \<open>
  C30. Exactly one setting of \<^verbatim>\<open>--prune-history\<close> stops the node at the first block: with \<^verbatim>\<open>--prune-history 0\<close> the
  eviction loop of \<^verbatim>\<open>enforce_limits\<close> waits for a negative number of states in memory and never ends.
\<close>

theorem prune_history_zero_hangs:
  fixes clear_into :: "'st \<Rightarrow> 'st \<times> 'sn"
  shows "states_insert clear_into hash state (initial_states (prune_config_from_args v)) = None \<longleftrightarrow> v = Some (Some 0)"
proof -
  have lim: "bs_in_memory_limit (initial_states (prune_config_from_args v) :: ('st, 'sn) block_states) =
      (case v of Some (Some n) \<Rightarrow> n | _ \<Rightarrow> 500)" (is "bs_in_memory_limit ?s = _")
    by (auto simp: initial_states_def prune_config_from_args_def memory_only_def block_states_new_def
        DEFAULT_HISTORY_LIMIT_def split: option.split)
  have "bs_present ?s = []"
    by (auto simp: initial_states_def prune_config_from_args_def memory_only_def block_states_new_def split: option.split)
  moreover have "is_memory_only ?s" if "bs_in_memory_limit ?s = 0"
    using that by (auto simp: initial_states_def prune_config_from_args_def memory_only_def block_states_new_def
        is_memory_only_def DEFAULT_HISTORY_LIMIT_def split: option.splits)
  ultimately have ins: "states_insert clear_into hash state ?s = None \<longleftrightarrow> enforce_memory clear_into ?s = None"
    by (auto simp: states_insert_def enforce_limits_def)
  have "enforce_memory clear_into ?s = None \<longleftrightarrow> bs_in_memory_limit ?s = 0"
    using enforce_memory_evict [of ?s clear_into] enforce_memory_diverges [of ?s clear_into]
    by (cases "bs_in_memory_limit ?s") simp_all
  then show ?thesis unfolding ins lim by (auto split: option.split)
qed

section \<open>Dumping and loading the chain\<close>

lemma fmlookup_fold_fmupd:
  "fmlookup (fold (\<lambda>x. fmupd (f x) (g x)) xs m) k =
     (case find (\<lambda>x. f x = k) (rev xs) of Some x \<Rightarrow> Some (g x) | None \<Rightarrow> fmlookup m k)"
  by (induction xs rule: rev_induct) auto

lemma find_SomeD: "find P (rev xs) = Some x \<Longrightarrow> x \<in> set xs \<and> P x"
  using find_Some_iff [of P "rev xs" x] nth_mem [of _ "rev xs"] by auto

lemma load_blocks_fields:
  "cs_blocks (load_blocks hash_slow bs t) =
     fold (\<lambda>sb. fmupd (hash_slow (bk_header (serializable_to_block sb))) (serializable_to_block sb)) bs (cs_blocks t)"
  "cs_hashes (load_blocks hash_slow bs t) =
     fold (\<lambda>sb. fmupd (hd_number (bk_header (serializable_to_block sb)))
                  (hash_slow (bk_header (serializable_to_block sb)))) bs (cs_hashes t)"
  by (induction bs arbitrary: t) (simp_all add: load_blocks_def load_block_def Let_def)

lemma set_serialized_blocks:
  assumes "iter_ok it"
  shows "sb \<in> set (serialized_blocks it s) \<longleftrightarrow> (\<exists>h b. fmlookup (cs_blocks s) h = Some b \<and> sb = block_to_serializable b)"
  using assms by (force simp: serialized_blocks_def List.map_filter_def iter_ok_def fmlookup_dom_iff)

text \<open>
  Dumping the blocks of a chain and loading them into another one: every dumped block is found under
  its hash (with impersonated senders forgotten), other blocks stay as they were, and every number of a
  dumped block is mapped to a dumped block with that number.
\<close>

theorem chain_dump_load:
  assumes it: "iter_ok it"
    and keyed: "\<forall>h b. fmlookup (cs_blocks s) h = Some b \<longrightarrow> hash_slow (bk_header b) = h"
  shows "let t' = load_blocks hash_slow (serialized_blocks it s) t in
    (\<forall>h. get_block_by_hash t' h =
       (case get_block_by_hash s h of
          Some b \<Rightarrow> Some (serializable_to_block (block_to_serializable b))
        | None \<Rightarrow> get_block_by_hash t h)) \<and>
    (\<forall>h b. get_block_by_hash s h = Some b \<longrightarrow>
       (\<exists>h' b'. storage_hash (BlockNumber (hd_number (bk_header b))) t' = Some h' \<and>
          get_block_by_hash s h' = Some b' \<and> hd_number (bk_header b') = hd_number (bk_header b)))"
proof -
  let ?bs = "serialized_blocks it s" and ?blk = serializable_to_block
  have hdr [simp]: "bk_header (?blk (block_to_serializable b)) = bk_header b" for b
    by (simp add: serializable_to_block_def block_to_serializable_def)
  have mem: "sb \<in> set ?bs \<longleftrightarrow> (\<exists>b. fmlookup (cs_blocks s) (hash_slow (bk_header (?blk sb))) = Some b \<and>
      sb = block_to_serializable b)" for sb
    unfolding set_serialized_blocks [OF it] using keyed by fastforce
  have "fmlookup (cs_blocks (load_blocks hash_slow ?bs t)) h =
      (case fmlookup (cs_blocks s) h of Some b \<Rightarrow> Some (?blk (block_to_serializable b)) | None \<Rightarrow> fmlookup (cs_blocks t) h)" for h
  proof (cases "find (\<lambda>sb. hash_slow (bk_header (?blk sb)) = h) (rev ?bs)")
    case None
    then have "hash_slow (bk_header (?blk sb)) \<noteq> h" if "sb \<in> set ?bs" for sb using that by (auto simp: find_None_iff)
    then have "fmlookup (cs_blocks s) h = None"
      using set_serialized_blocks [OF it] keyed hdr by (metis not_None_eq)
    then show ?thesis using None by (simp add: load_blocks_fields fmlookup_fold_fmupd)
  next
    case (Some sb)
    then have "sb \<in> set ?bs" "hash_slow (bk_header (?blk sb)) = h" by (auto dest: find_SomeD)
    then show ?thesis using mem [of sb] Some by (auto simp: load_blocks_fields fmlookup_fold_fmupd)
  qed
  moreover have "\<exists>h' b'. fmlookup (cs_hashes (load_blocks hash_slow ?bs t)) (hd_number (bk_header b)) = Some h' \<and>
      fmlookup (cs_blocks s) h' = Some b' \<and> hd_number (bk_header b') = hd_number (bk_header b)"
    if b: "fmlookup (cs_blocks s) h = Some b" for h b
  proof (cases "find (\<lambda>sb. hd_number (bk_header (?blk sb)) = hd_number (bk_header b)) (rev ?bs)")
    case None
    then have "hd_number (bk_header (?blk sb)) \<noteq> hd_number (bk_header b)" if "sb \<in> set ?bs" for sb
      using that by (auto simp: find_None_iff)
    moreover have "block_to_serializable b \<in> set ?bs" using set_serialized_blocks [OF it] b by blast
    ultimately show ?thesis using hdr by metis
  next
    case (Some sb)
    then have "sb \<in> set ?bs" "hd_number (bk_header (?blk sb)) = hd_number (bk_header b)"
      by (auto dest: find_SomeD)
    then show ?thesis using mem [of sb] Some by (auto simp: load_blocks_fields fmlookup_fold_fmupd)
  qed
  ultimately show ?thesis unfolding get_block_by_hash_def Let_def storage_hash.simps by blast
qed

theorem chain_dump_load_witness:
  "let s = storage_empty\<lparr> cs_blocks := fmupd 3 sample_block fmempty \<rparr>;
       t' = load_blocks (\<lambda>_. 3) (serialized_blocks sorted_list_of_fset s) storage_empty in
   iter_ok (sorted_list_of_fset :: b256 iter_order) \<and>
   (\<forall>h b. fmlookup (cs_blocks s) h = Some b \<longrightarrow> (3 :: b256) = h) \<and>
   get_block_by_hash t' 3 = Some (serializable_to_block (block_to_serializable sample_block)) \<and>
   get_block_by_hash t' 4 = None"
proof -
  let ?s = "storage_empty\<lparr> cs_blocks := fmupd 3 sample_block fmempty \<rparr>"
  have keyed: "\<forall>h b. fmlookup (cs_blocks ?s) h = Some b \<longrightarrow> (3 :: b256) = h"
    by simp
  have blocks: "get_block_by_hash ?s 3 = Some sample_block" "get_block_by_hash ?s 4 = None"
    "get_block_by_hash storage_empty 4 = None"
    by (simp_all add: get_block_by_hash_def storage_empty_def)
  note P = chain_dump_load [OF iter_ok_sorted keyed, of storage_empty, unfolded Let_def, THEN conjunct1, rule_format]
  show ?thesis unfolding Let_def using keyed iter_ok_sorted P [of 3] P [of 4] unfolding blocks option.case by blast
qed

end
