(* ===== verification/Mining.thy ===== *)
theory Mining
  imports Pool_Properties
begin

text \<open>
  Block production: the miner that selects transactions of the pool (\<^verbatim>\<open>crates/anvil/src/eth/miner.rs\<close>) and the
  service that hands them to the backend one block at a time (\<^verbatim>\<open>crates/anvil/src/service.rs\<close>).

  What the runtime answers is an argument: whether the interval of the miner ticked, and what polling the
  task that mines a block gave. A channel is the list of the messages that are waiting in it. \<open>None\<close> is a
  panic or a call that does not return.
\<close>

section \<open>The miner\<close>

datatype 'a poll = PollPending | PollReady 'a

record ready_transaction_miner =
  rm_max_transactions :: nat
  rm_has_pending_txs :: "bool option"
  rm_rx :: "tx_hash list"

datatype mining_mode = NoMining | Auto ready_transaction_miner | FixedBlockTime

definition instant :: "nat \<Rightarrow> tx_hash list \<Rightarrow> mining_mode" where
  "instant max_transactions listener =
     Auto \<lparr> rm_max_transactions = max_transactions, rm_has_pending_txs = None, rm_rx = listener \<rparr>"

definition is_auto_mine :: "mining_mode \<Rightarrow> bool" where
  "is_auto_mine mode = (case mode of Auto _ \<Rightarrow> True | _ \<Rightarrow> False)"

definition is_interval :: "mining_mode \<Rightarrow> bool" where
  "is_interval mode = (case mode of FixedBlockTime \<Rightarrow> True | _ \<Rightarrow> False)"

text \<open>The drain of the notification stream at the start of a poll.\<close>

definition drain_rx :: "ready_transaction_miner \<Rightarrow> ready_transaction_miner" where
  "drain_rx m = (if rm_rx m = [] then m else m\<lparr> rm_has_pending_txs := Some True, rm_rx := [] \<rparr>)"

definition ready_miner_poll ::
  "pool_inner \<Rightarrow> ready_transaction_miner \<Rightarrow> ready_transaction_miner \<times> pool_transaction list poll" where
  "ready_miner_poll pool m =
     (let m1 = drain_rx m in
      if rm_has_pending_txs m1 = Some False then (m1, PollPending)
      else let transactions = iter_take (rm_max_transactions m1) (get_transactions (pi_ready pool));
               m2 = m1\<lparr> rm_has_pending_txs := Some (rm_max_transactions m1 \<le> length transactions) \<rparr>
           in if transactions = [] then (m2, PollPending) else (m2, PollReady transactions))"

definition fixed_block_time_poll :: "bool \<Rightarrow> pool_inner \<Rightarrow> pool_transaction list poll option" where
  "fixed_block_time_poll tick pool =
     (if tick then map_option PollReady (iter_collect (get_transactions (pi_ready pool))) else Some PollPending)"

definition mode_poll :: "bool \<Rightarrow> pool_inner \<Rightarrow> mining_mode \<Rightarrow> (mining_mode \<times> pool_transaction list poll) option" where
  "mode_poll tick pool mode =
     (case mode of
        NoMining \<Rightarrow> Some (NoMining, PollPending)
      | Auto m \<Rightarrow> (case ready_miner_poll pool m of (m', r) \<Rightarrow> Some (Auto m', r))
      | FixedBlockTime \<Rightarrow> map_option (Pair FixedBlockTime) (fixed_block_time_poll tick pool))"

section \<open>The block producer\<close>

text \<open>
  \<open>bp_idle_backend\<close> says that the producer holds the backend; the task that mines a block is the list of its
  transactions.
\<close>

record block_producer =
  bp_idle_backend :: bool
  bp_block_mining :: "pool_transaction list option"
  bp_queued :: "pool_transaction list list"

definition block_producer_new :: block_producer where
  "block_producer_new = \<lparr> bp_idle_backend = True, bp_block_mining = None, bp_queued = [] \<rparr>"

datatype task_poll = TaskPending | TaskDone mined_block_outcome | TaskFailed

definition spawn_mining :: "block_producer \<Rightarrow> block_producer" where
  "spawn_mining bp =
     (case bp_queued bp of
        [] \<Rightarrow> bp
      | transactions # rest \<Rightarrow>
          if bp_idle_backend bp
          then bp\<lparr> bp_idle_backend := False, bp_queued := rest, bp_block_mining := Some transactions \<rparr>
          else bp)"

definition producer_poll_next :: "task_poll \<Rightarrow> block_producer \<Rightarrow> (block_producer \<times> mined_block_outcome poll) option" where
  "producer_poll_next t bp =
     (let bp1 = spawn_mining bp in
      case bp_block_mining bp1 of
        None \<Rightarrow> Some (bp1, PollPending)
      | Some transactions \<Rightarrow>
          (case t of
             TaskPending \<Rightarrow> Some (bp1, PollPending)
           | TaskDone outcome \<Rightarrow>
               Some (bp1\<lparr> bp_block_mining := None, bp_idle_backend := True \<rparr>, PollReady outcome)
           | TaskFailed \<Rightarrow> None))"

section \<open>The service\<close>

record node_service =
  ns_pool :: pool_inner
  ns_block_producer :: block_producer
  ns_miner :: mining_mode

text \<open>The inner loop: \<open>tasks\<close> are the answers to the polls of the mining task; after the last one it is pending.\<close>

fun produce ::
  "map_orders \<Rightarrow> task_poll list \<Rightarrow> node_service \<Rightarrow> (task_poll list \<times> node_service) option" where
  "produce ord [] s =
     map_option (\<lambda>(bp, _). ([], s\<lparr> ns_block_producer := bp \<rparr>)) (producer_poll_next TaskPending (ns_block_producer s))"
| "produce ord (t # tasks) s =
     (case producer_poll_next t (ns_block_producer s) of
        None \<Rightarrow> None
      | Some (bp, PollPending) \<Rightarrow>
          Some (if bp_block_mining bp = None then t # tasks else tasks, s\<lparr> ns_block_producer := bp \<rparr>)
      | Some (bp, PollReady outcome) \<Rightarrow>
          (case on_mined_block ord outcome (ns_pool s) of
             None \<Rightarrow> None
           | Some (pool, _) \<Rightarrow> produce ord tasks (s\<lparr> ns_pool := pool, ns_block_producer := bp \<rparr>)))"

definition push_queued :: "pool_transaction list \<Rightarrow> node_service \<Rightarrow> node_service" where
  "push_queued transactions s =
     s\<lparr> ns_block_producer := (ns_block_producer s)\<lparr> bp_queued := bp_queued (ns_block_producer s) @ [transactions] \<rparr> \<rparr>"

partial_function (option) node_loop ::
  "map_orders \<Rightarrow> task_poll list \<Rightarrow> bool list \<Rightarrow> node_service \<Rightarrow> node_service option" where
  "node_loop ord tasks ticks s =
     Option.bind (produce ord tasks s) (\<lambda>(tasks', s1).
       Option.bind (mode_poll (ticks \<noteq> [] \<and> hd ticks) (ns_pool s1) (ns_miner s1)) (\<lambda>(mode, r).
         case r of
           PollPending \<Rightarrow> Some (s1\<lparr> ns_miner := mode \<rparr>)
         | PollReady transactions \<Rightarrow>
             node_loop ord tasks' (tl ticks) (push_queued transactions (s1\<lparr> ns_miner := mode \<rparr>))))"

section \<open>The producer mines every batch once, in order\<close>

datatype producer_event = Push "pool_transaction list" | PollTask task_poll

text \<open>The batches that were mined are logged with their outcomes.\<close>

fun producer_run ::
  "producer_event list \<Rightarrow> block_producer \<Rightarrow> (block_producer \<times> (pool_transaction list \<times> mined_block_outcome) list) option" where
  "producer_run [] bp = Some (bp, [])"
| "producer_run (Push transactions # es) bp = producer_run es (bp\<lparr> bp_queued := bp_queued bp @ [transactions] \<rparr>)"
| "producer_run (PollTask t # es) bp =
     (case producer_poll_next t bp of
        None \<Rightarrow> None
      | Some (bp', PollPending) \<Rightarrow> producer_run es bp'
      | Some (bp', PollReady outcome) \<Rightarrow>
          map_option (\<lambda>(bp'', log). (bp'', (the (bp_block_mining (spawn_mining bp)), outcome) # log)) (producer_run es bp'))"

fun pushed :: "producer_event list \<Rightarrow> pool_transaction list list" where
  "pushed [] = []"
| "pushed (Push transactions # es) = transactions # pushed es"
| "pushed (PollTask t # es) = pushed es"

definition producer_inv :: "block_producer \<Rightarrow> bool" where
  "producer_inv bp \<longleftrightarrow> (bp_idle_backend bp \<longleftrightarrow> bp_block_mining bp = None)"

definition backlog :: "block_producer \<Rightarrow> pool_transaction list list" where
  "backlog bp = (case bp_block_mining bp of None \<Rightarrow> [] | Some transactions \<Rightarrow> [transactions]) @ bp_queued bp"

lemma producer_inv_new [simp]: "producer_inv block_producer_new" "backlog block_producer_new = []"
  by (simp_all add: producer_inv_def backlog_def block_producer_new_def)

lemma spawn_mining_spec:
  assumes "producer_inv bp"
  shows "producer_inv (spawn_mining bp) \<and> backlog (spawn_mining bp) = backlog bp \<and>
    (bp_block_mining (spawn_mining bp) = None \<longleftrightarrow> backlog bp = [])"
  using assms by (auto simp: spawn_mining_def producer_inv_def backlog_def split: list.split option.split)

lemma producer_poll_next_spec:
  assumes inv: "producer_inv bp" and "t \<noteq> TaskFailed"
  shows "\<exists>bp' r. producer_poll_next t bp = Some (bp', r) \<and> producer_inv bp' \<and>
    (case r of
       PollPending \<Rightarrow> backlog bp' = backlog bp \<and> (backlog bp = [] \<or> t = TaskPending)
     | PollReady outcome \<Rightarrow> t = TaskDone outcome \<and>
         backlog bp = the (bp_block_mining (spawn_mining bp)) # backlog bp')"
proof (cases "bp_block_mining (spawn_mining bp)")
  case None
  then show ?thesis using spawn_mining_spec [OF inv] by (simp add: producer_poll_next_def Let_def)
next
  case (Some transactions)
  then have "backlog bp = transactions # bp_queued (spawn_mining bp)"
    using spawn_mining_spec [OF inv] by (simp add: backlog_def [of "spawn_mining bp"])
  then show ?thesis using spawn_mining_spec [OF inv] Some assms(2)
    by (cases t) (auto simp: producer_poll_next_def Let_def producer_inv_def backlog_def)
qed

lemma producer_run_spec:
  assumes "producer_inv bp" and "PollTask TaskFailed \<notin> set es"
  shows "\<exists>bp' log. producer_run es bp = Some (bp', log) \<and> producer_inv bp' \<and>
    map fst log @ backlog bp' = backlog bp @ pushed es"
  using assms
proof (induction es arbitrary: bp)
  case (Cons e es)
  show ?case
  proof (cases e)
    case (Push transactions)
    have "producer_inv (bp\<lparr> bp_queued := bp_queued bp @ [transactions] \<rparr>)"
      using Cons.prems(1) by (simp add: producer_inv_def)
    then show ?thesis using Cons Push by (fastforce simp: backlog_def split: option.split)
  next
    case (PollTask t)
    from Cons.prems PollTask have "t \<noteq> TaskFailed" by auto
    from producer_poll_next_spec [OF Cons.prems(1) this] obtain bp' r where
      p: "producer_poll_next t bp = Some (bp', r)" "producer_inv bp'"
      "case r of
         PollPending \<Rightarrow> backlog bp' = backlog bp \<and> (backlog bp = [] \<or> t = TaskPending)
       | PollReady outcome \<Rightarrow> t = TaskDone outcome \<and>
           backlog bp = the (bp_block_mining (spawn_mining bp)) # backlog bp'" by blast
    with Cons.IH [OF p(2)] Cons.prems(2) show ?thesis by (cases r) (auto simp: PollTask)
  qed
qed simp

section \<open>Properties\<close>

text \<open>
  C22. The block producer mines every batch of transactions exactly once and in the order in which the
  batches were queued, one at a time, and never loses the backend: after any sequence of pushes and polls in
  which no mining task failed, the batches mined so far, the one being mined and the queued ones are
  together the batches that were pushed, in order; and the backend is idle exactly when nothing is being mined.
\<close>

theorem producer_fifo:
  assumes "PollTask TaskFailed \<notin> set es"
  shows "\<exists>bp log. producer_run es block_producer_new = Some (bp, log) \<and>
    map fst log @ (case bp_block_mining bp of None \<Rightarrow> [] | Some batch \<Rightarrow> [batch]) @ bp_queued bp = pushed es \<and>
    (bp_idle_backend bp \<longleftrightarrow> bp_block_mining bp = None)"
  using producer_run_spec [OF producer_inv_new(1) assms]
  by (auto simp: backlog_def [of "_ :: block_producer"] producer_inv_def block_producer_new_def)

theorem producer_fifo_witness:
  "let es = [Push [sample_tx 0 1 5], Push [], PollTask (TaskDone \<lparr> mb_block_number = 1, mb_included = [], mb_invalid = [] \<rparr>)] in
   PollTask TaskFailed \<notin> set es \<and>
   (\<exists>bp log. producer_run es block_producer_new = Some (bp, log) \<and>
      map fst log @ (case bp_block_mining bp of None \<Rightarrow> [] | Some batch \<Rightarrow> [batch]) @ bp_queued bp = [[sample_tx 0 1 5], []])"
  using producer_fifo [of "[Push [sample_tx 0 1 5], Push [],
    PollTask (TaskDone \<lparr> mb_block_number = 1, mb_included = [], mb_invalid = [] \<rparr>)]"]
  by (auto simp: Let_def)

text \<open>
  C23. The instant miner does not sit on transactions: unless it knows that the pool was drained and has not
  been notified since, a poll with an independent ready transaction in the pool returns a batch of at least
  one and at most \<^verbatim>\<open>max_transactions\<close> ready transactions, the first of them the independent one of the
  highest priority.
\<close>

theorem ready_miner_live:
  assumes inv: "pool_inv pool" and max: "0 < rm_max_transactions m"
    and awake: "rm_has_pending_txs m \<noteq> Some False \<or> rm_rx m \<noteq> []"
    and ready: "rd_independent (pi_ready pool) \<noteq> []"
  shows "\<exists>m' txs best. ready_miner_poll pool m = (m', PollReady txs) \<and>
    1 \<le> length txs \<and> length txs \<le> rm_max_transactions m \<and>
    (\<forall>tx\<in>set txs. ready_contains (pi_ready pool) (pt_hash tx)) \<and>
    best \<in> set (rd_independent (pi_ready pool)) \<and> hd txs = ptr_transaction best \<and>
    (\<forall>q\<in>set (rd_independent (pi_ready pool)). q = best \<or> ptr_lt q best)"
proof -
  let ?i = "get_transactions (pi_ready pool)" and ?txs = "iter_take (rm_max_transactions m) (get_transactions (pi_ready pool))"
  have sel: "ti_all ?i = rd_ready_tx (pi_ready pool)" "ti_independent ?i = rd_independent (pi_ready pool)"
    by (simp_all add: get_transactions_def)
  have iinv: "iter_inv ?i" using pool_invD(1) [OF inv] by (rule iter_inv_get_transactions)
  from iter_next_spec [OF iinv] ready obtain i' where
    n: "iter_next ?i = (i', Some (ptr_transaction (last (rd_independent (pi_ready pool)))))"
    and best: "\<forall>q\<in>set (rd_independent (pi_ready pool)). q = last (rd_independent (pi_ready pool)) \<or>
      ptr_lt q (last (rd_independent (pi_ready pool)))" unfolding sel by blast
  obtain k where k: "rm_max_transactions m = Suc k" using max by (cases "rm_max_transactions m") auto
  have hd: "?txs \<noteq> []" "hd ?txs = ptr_transaction (last (rd_independent (pi_ready pool)))" using n by (simp_all add: k)
  have mem: "\<forall>tx\<in>set ?txs. ready_contains (pi_ready pool) (pt_hash tx)"
    using iter_take_members [OF iinv, of "rm_max_transactions m"]
    by (auto simp: sel ready_contains_def dest!: skel_SomeD)
  have "\<exists>m'. ready_miner_poll pool m = (m', PollReady ?txs)"
    using awake hd(1) by (auto simp: ready_miner_poll_def drain_rx_def Let_def)
  moreover have "1 \<le> length ?txs" using hd(1) by (simp add: Suc_le_eq)
  moreover have "last (rd_independent (pi_ready pool)) \<in> set (rd_independent (pi_ready pool))" using ready by simp
  ultimately show ?thesis using iter_take_length mem hd(2) best by blast
qed

definition sample_pool :: pool_inner where
  "sample_pool = \<lparr> pi_ready = sample_ready, pi_pending = pending_default \<rparr>"

lemma pool_inv_sample: "pool_inv sample_pool"
  by (simp add: pool_inv_def sample_pool_def ready_inv_sample pending_inv_default) (simp add: pending_default_def)

lemma iter_next_sample: "iter_next (get_transactions sample_ready) = (i, r) \<Longrightarrow> r = Some (sample_tx 0 5 10)"
  using iter_next_spec [OF iter_inv_get_transactions [OF ready_inv_sample]]
  by (auto simp: get_transactions_def sample_ready_def)

theorem ready_miner_live_witness:
  "let m = \<lparr> rm_max_transactions = 1, rm_has_pending_txs = None, rm_rx = [] \<rparr> in
   pool_inv sample_pool \<and> 0 < rm_max_transactions m \<and> rm_has_pending_txs m \<noteq> Some False \<and>
   rd_independent (pi_ready sample_pool) \<noteq> [] \<and>
   (\<exists>m' tx. ready_miner_poll sample_pool m = (m', PollReady [tx]) \<and> tx = sample_tx 0 5 10)"
proof -
  let ?m = "\<lparr> rm_max_transactions = 1, rm_has_pending_txs = None, rm_rx = [] \<rparr>"
  have ind: "rd_independent (pi_ready sample_pool) = [\<lparr> ptr_transaction = sample_tx 0 5 10, ptr_id = 0 \<rparr>]"
    by (simp add: sample_pool_def sample_ready_def)
  from ready_miner_live [OF pool_inv_sample, of ?m] obtain m' txs best where
    "ready_miner_poll sample_pool ?m = (m', PollReady txs)" "1 \<le> length txs" "length txs \<le> 1"
    "best \<in> set (rd_independent (pi_ready sample_pool))" "hd txs = ptr_transaction best"
    unfolding ind by auto
  then show ?thesis using pool_inv_sample ind by (cases txs) (auto simp: Let_def)
qed

lemma ready_miner_repeats:
  assumes "0 < rm_max_transactions m" and "rm_has_pending_txs m \<noteq> Some False \<or> rm_rx m \<noteq> []"
    and "length (iter_take (rm_max_transactions m) (get_transactions (pi_ready pool))) = rm_max_transactions m"
  shows "ready_miner_poll pool m = (m\<lparr> rm_has_pending_txs := Some True, rm_rx := [] \<rparr>,
    PollReady (iter_take (rm_max_transactions m) (get_transactions (pi_ready pool))))"
  using assms by (auto simp: ready_miner_poll_def drain_rx_def Let_def)

lemma produce_pending: "\<exists>bp. produce ord [] s = Some ([], s\<lparr> ns_block_producer := bp \<rparr>)"
  by (auto simp: producer_poll_next_def Let_def split: option.split)

definition full_batch :: "node_service \<Rightarrow> bool" where
  "full_batch s \<longleftrightarrow>
     (case ns_miner s of
        Auto m \<Rightarrow> 0 < rm_max_transactions m \<and> (rm_has_pending_txs m \<noteq> Some False \<or> rm_rx m \<noteq> []) \<and>
          length (iter_take (rm_max_transactions m) (get_transactions (pi_ready (ns_pool s)))) = rm_max_transactions m
      | _ \<Rightarrow> False)"

text \<open>
  C31. As long as the pool holds a full batch and the mining task has not finished, the loop of the service
  does not return: the miner, which sees that the pool is not drained, hands out the same batch on
  every round, and each time it is queued again.
\<close>

theorem node_loop_spins:
  assumes "full_batch s"
  shows "node_loop ord [] ticks s = None"
proof -
  have "\<not> (tasks = [] \<and> full_batch s)" if "node_loop ord tasks ticks s = Some s'" for tasks s'
  proof (rule node_loop.raw_induct [where P = "\<lambda>ord tasks ticks s s'. \<not> (tasks = [] \<and> full_batch s)", OF _ that])
    fix f :: "map_orders \<Rightarrow> task_poll list \<Rightarrow> bool list \<Rightarrow> node_service \<Rightarrow> node_service option"
      and ord tasks ticks s s'
    assume IH: "\<And>ord tasks ticks s s'. f ord tasks ticks s = Some s' \<Longrightarrow> \<not> (tasks = [] \<and> full_batch s)"
    assume step: "Option.bind (produce ord tasks s) (\<lambda>(tasks', s1).
       Option.bind (mode_poll (ticks \<noteq> [] \<and> hd ticks) (ns_pool s1) (ns_miner s1)) (\<lambda>(mode, r).
         case r of
           PollPending \<Rightarrow> Some (s1\<lparr> ns_miner := mode \<rparr>)
         | PollReady transactions \<Rightarrow>
             f ord tasks' (tl ticks) (push_queued transactions (s1\<lparr> ns_miner := mode \<rparr>)))) = Some s'"
    show "\<not> (tasks = [] \<and> full_batch s)"
    proof
      assume a: "tasks = [] \<and> full_batch s"
      then obtain m where m: "ns_miner s = Auto m" "0 < rm_max_transactions m"
        "rm_has_pending_txs m \<noteq> Some False \<or> rm_rx m \<noteq> []"
        "length (iter_take (rm_max_transactions m) (get_transactions (pi_ready (ns_pool s)))) = rm_max_transactions m"
        by (auto simp: full_batch_def split: mining_mode.splits)
      obtain bp where bp: "produce ord [] s = Some ([], s\<lparr> ns_block_producer := bp \<rparr>)" using produce_pending by blast
      let ?m = "m\<lparr> rm_has_pending_txs := Some True, rm_rx := [] \<rparr>"
      let ?txs = "iter_take (rm_max_transactions m) (get_transactions (pi_ready (ns_pool s)))"
      from step have "f ord [] (tl ticks) (push_queued ?txs (s\<lparr> ns_block_producer := bp, ns_miner := Auto ?m \<rparr>)) = Some s'"
        using a bp m(1) by (simp add: mode_poll_def ready_miner_repeats [OF m(2-4)] del: produce.simps)
      from IH [OF this] show False using m by (simp add: full_batch_def push_queued_def)
    qed
  qed
  then show ?thesis using assms by (cases "node_loop ord [] ticks s") auto
qed

theorem node_loop_spins_witness:
  "let s = \<lparr> ns_pool = sample_pool, ns_block_producer = block_producer_new, ns_miner = instant 1 [] \<rparr> in
   full_batch s \<and> node_loop sorted_orders [] [] s = None"
proof -
  let ?s = "\<lparr> ns_pool = sample_pool, ns_block_producer = block_producer_new, ns_miner = instant 1 [] \<rparr>"
  have "full_batch ?s"
    by (simp add: full_batch_def instant_def sample_pool_def split: prod.split option.split)
      (use iter_next_sample in blast)
  with node_loop_spins [OF this] show ?thesis by (simp add: Let_def)
qed

definition waiting_tx :: pending_pool_transaction where
  "waiting_tx = ppt_new 0 (sample_tx 1 5 11) fmempty"

definition waiting_pool :: pool_inner where
  "waiting_pool =
     \<lparr> pi_ready = ready_default,
       pi_pending = \<lparr> required_markers = fmupd (to_marker 0 1) {|11|} fmempty,
         waiting_markers = fmupd [to_marker 1 1] 11 fmempty, waiting_queue = fmupd 11 waiting_tx fmempty \<rparr> \<rparr>"

lemma sorted_list_of_fset_single [simp]: "sorted_list_of_fset {|x|} = [x]"
  by (simp add: sorted_list_of_fset.rep_eq)

lemma waiting_tx_sel:
 "ppt_missing_markers waiting_tx = {|to_marker 0 1|}" "ppt_transaction waiting_tx = sample_tx 1 5 11" "\<not> ppt_is_ready waiting_tx"
  by (simp_all add: waiting_tx_def ppt_new_def ppt_is_ready_def)

lemma waiting_pool_add: "inner_add_transaction sorted_orders 0 pool_inner_default (sample_tx 1 5 11) =
    Some (waiting_pool, Inr (AddedPending 11))"
  by (simp add: inner_add_transaction_def pool_inner_default_def Let_def pool_contains_def ready_contains_def pending_contains_def
  ready_default_def pending_default_def waiting_tx_def [symmetric] waiting_tx_sel pending_add_transaction_def sorted_orders_def require_marker_def unwrap_or_def waiting_pool_def)

lemma waiting_add: "\<exists>r. ready_add_transaction it ready_default (waiting_tx\<lparr> ppt_missing_markers := {||} \<rparr>) = Some (r, Inr []) \<and>
    rd_independent r \<noteq> []"
  by (simp add: ready_add_transaction_def waiting_tx_sel Let_def ppt_is_ready_def ready_default_def
      replaced_transactions_def List.map_filter_simps ready_next_id_def)

lemma waiting_pool_mined: "\<exists>s' res. on_mined_block sorted_orders \<lparr> mb_block_number = 1, mb_included = [sample_tx 0 5 10], mb_invalid = [] \<rparr> waiting_pool =
   Some (s', res) \<and> rd_independent (pi_ready s') \<noteq> []"
proof -
  obtain r where r: "ready_add_transaction sorted_list_of_fset ready_default (waiting_tx\<lparr> ppt_missing_markers := {||} \<rparr>) = Some (r, Inr [])"
    "rd_independent r \<noteq> []" using waiting_add by blast
  have p: "prune_tags m ready_default = Some (ready_default, [])" for m
    by (simp add: prune_tags_def ready_default_def prune_loop.simps)
  show ?thesis
    using r by (simp add: on_mined_block_def prune_markers_def remove_invalid_def waiting_pool_def sorted_orders_def
        waiting_tx_sel Let_def ppt_mark_def ppt_is_ready_def p add_ready_transaction_def ready_report_new_def
        add_ready_loop.simps)
qed


end
