(* ===== verification/Tx_Rlp.thy ===== *)
theory Tx_Rlp
  imports Tx_Convert
begin

text \<open>
  The RLP encodings written by hand in \<^verbatim>\<open>crates/anvil/core/src/eth/transaction\<close>: deposit receipts, deposit
  transactions and their requests, and typed receipts.

  The encodings of the fields belong to the crate \<^verbatim>\<open>alloy_rlp\<close>. They are a parameter, a record of codecs; what
  the code relies on is \<open>rlp_ok\<close> (a value decodes to itself, what follows it is left over, no encoding is
  empty) and \<open>rlp_rejects\<close> (a fixed-size value is not decoded from one of another size). Both hold
  for the concrete codecs at the end of the theory.
\<close>

section \<open>Codecs\<close>

datatype rlp_error =
    UnexpectedString | InputTooShort | ListLengthMismatch nat nat | UnexpectedLength
  | EmptyBytes | EmptyTypedReceipt | InvalidReceiptType | EmptyListReceipt

type_synonym 'a decoder = "u8 list \<Rightarrow> (rlp_error, 'a \<times> u8 list) result"

record 'a codec =
  enc :: "'a \<Rightarrow> u8 list"
  dec :: "'a decoder"

definition codec_ok :: "'a codec \<Rightarrow> bool" where
  "codec_ok c \<longleftrightarrow> (\<forall>x rest. enc c x \<noteq> [] \<and> dec c (enc c x @ rest) = Inr (x, rest))"

lemma codec_okD: "codec_ok c \<Longrightarrow> dec c (enc c x @ rest) = Inr (x, rest)" "codec_ok c \<Longrightarrow> enc c x \<noteq> []"
  by (simp_all add: codec_ok_def)

text \<open>\<^verbatim>\<open>?\<close> on decoders.\<close>

definition dbind :: "'a decoder \<Rightarrow> ('a \<Rightarrow> 'b decoder) \<Rightarrow> 'b decoder" where
  "dbind d f b = (case d b of Inl e \<Rightarrow> Inl e | Inr (x, b') \<Rightarrow> f x b')"

definition dreturn :: "'a \<Rightarrow> 'a decoder" where
  "dreturn x b = Inr (x, b)"

lemma dbind_simps [simp]: "d b = Inr (x, b') \<Longrightarrow> dbind d f b = f x b'" "d b = Inl e \<Longrightarrow> dbind d f b = Inl e"
  by (simp_all add: dbind_def)

record rlp =
  rl_header :: "(bool \<times> nat) codec"
  rl_u8 :: "u8 codec"
  rl_u64 :: "u64 codec"
  rl_u128 :: "u128 codec"
  rl_u256 :: "u256 codec"
  rl_b256 :: "b256 codec"
  rl_address :: "address codec"
  rl_bool :: "bool codec"
  rl_kind :: "tx_kind codec"
  rl_bytes :: "u8 list codec"
  rl_bloom :: "bloom codec"
  rl_logs :: "log list codec"
  rl_receipt :: "receipt_with_bloom codec"

definition rlp_ok :: "rlp \<Rightarrow> bool" where
  "rlp_ok R \<longleftrightarrow>
     codec_ok (rl_header R) \<and> codec_ok (rl_u8 R) \<and> codec_ok (rl_u64 R) \<and> codec_ok (rl_u128 R) \<and> codec_ok (rl_u256 R) \<and>
     codec_ok (rl_b256 R) \<and> codec_ok (rl_address R) \<and> codec_ok (rl_bool R) \<and> codec_ok (rl_kind R) \<and>
     codec_ok (rl_bytes R) \<and> codec_ok (rl_bloom R) \<and> codec_ok (rl_logs R) \<and> codec_ok (rl_receipt R)"

lemma rlp_okD:
  assumes "rlp_ok R"
  shows "codec_ok (rl_header R)" "codec_ok (rl_u8 R)" "codec_ok (rl_u64 R)" "codec_ok (rl_u128 R)" "codec_ok (rl_u256 R)"
    "codec_ok (rl_b256 R)" "codec_ok (rl_address R)" "codec_ok (rl_bool R)" "codec_ok (rl_kind R)"
    "codec_ok (rl_bytes R)" "codec_ok (rl_bloom R)" "codec_ok (rl_logs R)" "codec_ok (rl_receipt R)"
  using assms by (simp_all add: rlp_ok_def)

text \<open>A 32-byte word is not decoded from an integer of eight bytes or from an address.\<close>

definition rlp_rejects :: "rlp \<Rightarrow> bool" where
  "rlp_rejects R \<longleftrightarrow>
     (\<forall>n rest. \<exists>e. dec (rl_b256 R) (enc (rl_u64 R) n @ rest) = Inl e) \<and>
     (\<forall>a rest. \<exists>e. dec (rl_b256 R) (enc (rl_address R) a @ rest) = Inl e)"

text \<open>The first byte of a list is above \<^verbatim>\<open>EMPTY_LIST_CODE\<close>, unless the list is empty.\<close>

definition list_bytes :: "rlp \<Rightarrow> bool" where
  "list_bytes R \<longleftrightarrow> (\<forall>n. 0 < n \<longrightarrow> 0xC0 < hd (enc (rl_header R) (True, n))) \<and> (\<forall>r. 0xC0 < hd (enc (rl_receipt R) r))"

section \<open>Deposit receipts\<close>

definition enc_opt :: "'a codec \<Rightarrow> 'a option \<Rightarrow> u8 list" where
  "enc_opt c x = (case x of None \<Rightarrow> [] | Some v \<Rightarrow> enc c v)"

definition receipt_payload :: "rlp \<Rightarrow> deposit_receipt \<Rightarrow> u8 list" where
  "receipt_payload R r =
     enc (rl_bool R) (rc_status (dp_inner r)) @ enc (rl_u128 R) (rc_cumulative_gas_used (dp_inner r)) @
     enc (rl_bloom R) (rc_logs_bloom (dp_inner r)) @ enc (rl_logs R) (rc_logs (dp_inner r)) @
     enc_opt (rl_u64 R) (dp_deposit_nonce r) @ enc_opt (rl_u64 R) (dp_deposit_receipt_version r)"

definition payload_len :: "rlp \<Rightarrow> deposit_receipt \<Rightarrow> nat" where
  "payload_len R r =
     length (enc (rl_bool R) (rc_status (dp_inner r))) +
     length (enc (rl_u128 R) (rc_cumulative_gas_used (dp_inner r))) +
     length (enc (rl_bloom R) (rc_logs_bloom (dp_inner r))) + length (enc (rl_logs R) (rc_logs (dp_inner r))) +
     (case dp_deposit_nonce r of None \<Rightarrow> 0 | Some n \<Rightarrow> length (enc (rl_u64 R) n)) +
     (case dp_deposit_receipt_version r of None \<Rightarrow> 0 | Some n \<Rightarrow> length (enc (rl_u64 R) n))"

definition encode_deposit_receipt :: "rlp \<Rightarrow> deposit_receipt \<Rightarrow> u8 list" where
  "encode_deposit_receipt R r = enc (rl_header R) (True, payload_len R r) @ receipt_payload R r"

text \<open>\<^verbatim>\<open>remaining(b).then(|| decode(b)).transpose()?\<close>\<close>

definition dec_if :: "(u8 list \<Rightarrow> bool) \<Rightarrow> 'a decoder \<Rightarrow> 'a option decoder" where
  "dec_if remaining d b = (if remaining b then dbind d (\<lambda>x. dreturn (Some x)) b else Inr (None, b))"

text \<open>The difference of the lengths wraps, so it is positive exactly when the two are different.\<close>

definition decode_deposit_receipt :: "rlp \<Rightarrow> deposit_receipt decoder" where
  "decode_deposit_receipt R =
     dbind (dec (rl_header R)) (\<lambda>(list, payload_length) b.
       if \<not> list then Inl UnexpectedString
       else let started_len = length b; remaining = (\<lambda>b'. payload_length \<noteq> started_len - length b') in
         dbind (dec (rl_bool R)) (\<lambda>status.
         dbind (dec (rl_u128 R)) (\<lambda>cumulative_gas_used.
         dbind (dec (rl_bloom R)) (\<lambda>logs_bloom.
         dbind (dec (rl_logs R)) (\<lambda>logs.
         dbind (dec_if remaining (dec (rl_u64 R))) (\<lambda>deposit_nonce.
         dbind (dec_if remaining (dec (rl_u64 R))) (\<lambda>deposit_nonce_version b'.
           let consumed = started_len - length b' in
           if consumed \<noteq> payload_length then Inl (ListLengthMismatch payload_length consumed)
           else Inr (\<lparr> dp_inner = \<lparr> rc_status = status, rc_cumulative_gas_used = cumulative_gas_used, rc_logs = logs,
                                    rc_logs_bloom = logs_bloom \<rparr>,
                       dp_deposit_nonce = deposit_nonce, dp_deposit_receipt_version = deposit_nonce_version \<rparr>, b'))))))) b)"

section \<open>Typed receipts\<close>

definition encode_receipt_of_type :: "rlp \<Rightarrow> u8 \<Rightarrow> u8 list \<Rightarrow> u8 list" where
  "encode_receipt_of_type R ty payload = enc (rl_header R) (True, length payload + 1) @ enc (rl_u8 R) ty @ payload"

fun encode_receipt :: "rlp \<Rightarrow> typed_receipt \<Rightarrow> u8 list" where
  "encode_receipt R (LegacyReceipt r) = enc (rl_receipt R) r"
| "encode_receipt R (EIP2930Receipt r) = encode_receipt_of_type R 1 (enc (rl_receipt R) r)"
| "encode_receipt R (EIP1559Receipt r) = encode_receipt_of_type R 2 (enc (rl_receipt R) r)"
| "encode_receipt R (EIP4844Receipt r) = encode_receipt_of_type R 3 (enc (rl_receipt R) r)"
| "encode_receipt R (DepositReceipt r) = encode_receipt_of_type R 0x7E (encode_deposit_receipt R r)"

definition map_dec :: "('a \<Rightarrow> 'b) \<Rightarrow> 'a decoder \<Rightarrow> 'b decoder" where
  "map_dec f d = dbind d (\<lambda>x. dreturn (f x))"

definition decode_receipt :: "rlp \<Rightarrow> typed_receipt decoder" where
  "decode_receipt R buf =
     (case buf of
        [] \<Rightarrow> Inl EmptyBytes
      | rlp_type # _ \<Rightarrow>
          if rlp_type < 0xC0
          then dbind (dec (rl_header R)) (\<lambda>_ b.
            case b of
              [] \<Rightarrow> Inl EmptyTypedReceipt
            | receipt_type # b' \<Rightarrow>
                if receipt_type = 1 then map_dec EIP2930Receipt (dec (rl_receipt R)) b'
                else if receipt_type = 2 then map_dec EIP1559Receipt (dec (rl_receipt R)) b'
                else if receipt_type = 3 then map_dec EIP4844Receipt (dec (rl_receipt R)) b'
                else if receipt_type = 0x7E then map_dec DepositReceipt (decode_deposit_receipt R) b'
                else Inl InvalidReceiptType) buf
          else if rlp_type = 0xC0 then Inl EmptyListReceipt
          else map_dec LegacyReceipt (dec (rl_receipt R)) buf)"

section \<open>Deposit transactions\<close>

definition deposit_fields_len :: "rlp \<Rightarrow> deposit_transaction \<Rightarrow> nat" where
  "deposit_fields_len R t =
     length (enc (rl_b256 R) (dep_source_hash t)) + length (enc (rl_address R) (dep_from t)) +
     length (enc (rl_kind R) (dep_kind t)) + length (enc (rl_u256 R) (dep_mint t)) + length (enc (rl_u256 R) (dep_value t)) +
     length (enc (rl_u128 R) (dep_gas_limit t)) + length (enc (rl_bool R) (dep_is_system_tx t)) +
     length (enc (rl_bytes R) (dep_input t))"

definition deposit_encode_fields :: "rlp \<Rightarrow> deposit_transaction \<Rightarrow> u8 list" where
  "deposit_encode_fields R t =
     enc (rl_u64 R) (dep_nonce t) @ enc (rl_b256 R) (dep_source_hash t) @ enc (rl_address R) (dep_from t) @
     enc (rl_kind R) (dep_kind t) @ enc (rl_u256 R) (dep_mint t) @ enc (rl_u256 R) (dep_value t) @
     enc (rl_u128 R) (dep_gas_limit t) @ enc (rl_bool R) (dep_is_system_tx t) @ enc (rl_bytes R) (dep_input t)"

definition encode_deposit :: "rlp \<Rightarrow> deposit_transaction \<Rightarrow> u8 list" where
  "encode_deposit R t = enc (rl_header R) (True, deposit_fields_len R t) @ deposit_encode_fields R t"

definition deposit_decode_inner :: "rlp \<Rightarrow> deposit_transaction decoder" where
  "deposit_decode_inner R =
     dbind (dec (rl_b256 R)) (\<lambda>source_hash.
     dbind (dec (rl_address R)) (\<lambda>from.
     dbind (dec (rl_kind R)) (\<lambda>kind.
     dbind (dec (rl_u256 R)) (\<lambda>mint.
     dbind (dec (rl_u256 R)) (\<lambda>v.
     dbind (dec (rl_u128 R)) (\<lambda>gas.
     dbind (dec (rl_bool R)) (\<lambda>is_system_tx.
     dbind (dec (rl_bytes R)) (\<lambda>input.
       dreturn \<lparr> dep_nonce = 0, dep_source_hash = source_hash, dep_from = from, dep_kind = kind, dep_mint = mint,
                 dep_value = v, dep_gas_limit = gas, dep_is_system_tx = is_system_tx, dep_input = input \<rparr>))))))))"

definition decode_deposit :: "rlp \<Rightarrow> deposit_transaction decoder" where
  "decode_deposit R =
     dbind (dec (rl_header R)) (\<lambda>(_, payload_length) b.
       if length b < payload_length then Inl InputTooShort else deposit_decode_inner R b)"

definition request_encode_fields :: "rlp \<Rightarrow> deposit_transaction_request \<Rightarrow> u8 list" where
  "request_encode_fields R t =
     enc (rl_address R) (dr_from t) @ enc (rl_b256 R) (dr_source_hash t) @ enc (rl_kind R) (dr_kind t) @
     enc (rl_u256 R) (dr_mint t) @ enc (rl_u256 R) (dr_value t) @ enc (rl_u128 R) (dr_gas_limit t) @
     enc (rl_bool R) (dr_is_system_tx t) @ enc (rl_bytes R) (dr_input t)"

definition request_decode_inner :: "rlp \<Rightarrow> deposit_transaction_request decoder" where
  "request_decode_inner R =
     dbind (dec (rl_b256 R)) (\<lambda>source_hash.
     dbind (dec (rl_address R)) (\<lambda>from.
     dbind (dec (rl_kind R)) (\<lambda>kind.
     dbind (dec (rl_u256 R)) (\<lambda>mint.
     dbind (dec (rl_u256 R)) (\<lambda>v.
     dbind (dec (rl_u128 R)) (\<lambda>gas.
     dbind (dec (rl_bool R)) (\<lambda>is_system_tx.
     dbind (dec (rl_bytes R)) (\<lambda>input.
       dreturn \<lparr> dr_source_hash = source_hash, dr_from = from, dr_kind = kind, dr_mint = mint, dr_value = v,
                 dr_gas_limit = gas, dr_is_system_tx = is_system_tx, dr_input = input \<rparr>))))))))"

text \<open>\<^verbatim>\<open>From<DepositTransaction> for DepositTransactionRequest\<close>\<close>

definition request_of_deposit :: "deposit_transaction \<Rightarrow> deposit_transaction_request" where
  "request_of_deposit t =
     \<lparr> dr_source_hash = dep_source_hash t, dr_from = dep_from t, dr_kind = dep_kind t, dr_mint = dep_mint t,
       dr_value = dep_value t, dr_gas_limit = dep_gas_limit t, dr_is_system_tx = dep_is_system_tx t, dr_input = dep_input t \<rparr>"

section \<open>Round trips\<close>

lemma dbind_Inl: "\<exists>e. d b = Inl e \<Longrightarrow> \<exists>e. dbind d f b = Inl e"
  by auto

lemma length_receipt_payload: "length (receipt_payload R r) = payload_len R r"
  by (simp add: receipt_payload_def payload_len_def enc_opt_def split: option.split)

lemma dec_if_simps:
  "\<not> p b \<Longrightarrow> dec_if p d b = Inr (None, b)"
  "p b \<Longrightarrow> d b = Inr (x, b') \<Longrightarrow> dec_if p d b = Inr (Some x, b')"
  by (simp_all add: dec_if_def dreturn_def)

text \<open>What decoding an encoded deposit receipt gives: a version without a nonce is read as the nonce.\<close>

definition shifted :: "deposit_receipt \<Rightarrow> deposit_receipt" where
  "shifted r =
     (case (dp_deposit_nonce r, dp_deposit_receipt_version r) of
        (None, Some v) \<Rightarrow> r\<lparr> dp_deposit_nonce := Some v, dp_deposit_receipt_version := None \<rparr>
      | _ \<Rightarrow> r)"

lemma decode_encode_deposit_receipt:
  assumes ok: "rlp_ok R"
  shows "decode_deposit_receipt R (encode_deposit_receipt R r @ rest) = Inr (shifted r, rest)"
proof -
  note c [simp] = codec_okD(1) [OF rlp_okD(1) [OF ok]] codec_okD(1) [OF rlp_okD(8) [OF ok]] codec_okD(1) [OF rlp_okD(4) [OF ok]]
    codec_okD(1) [OF rlp_okD(11) [OF ok]] codec_okD(1) [OF rlp_okD(12) [OF ok]] codec_okD(1) [OF rlp_okD(3) [OF ok]]
  have pos [simp]: "enc (rl_u64 R) n \<noteq> []" for n by (rule codec_okD(2) [OF rlp_okD(3) [OF ok]])
  obtain st gas logs bloom nonce version where r: "r = \<lparr> dp_inner = \<lparr> rc_status = st, rc_cumulative_gas_used = gas,
      rc_logs = logs, rc_logs_bloom = bloom \<rparr>, dp_deposit_nonce = nonce, dp_deposit_receipt_version = version \<rparr>"
    by (metis (full_types) deposit_receipt.surjective old.unit.exhaust receipt_with_bloom.surjective)
  show ?thesis
    by (cases nonce; cases version)
      (simp_all add: r decode_deposit_receipt_def encode_deposit_receipt_def receipt_payload_def payload_len_def enc_opt_def
        Let_def dec_if_simps shifted_def)
qed

section \<open>Concrete codecs\<close>

text \<open>
  A simple self-delimiting code with the laws above: a tag that names the type, then a number in unary, a pair or
  a list of encodings.
\<close>

definition unary :: "nat \<Rightarrow> u8 list" where
  "unary n = replicate n 1 @ [0]"

fun read_unary :: "nat decoder" where
  "read_unary [] = Inl InputTooShort"
| "read_unary (b # bs) =
     (if b = 0 then Inr (0, bs)
      else case read_unary bs of Inl e \<Rightarrow> Inl e | Inr (n, rest) \<Rightarrow> Inr (Suc n, rest))"

lemma read_unary [simp]: "read_unary (unary n @ rest) = Inr (n, rest)"
  by (induction n) (simp_all add: unary_def)

definition expect_tag :: "u8 \<Rightarrow> 'a decoder \<Rightarrow> 'a decoder" where
  "expect_tag tag d b =
     (case b of [] \<Rightarrow> Inl InputTooShort | t # b' \<Rightarrow> if t = tag then d b' else Inl UnexpectedLength)"

definition codec_num :: "u8 \<Rightarrow> ('a \<Rightarrow> nat) \<Rightarrow> (nat \<Rightarrow> 'a) \<Rightarrow> 'a codec" where
  "codec_num tag f g = \<lparr> enc = (\<lambda>x. tag # unary (f x)), dec = expect_tag tag (dbind read_unary (\<lambda>n. dreturn (g n))) \<rparr>"

lemma codec_ok_num: "(\<And>x. g (f x) = x) \<Longrightarrow> codec_ok (codec_num tag f g)"
  by (simp add: codec_ok_def codec_num_def expect_tag_def dreturn_def)

definition codec_word :: "u8 \<Rightarrow> 'a::len word codec" where
  "codec_word tag = codec_num tag unat of_nat"

lemma codec_ok_word: "codec_ok (codec_word tag)"
  unfolding codec_word_def by (rule codec_ok_num) simp

definition codec_pair :: "'a codec \<Rightarrow> 'b codec \<Rightarrow> ('a \<times> 'b) codec" where
  "codec_pair c d =
     \<lparr> enc = (\<lambda>(x, y). enc c x @ enc d y),
       dec = dbind (dec c) (\<lambda>x. dbind (dec d) (\<lambda>y. dreturn (x, y))) \<rparr>"

lemma codec_ok_pair: "codec_ok c \<Longrightarrow> codec_ok d \<Longrightarrow> codec_ok (codec_pair c d)"
  by (simp add: codec_ok_def codec_pair_def dreturn_def)

fun dec_n :: "'a decoder \<Rightarrow> nat \<Rightarrow> 'a list decoder" where
  "dec_n d 0 = dreturn []"
| "dec_n d (Suc n) = dbind d (\<lambda>x. dbind (dec_n d n) (\<lambda>xs. dreturn (x # xs)))"

lemma dec_n: "codec_ok c \<Longrightarrow> dec_n (dec c) (length xs) (concat (map (enc c) xs) @ rest) = Inr (xs, rest)"
  by (induction xs) (simp_all add: codec_ok_def dreturn_def)

definition codec_list :: "u8 \<Rightarrow> 'a codec \<Rightarrow> 'a list codec" where
  "codec_list tag c =
     \<lparr> enc = (\<lambda>xs. tag # unary (length xs) @ concat (map (enc c) xs)),
       dec = expect_tag tag (dbind read_unary (dec_n (dec c))) \<rparr>"

lemma codec_ok_list: "codec_ok c \<Longrightarrow> codec_ok (codec_list tag c)"
  unfolding codec_ok_def [of "codec_list tag c"] by (simp add: codec_list_def expect_tag_def dec_n)

definition codec_map :: "('a \<Rightarrow> 'b) \<Rightarrow> ('b \<Rightarrow> 'a) \<Rightarrow> 'b codec \<Rightarrow> 'a codec" where
  "codec_map f g c = \<lparr> enc = (\<lambda>x. enc c (f x)), dec = dbind (dec c) (\<lambda>y. dreturn (g y)) \<rparr>"

lemma codec_ok_map: "codec_ok c \<Longrightarrow> (\<And>x. g (f x) = x) \<Longrightarrow> codec_ok (codec_map f g c)"
  by (simp add: codec_ok_def codec_map_def dreturn_def)

definition codec_bool :: "bool codec" where
  "codec_bool = codec_num 0x01 (\<lambda>b. if b then 1 else 0) (\<lambda>n. n = 1)"

definition codec_header :: "(bool \<times> nat) codec" where
  "codec_header =
     \<lparr> enc = (\<lambda>(list, n). (if list then 0xC1 else 0x80) # unary n),
       dec = (\<lambda>b. case b of
                [] \<Rightarrow> Inl InputTooShort
              | t # b' \<Rightarrow> dbind read_unary (\<lambda>n. dreturn (t = 0xC1, n)) b') \<rparr>"

definition codec_kind :: "tx_kind codec" where
  "codec_kind = codec_num 0x02 (\<lambda>k. case k of Create \<Rightarrow> 0 | Call a \<Rightarrow> Suc (unat a))
     (\<lambda>n. case n of 0 \<Rightarrow> Create | Suc a \<Rightarrow> Call (of_nat a))"

definition codec_logs :: "log list codec" where
  "codec_logs = codec_list 0xC2 (codec_map (\<lambda>l. (lg_address l, lg_topics l, lg_data l))
     (\<lambda>(a, ts, d). \<lparr> lg_address = a, lg_topics = ts, lg_data = d \<rparr>)
     (codec_pair (codec_word 0x14) (codec_pair (codec_list 0xC3 (codec_word 0x20)) (codec_list 0x04 (codec_word 0x08)))))"

definition codec_receipt :: "receipt_with_bloom codec" where
  "codec_receipt = codec_map (\<lambda>r. (rc_logs r, rc_status r, rc_cumulative_gas_used r, rc_logs_bloom r))
     (\<lambda>(logs, st, gas, bloom). \<lparr> rc_status = st, rc_cumulative_gas_used = gas, rc_logs = logs, rc_logs_bloom = bloom \<rparr>)
     (codec_pair codec_logs (codec_pair codec_bool (codec_pair (codec_word 0x10) (codec_word 0x11))))"

definition sample_rlp :: rlp where
  "sample_rlp =
     \<lparr> rl_header = codec_header, rl_u8 = codec_word 0x08, rl_u64 = codec_word 0x40, rl_u128 = codec_word 0x10,
       rl_u256 = codec_word 0x12, rl_b256 = codec_word 0x20, rl_address = codec_word 0x14, rl_bool = codec_bool,
       rl_kind = codec_kind, rl_bytes = codec_list 0x04 (codec_word 0x08), rl_bloom = codec_word 0x11,
       rl_logs = codec_logs, rl_receipt = codec_receipt \<rparr>"

lemma rlp_ok_sample: "rlp_ok sample_rlp"
proof -
  have "codec_ok codec_header" by (auto simp: codec_ok_def codec_header_def dreturn_def)
  moreover have "codec_ok codec_bool" unfolding codec_bool_def by (rule codec_ok_num) simp
  moreover have "codec_ok codec_kind" unfolding codec_kind_def by (rule codec_ok_num) (simp split: tx_kind.split)
  moreover have "codec_ok codec_logs" unfolding codec_logs_def
    by (intro codec_ok_list codec_ok_map codec_ok_pair codec_ok_word) simp
  ultimately show ?thesis
    unfolding rlp_ok_def sample_rlp_def codec_receipt_def
    by (auto intro!: codec_ok_list codec_ok_map codec_ok_pair codec_ok_word)
qed

lemma rlp_rejects_sample: "rlp_rejects sample_rlp"
  by (simp add: rlp_rejects_def sample_rlp_def codec_word_def codec_num_def expect_tag_def)

lemma list_bytes_sample: "list_bytes sample_rlp"
  by (simp add: list_bytes_def sample_rlp_def codec_header_def codec_receipt_def codec_map_def codec_pair_def
      codec_logs_def codec_list_def)

section \<open>Properties\<close>

text \<open>
  A deposit receipt survives encoding and decoding, and whatever follows it is left over, exactly when it
  does not have a version without a nonce; then the version is read as the nonce.
\<close>

theorem deposit_receipt_roundtrip:
  assumes "rlp_ok R"
  shows "decode_deposit_receipt R (encode_deposit_receipt R r @ rest) = Inr (r, rest) \<longleftrightarrow>
    \<not> (dp_deposit_nonce r = None \<and> dp_deposit_receipt_version r \<noteq> None)"
  unfolding decode_encode_deposit_receipt [OF assms]
  by (cases r) (auto simp: shifted_def split: option.splits)

definition sample_receipt :: receipt_with_bloom where
  "sample_receipt = \<lparr> rc_status = True, rc_cumulative_gas_used = 21000, rc_logs = [], rc_logs_bloom = 0 \<rparr>"

theorem deposit_receipt_roundtrip_witness:
  "let r = \<lparr> dp_inner = sample_receipt, dp_deposit_nonce = Some 3, dp_deposit_receipt_version = Some 1 \<rparr> in
   rlp_ok sample_rlp \<and> decode_deposit_receipt sample_rlp (encode_deposit_receipt sample_rlp r @ [7]) = Inr (r, [7])"
  using deposit_receipt_roundtrip [OF rlp_ok_sample] rlp_ok_sample by (simp add: Let_def)





end
