(* ===== verification/Execution.thy ===== *)
theory Execution
  imports State_Db Pool_Pending "HOL-Library.Sublist"
begin

text \<open>
  Executing the transactions of a block (\<^verbatim>\<open>crates/anvil/src/eth/backend/executor.rs\<close>).

  The EVM, the database underneath, the validator of the backend and the bloom filter are arguments,
  gathered in the record \<open>exec_config\<close>. A transaction that is handed to the EVM comes back with its result and traces, or
  with an error; \<open>None\<close> is a panic.
\<close>

section \<open>Outcomes\<close>

datatype exec_output = OutCall "u8 list" | OutCreate "u8 list" "address option"

fun output_into_data :: "exec_output \<Rightarrow> u8 list" where
  "output_into_data (OutCall data) = data"
| "output_into_data (OutCreate data _) = data"

datatype exec_result =
    ExecSuccess u8 u64 "log list" exec_output
  | ExecRevert u64 "u8 list"
  | ExecHalt u8 u64

datatype ('e, 'i) evm_error = EvmDatabase 'e | EvmTransaction 'i | EvmOther

record 'tr executed_transaction =
  et_transaction :: pool_transaction
  et_exit_reason :: u8
  et_out :: "exec_output option"
  et_gas_used :: u128
  et_logs :: "log list"
  et_traces :: "'tr list"
  et_nonce :: u64

datatype ('e, 'i, 'tr) execution_outcome =
    Executed "'tr executed_transaction"
  | InvalidTx pool_transaction 'i
  | Exhausted pool_transaction
  | BlobGasExhausted pool_transaction
  | DatabaseFailure pool_transaction 'e

text \<open>
  \<open>xc_self_destruct\<close> and \<open>xc_revert\<close> are the codes of these two instruction results; \<open>xc_receipt_bloom\<close> is the
  bloom filter of the logs of one receipt, \<open>xc_accrue_address\<close> and \<open>xc_accrue_topic\<close> extend one.
\<close>

record ('db, 'e, 'i, 'tr) exec_config =
  xc_basic :: "address \<Rightarrow> 'db \<Rightarrow> 'db \<times> ('e, account_info option) result"
  xc_account_default :: account_info
  xc_validate :: "pending_transaction \<Rightarrow> account_info \<Rightarrow> tx_env \<Rightarrow> ('i, unit) result option"
  xc_transact :: "pool_transaction \<Rightarrow> tx_env \<Rightarrow> 'db \<Rightarrow> 'db \<times> (('e, 'i) evm_error, exec_result \<times> 'tr list) result"
  xc_block_env :: block_env
  xc_parent_hash :: b256
  xc_disable_block_gas_limit :: bool
  xc_is_london :: bool
  xc_is_cancun :: bool
  xc_blob_gas :: "tx_eip4844 \<Rightarrow> u64"
  xc_max_blob_gas_per_block :: u64
  xc_self_destruct :: u8
  xc_revert :: u8
  xc_receipt_bloom :: "log list \<Rightarrow> bloom"
  xc_accrue_address :: "address \<Rightarrow> bloom \<Rightarrow> bloom"
  xc_accrue_topic :: "b256 \<Rightarrow> bloom \<Rightarrow> bloom"

abbreviation pool_typed :: "pool_transaction \<Rightarrow> typed_transaction" where
  "pool_typed tx \<equiv> mi_transaction (pe_transaction (pt_pending_transaction tx))"

section \<open>One transaction\<close>

record 'db executor =
  ex_db :: 'db
  ex_gas_used :: u128
  ex_blob_gas_used :: u128

definition result_fields :: "('db, 'e, 'i, 'tr) exec_config \<Rightarrow> exec_result \<Rightarrow> u8 \<times> u64 \<times> exec_output option \<times> log list" where
  "result_fields c r =
     (case r of
        ExecSuccess reason gas logs out \<Rightarrow> (reason, gas, Some out, logs)
      | ExecRevert gas out \<Rightarrow> (xc_revert c, gas, Some (OutCall out), [])
      | ExecHalt reason gas \<Rightarrow> (reason, gas, None, []))"

definition executor_next ::
  "('db, 'e, 'i, 'tr) exec_config \<Rightarrow> pool_transaction \<Rightarrow> 'db executor \<Rightarrow>
   ('db executor \<times> ('e, 'i, 'tr) execution_outcome) option" where
  "executor_next c tx ex =
     (case xc_basic c (pe_sender (pt_pending_transaction tx)) (ex_db ex) of
        (db1, Inl err) \<Rightarrow> Some (ex\<lparr> ex_db := db1 \<rparr>, DatabaseFailure tx err)
      | (db1, Inr acc) \<Rightarrow>
          let account = unwrap_or acc (xc_account_default c); ex1 = ex\<lparr> ex_db := db1 \<rparr> in
          case to_revm_tx_env (pt_pending_transaction tx) of
            Some env \<Rightarrow>
              let limit = to_narrow (be_gas_limit (xc_block_env c)) :: u128 option in
              if \<not> xc_disable_block_gas_limit c \<and> limit = None then None
              else if \<not> xc_disable_block_gas_limit c \<and>
                        the limit < saturating_add (ex_gas_used ex) (ucast (te_gas_limit env))
              then Some (ex1, Exhausted tx)
              else if ucast (xc_max_blob_gas_per_block c)
                        < saturating_add (ex_blob_gas_used ex) (unwrap_or (blob_gas (xc_blob_gas c) (pool_typed tx)) 0)
              then Some (ex1, BlobGasExhausted tx)
              else (case xc_validate c (pt_pending_transaction tx) account env of
                      None \<Rightarrow> None
                    | Some (Inl err) \<Rightarrow> Some (ex1, InvalidTx tx err)
                    | Some (Inr _) \<Rightarrow>
                        (case xc_transact c tx env db1 of
                           (db2, Inl (EvmDatabase err)) \<Rightarrow> Some (ex1\<lparr> ex_db := db2 \<rparr>, DatabaseFailure tx err)
                         | (db2, Inl (EvmTransaction err)) \<Rightarrow> Some (ex1\<lparr> ex_db := db2 \<rparr>, InvalidTx tx err)
                         | (db2, Inl EvmOther) \<Rightarrow> None
                         | (db2, Inr (res, traces)) \<Rightarrow>
                             (case result_fields c res of
                                (exit_reason, gas_used, out, logs) \<Rightarrow>
                                  Some (\<lparr> ex_db = db2, ex_gas_used = saturating_add (ex_gas_used ex) (ucast gas_used),
                                          ex_blob_gas_used =
                                            (case blob_gas (xc_blob_gas c) (pool_typed tx) of
                                               Some g \<Rightarrow> saturating_add (ex_blob_gas_used ex) g
                                             | None \<Rightarrow> ex_blob_gas_used ex) \<rparr>,
                                        Executed \<lparr> et_transaction = tx, et_exit_reason = exit_reason, et_out = out,
                                                   et_gas_used = ucast gas_used, et_logs = logs, et_traces = traces,
                                                   et_nonce = ai_nonce account \<rparr>))))
          | None \<Rightarrow> None)"

definition create_receipt ::
  "('db, 'e, 'i, 'tr) exec_config \<Rightarrow> 'tr executed_transaction \<Rightarrow> u128 \<Rightarrow> u128 \<times> typed_receipt" where
  "create_receipt c tx cumulative =
     (let cumulative' = saturating_add cumulative (et_gas_used tx);
          r = \<lparr> rc_status = (et_exit_reason tx \<le> xc_self_destruct c), rc_cumulative_gas_used = cumulative',
                rc_logs = et_logs tx, rc_logs_bloom = xc_receipt_bloom c (et_logs tx) \<rparr>
      in (cumulative',
          case pool_typed (et_transaction tx) of
            Legacy _ \<Rightarrow> LegacyReceipt r
          | EIP2930 _ \<Rightarrow> EIP2930Receipt r
          | EIP1559 _ \<Rightarrow> EIP1559Receipt r
          | EIP4844 _ \<Rightarrow> EIP4844Receipt r
          | Deposit t \<Rightarrow> DepositReceipt \<lparr> dp_inner = r, dp_deposit_nonce = Some (dep_nonce t),
                                          dp_deposit_receipt_version = Some 1 \<rparr>))"

definition build_logs_bloom :: "('db, 'e, 'i, 'tr) exec_config \<Rightarrow> log list \<Rightarrow> bloom \<Rightarrow> bloom" where
  "build_logs_bloom c logs bloom =
     fold (\<lambda>l b. fold (xc_accrue_topic c) (lg_topics l) (xc_accrue_address c (lg_address l) b)) logs bloom"

section \<open>The block\<close>

record 'tr block_acc =
  ba_transactions :: "maybe_impersonated_transaction list"
  ba_infos :: "'tr transaction_info list"
  ba_receipts :: "typed_receipt list"
  ba_bloom :: bloom
  ba_cumulative_gas_used :: u128
  ba_cumulative_blob_gas_used :: "u128 option"
  ba_included :: "pool_transaction list"
  ba_invalid :: "pool_transaction list"

definition block_acc_init :: "('db, 'e, 'i, 'tr) exec_config \<Rightarrow> 'tr block_acc" where
  "block_acc_init c =
     \<lparr> ba_transactions = [], ba_infos = [], ba_receipts = [], ba_bloom = 0, ba_cumulative_gas_used = 0,
       ba_cumulative_blob_gas_used = (if xc_is_cancun c then Some 0 else None), ba_included = [], ba_invalid = [] \<rparr>"

definition created_address :: "exec_output option \<Rightarrow> address option" where
  "created_address out = (case out of Some (OutCreate _ a) \<Rightarrow> a | _ \<Rightarrow> None)"

definition include_executed ::
  "('db, 'e, 'i, 'tr) exec_config \<Rightarrow> 'tr executed_transaction \<Rightarrow> 'tr block_acc \<Rightarrow> 'tr block_acc" where
  "include_executed c tx a =
     (case create_receipt c tx (ba_cumulative_gas_used a) of
        (cumulative, receipt) \<Rightarrow>
          let transaction = et_transaction tx; pending = pt_pending_transaction transaction in
          \<lparr> ba_transactions = ba_transactions a @ [pe_transaction pending],
            ba_infos = ba_infos a @
              [\<lparr> tn_transaction_hash = pt_hash transaction, tn_transaction_index = word_of_nat (length (ba_infos a)),
                 tn_from = pe_sender pending, tn_to = tx_to (mi_transaction (pe_transaction pending)),
                 tn_contract_address = created_address (et_out tx), tn_traces = et_traces tx,
                 tn_exit = et_exit_reason tx, tn_out = map_option output_into_data (et_out tx),
                 tn_nonce = et_nonce tx, tn_gas_used = et_gas_used tx \<rparr>],
            ba_receipts = ba_receipts a @ [receipt],
            ba_bloom = build_logs_bloom c (et_logs tx) (ba_bloom a),
            ba_cumulative_gas_used = cumulative,
            ba_cumulative_blob_gas_used =
              (if xc_is_cancun c
               then Some (saturating_add (unwrap_or (ba_cumulative_blob_gas_used a) 0)
                      (unwrap_or (blob_gas (xc_blob_gas c) (pool_typed transaction)) 0))
               else ba_cumulative_blob_gas_used a),
            ba_included = ba_included a @ [transaction],
            ba_invalid = ba_invalid a \<rparr>)"

fun execute_loop ::
  "('db, 'e, 'i, 'tr) exec_config \<Rightarrow> pool_transaction list \<Rightarrow> 'db executor \<Rightarrow> 'tr block_acc \<Rightarrow>
   ('db executor \<times> 'tr block_acc) option" where
  "execute_loop c [] ex a = Some (ex, a)"
| "execute_loop c (tx # txs) ex a =
     (case executor_next c tx ex of
        None \<Rightarrow> None
      | Some (ex', Executed etx) \<Rightarrow> execute_loop c txs ex' (include_executed c etx a)
      | Some (ex', InvalidTx t _) \<Rightarrow> execute_loop c txs ex' (a\<lparr> ba_invalid := ba_invalid a @ [t] \<rparr>)
      | Some (ex', _) \<Rightarrow> execute_loop c txs ex' a)"

record 'tr executed_transactions =
  xt_block :: "'tr block_info"
  xt_included :: "pool_transaction list"
  xt_invalid :: "pool_transaction list"

text \<open>\<open>oh\<close>, \<open>tr\<close> and \<open>rr\<close> are the hash of the ommers and the roots of transactions and receipts, \<open>state_root\<close> is \<^verbatim>\<open>maybe_state_root\<close>.\<close>

definition execute ::
  "(header list \<Rightarrow> b256) \<Rightarrow> (maybe_impersonated_transaction list \<Rightarrow> b256) \<Rightarrow> (typed_receipt list \<Rightarrow> b256) \<Rightarrow>
   ('db \<Rightarrow> b256 option) \<Rightarrow> ('db, 'e, 'i, 'tr) exec_config \<Rightarrow> 'db \<Rightarrow> pool_transaction list \<Rightarrow>
   ('db \<times> 'tr executed_transactions) option" where
  "execute oh tr rr state_root c db pending =
     (let env = xc_block_env c in
      case (to_narrow (be_gas_limit env), to_narrow (be_number env), to_narrow (be_timestamp env),
            to_narrow (be_basefee env) :: u128 option) of
        (Some limit, Some block_number, Some timestamp, basefee) \<Rightarrow>
          if xc_is_london c \<and> basefee = None then None
          else (case execute_loop c pending \<lparr> ex_db = db, ex_gas_used = 0, ex_blob_gas_used = 0 \<rparr> (block_acc_init c) of
                  None \<Rightarrow> None
                | Some (ex, a) \<Rightarrow>
                    let partial_header =
                          \<lparr> ph_parent_hash = xc_parent_hash c, ph_beneficiary = be_coinbase env,
                            ph_state_root = unwrap_or (state_root (ex_db ex)) 0, ph_receipts_root = rr (ba_receipts a),
                            ph_logs_bloom = ba_bloom a, ph_difficulty = be_difficulty env, ph_number = block_number,
                            ph_gas_limit = limit, ph_gas_used = ba_cumulative_gas_used a, ph_timestamp = timestamp,
                            ph_extra_data = [], ph_mix_hash = 0, ph_blob_gas_used = ba_cumulative_blob_gas_used a,
                            ph_excess_blob_gas =
                              (if xc_is_cancun c then map_option ucast (get_blob_excess_gas env) else None),
                            ph_parent_beacon_block_root = None, ph_nonce = 0,
                            ph_base_fee = (if xc_is_london c then basefee else None) \<rparr>
                    in Some (ex_db ex,
                         \<lparr> xt_block = \<lparr> bi_block = block_new oh tr partial_header (ba_transactions a) [],
                                        bi_transactions = ba_infos a, bi_receipts = ba_receipts a \<rparr>,
                           xt_included = ba_included a, xt_invalid = ba_invalid a \<rparr>))
      | _ \<Rightarrow> None)"

section \<open>What one step does\<close>

text \<open>The contract of the EVM: a transaction uses at most its gas limit.\<close>

fun result_gas :: "exec_result \<Rightarrow> u64" where
  "result_gas (ExecSuccess _ gas _ _) = gas"
| "result_gas (ExecRevert gas _) = gas"
| "result_gas (ExecHalt _ gas) = gas"

definition evm_ok :: "('db, 'e, 'i, 'tr) exec_config \<Rightarrow> bool" where
  "evm_ok c \<longleftrightarrow>
     (\<forall>tx env db db' r traces. xc_transact c tx env db = (db', Inr (r, traces)) \<longrightarrow> result_gas r \<le> te_gas_limit env)"

lemma result_fields_gas: "fst (snd (result_fields c r)) = result_gas r"
  by (cases r) (simp_all add: result_fields_def)

lemma unat_ucast_u128: "unat (ucast (x :: u64) :: u128) = unat x"
  using unsigned_less [of x, where ?'a = nat] by (simp add: unat_ucast_mod)

definition untouched :: "'db executor \<Rightarrow> 'db executor \<Rightarrow> bool" where
  "untouched ex ex' \<longleftrightarrow> ex_gas_used ex' = ex_gas_used ex \<and> ex_blob_gas_used ex' = ex_blob_gas_used ex"

lemma executor_next_spec:
  assumes nx: "executor_next c tx ex = Some (ex', out)" and evm: "evm_ok c"
  shows "case out of
      Executed e \<Rightarrow>
        et_transaction e = tx \<and> ex_gas_used ex' = saturating_add (ex_gas_used ex) (et_gas_used e) \<and>
        ex_blob_gas_used ex' = saturating_add (ex_blob_gas_used ex) (unwrap_or (blob_gas (xc_blob_gas c) (pool_typed tx)) 0) \<and>
        ex_blob_gas_used ex' \<le> ucast (xc_max_blob_gas_per_block c) \<and>
        (xc_disable_block_gas_limit c \<or> unat (ex_gas_used ex') \<le> unat (be_gas_limit (xc_block_env c)))
    | InvalidTx t _ \<Rightarrow> t = tx \<and> untouched ex ex'
    | _ \<Rightarrow> untouched ex ex'"
proof -
  obtain db1 acc where b: "xc_basic c (pe_sender (pt_pending_transaction tx)) (ex_db ex) = (db1, acc)" by (meson surj_pair)
  show ?thesis
  proof (cases acc)
    case (Inl err)
    then show ?thesis using nx b by (auto simp: executor_next_def untouched_def)
  next
    case (Inr a)
    obtain env where el: "to_revm_tx_env (pt_pending_transaction tx) = Some env"
      using nx b Inr by (auto simp: executor_next_def Let_def split: option.splits)
    let ?account = "unwrap_or a (xc_account_default c)"
    obtain db2 r where t: "xc_transact c tx env db1 = (db2, r)" by (meson surj_pair)
    note d = nx [unfolded executor_next_def b Inr el Let_def prod.case sum.case option.case t]
    show ?thesis
    proof (cases out)
      case (Executed e)
      from d Executed obtain res traces where r: "r = Inr (res, traces)"
        by (auto split: if_splits sum.splits option.splits evm_error.splits)
      have gas: "result_gas res \<le> te_gas_limit env" using evm t unfolding evm_ok_def r by blast
      obtain reason g outp logs where f: "result_fields c res = (reason, g, outp, logs)" by (metis prod_cases4)
      then have g: "g = result_gas res" using result_fields_gas [of c res] by simp
      have lim: "xc_disable_block_gas_limit c \<or>
          (\<exists>limit. to_narrow (be_gas_limit (xc_block_env c)) = Some (limit :: u128) \<and>
             saturating_add (ex_gas_used ex) (ucast (te_gas_limit env)) \<le> limit)"
        and blob: "saturating_add (ex_blob_gas_used ex) (unwrap_or (blob_gas (xc_blob_gas c) (pool_typed tx)) 0)
          \<le> ucast (xc_max_blob_gas_per_block c)"
        and out: "ex' = \<lparr> ex_db = db2, ex_gas_used = saturating_add (ex_gas_used ex) (ucast g),
            ex_blob_gas_used = (case blob_gas (xc_blob_gas c) (pool_typed tx) of
               Some g \<Rightarrow> saturating_add (ex_blob_gas_used ex) g | None \<Rightarrow> ex_blob_gas_used ex) \<rparr>"
          "e = \<lparr> et_transaction = tx, et_exit_reason = reason, et_out = outp, et_gas_used = ucast g, et_logs = logs,
            et_traces = traces, et_nonce = ai_nonce ?account \<rparr>"
        using d Executed r f by (auto split: if_splits sum.splits option.splits simp: not_less)
      have "(ucast g :: u128) \<le> ucast (te_gas_limit env)"
        using gas unfolding g by (simp add: word_le_nat_alt unat_ucast_u128)
      then have "saturating_add (ex_gas_used ex) (ucast g) \<le> saturating_add (ex_gas_used ex) (ucast (te_gas_limit env))"
        by (rule saturating_add_mono)
      then have "xc_disable_block_gas_limit c \<or> unat (saturating_add (ex_gas_used ex) (ucast g)) \<le> unat (be_gas_limit (xc_block_env c))"
        using lim by (auto simp: word_le_nat_alt dest!: to_narrow_SomeD)
      then show ?thesis using out blob Executed by (auto split: option.split)
    qed (use d in \<open>auto simp: untouched_def split: if_splits sum.splits option.splits evm_error.splits prod.splits\<close>)
  qed
qed

section \<open>What the loop keeps\<close>

text \<open>The transactions, infos and receipts of the block belong to the included transactions, one each and in order.\<close>

definition block_lists :: "'tr block_acc \<Rightarrow> bool" where
  "block_lists a \<longleftrightarrow>
     ba_transactions a = map (pe_transaction \<circ> pt_pending_transaction) (ba_included a) \<and>
     map tn_transaction_hash (ba_infos a) = map pt_hash (ba_included a) \<and>
     map tn_transaction_index (ba_infos a) = map word_of_nat [0..<length (ba_included a)] \<and>
     length (ba_receipts a) = length (ba_included a)"

definition receipts_ok :: "('db, 'e, 'i, 'tr) exec_config \<Rightarrow> 'tr block_acc \<Rightarrow> bool" where
  "receipts_ok c a \<longleftrightarrow>
     sorted (map cumulative_gas_used (ba_receipts a)) \<and>
     (\<forall>r\<in>set (ba_receipts a). cumulative_gas_used r \<le> ba_cumulative_gas_used a) \<and>
     ba_cumulative_gas_used a = (if ba_receipts a = [] then 0 else cumulative_gas_used (last (ba_receipts a))) \<and>
     ba_bloom a = build_logs_bloom c (concat (map receipt_logs (ba_receipts a))) 0"

definition gas_ok :: "('db, 'e, 'i, 'tr) exec_config \<Rightarrow> 'db executor \<Rightarrow> 'tr block_acc \<Rightarrow> bool" where
  "gas_ok c ex a \<longleftrightarrow>
     ba_cumulative_gas_used a = ex_gas_used ex \<and>
     (xc_disable_block_gas_limit c \<or> unat (ex_gas_used ex) \<le> unat (be_gas_limit (xc_block_env c))) \<and>
     ex_blob_gas_used ex \<le> ucast (xc_max_blob_gas_per_block c) \<and>
     ba_cumulative_blob_gas_used a = (if xc_is_cancun c then Some (ex_blob_gas_used ex) else None)"

lemma invalid_irrelevant [simp]:
  "block_lists (a\<lparr> ba_invalid := x \<rparr>) = block_lists a" "receipts_ok c (a\<lparr> ba_invalid := x \<rparr>) = receipts_ok c a"
  "gas_ok c ex (a\<lparr> ba_invalid := x \<rparr>) = gas_ok c ex a"
  by (simp_all add: block_lists_def receipts_ok_def gas_ok_def)

lemma gas_ok_untouched: "untouched ex ex' \<Longrightarrow> gas_ok c ex a \<Longrightarrow> gas_ok c ex' a"
  by (simp add: gas_ok_def untouched_def)

lemma create_receipt_fields:
  "fst (create_receipt c tx g) = saturating_add g (et_gas_used tx)"
  "cumulative_gas_used (snd (create_receipt c tx g)) = saturating_add g (et_gas_used tx)"
  "receipt_logs (snd (create_receipt c tx g)) = et_logs tx"
  by (simp_all add: create_receipt_def Let_def cumulative_gas_used_def receipt_logs_def split: typed_transaction.split)

lemma include_executed_fields:
  "ba_transactions (include_executed c e a) = ba_transactions a @ [pe_transaction (pt_pending_transaction (et_transaction e))]"
  "map tn_transaction_hash (ba_infos (include_executed c e a)) = map tn_transaction_hash (ba_infos a) @ [pt_hash (et_transaction e)]"
  "map tn_transaction_index (ba_infos (include_executed c e a)) =
     map tn_transaction_index (ba_infos a) @ [word_of_nat (length (ba_infos a))]"
  "ba_receipts (include_executed c e a) = ba_receipts a @ [snd (create_receipt c e (ba_cumulative_gas_used a))]"
  "ba_bloom (include_executed c e a) = build_logs_bloom c (et_logs e) (ba_bloom a)"
  "ba_cumulative_gas_used (include_executed c e a) = saturating_add (ba_cumulative_gas_used a) (et_gas_used e)"
  "ba_included (include_executed c e a) = ba_included a @ [et_transaction e]"
  "ba_invalid (include_executed c e a) = ba_invalid a"
  by (simp_all add: include_executed_def split_beta Let_def create_receipt_fields(1))

lemma build_logs_bloom_append:
  "build_logs_bloom c (xs @ ys) b = build_logs_bloom c ys (build_logs_bloom c xs b)"
  by (simp add: build_logs_bloom_def)

lemma block_lists_include: "block_lists a \<Longrightarrow> block_lists (include_executed c e a)"
proof -
  assume a: "block_lists a"
  then have "length (ba_infos a) = length (ba_included a)" unfolding block_lists_def by (metis length_map)
  with a show ?thesis by (simp add: block_lists_def include_executed_fields)
qed

lemma receipts_ok_include:
  assumes "receipts_ok c a"
  shows "receipts_ok c (include_executed c e a)"
proof -
  let ?g = "saturating_add (ba_cumulative_gas_used a) (et_gas_used e)"
  have "cumulative_gas_used r \<le> ?g" if "r \<in> set (ba_receipts a)" for r
  proof -
    have "cumulative_gas_used r \<le> ba_cumulative_gas_used a" using assms that unfolding receipts_ok_def by blast
    also have "\<dots> \<le> ?g" by (rule saturating_add_ge)
    finally show ?thesis .
  qed
  then show ?thesis using assms
    by (auto simp: receipts_ok_def include_executed_fields create_receipt_fields sorted_append build_logs_bloom_append)
qed

lemma execute_loop_spec:
  assumes "execute_loop c txs ex a = Some (ex', a')" and evm: "evm_ok c"
    and "block_lists a" and "receipts_ok c a" and "gas_ok c ex a"
  shows "block_lists a' \<and> receipts_ok c a' \<and> gas_ok c ex' a' \<and>
    (\<exists>inc inv. ba_included a' = ba_included a @ inc \<and> ba_invalid a' = ba_invalid a @ inv \<and>
       subseq inc txs \<and> subseq inv txs \<and> length inc + length inv \<le> length txs)"
  using assms(1,3-)
proof (induction txs arbitrary: ex a)
  case (Cons tx txs)
  then obtain ex1 out where nx: "executor_next c tx ex = Some (ex1, out)" by (auto split: option.splits)
  note sp = executor_next_spec [OF nx evm]
  have skip: ?case if "execute_loop c txs ex1 a = Some (ex', a')" "untouched ex ex1"
  proof -
    from Cons.IH [OF that(1) Cons.prems(2,3) gas_ok_untouched [OF that(2) Cons.prems(4)]] obtain inc inv where
      "block_lists a'" "receipts_ok c a'" "gas_ok c ex' a'"
      "ba_included a' = ba_included a @ inc" "ba_invalid a' = ba_invalid a @ inv"
      "subseq inc txs" "subseq inv txs" "length inc + length inv \<le> length txs" by blast
    then show ?case by (intro conjI exI [of _ inc] exI [of _ inv]) auto
  qed
  show ?case
  proof (cases out)
    case (Executed e)
    let ?a = "include_executed c e a"
    have "execute_loop c txs ex1 ?a = Some (ex', a')" using Cons.prems(1) nx Executed by simp
    moreover have "gas_ok c ex1 ?a"
      using sp Cons.prems(4) Executed
      by (auto simp: gas_ok_def include_executed_fields) (auto simp: include_executed_def split_beta Let_def)
    ultimately have "block_lists a' \<and> receipts_ok c a' \<and> gas_ok c ex' a' \<and>
      (\<exists>inc inv. ba_included a' = ba_included ?a @ inc \<and> ba_invalid a' = ba_invalid ?a @ inv \<and>
         subseq inc txs \<and> subseq inv txs \<and> length inc + length inv \<le> length txs)"
      using Cons.IH [of ex1 ?a] block_lists_include receipts_ok_include Cons.prems(2,3) by blast
    then obtain inc inv where "block_lists a'" "receipts_ok c a'" "gas_ok c ex' a'"
      "ba_included a' = ba_included a @ [tx] @ inc" "ba_invalid a' = ba_invalid a @ inv"
      "subseq inc txs" "subseq inv txs" "length inc + length inv \<le> length txs"
      using sp Executed by (auto simp: include_executed_fields)
    then show ?thesis by (intro conjI exI [of _ "tx # inc"] exI [of _ inv]) auto
  next
    case (InvalidTx t err)
    let ?a = "a\<lparr> ba_invalid := ba_invalid a @ [t] \<rparr>"
    have "execute_loop c txs ex1 ?a = Some (ex', a')" using Cons.prems(1) nx InvalidTx by simp
    moreover have "block_lists ?a" "receipts_ok c ?a" "gas_ok c ex1 ?a"
      using sp Cons.prems(2-) InvalidTx gas_ok_untouched [of ex ex1 c a] by simp_all
    ultimately obtain inc inv where "block_lists a'" "receipts_ok c a'" "gas_ok c ex' a'"
      "ba_included a' = ba_included a @ inc" "ba_invalid a' = ba_invalid a @ [tx] @ inv"
      "subseq inc txs" "subseq inv txs" "length inc + length inv \<le> length txs"
      using Cons.IH [of ex1 ?a] sp InvalidTx by auto
    then show ?thesis by (intro conjI exI [of _ inc] exI [of _ "tx # inv"]) auto
  qed (use skip Cons.prems(1) nx sp in simp_all)
qed auto

lemma execute_spec:
  assumes "execute oh tr rr state_root c db pending = Some (db', x)" and evm: "evm_ok c"
  obtains ex a limit where "block_lists a" "receipts_ok c a" "gas_ok c ex a"
    "subseq (ba_included a) pending" "subseq (ba_invalid a) pending"
    "length (ba_included a) + length (ba_invalid a) \<le> length pending"
    "xt_included x = ba_included a" "xt_invalid x = ba_invalid a" "bi_transactions (xt_block x) = ba_infos a"
    "bi_receipts (xt_block x) = ba_receipts a" "bk_transactions (bi_block (xt_block x)) = ba_transactions a"
    "hd_gas_used (bk_header (bi_block (xt_block x))) = ba_cumulative_gas_used a"
    "hd_logs_bloom (bk_header (bi_block (xt_block x))) = ba_bloom a"
    "hd_blob_gas_used (bk_header (bi_block (xt_block x))) = ba_cumulative_blob_gas_used a"
    "hd_gas_limit (bk_header (bi_block (xt_block x))) = limit" "to_narrow (be_gas_limit (xc_block_env c)) = Some limit"
proof -
  from assms(1) obtain ex a limit where
    l: "execute_loop c pending \<lparr> ex_db = db, ex_gas_used = 0, ex_blob_gas_used = 0 \<rparr> (block_acc_init c) = Some (ex, a)"
    and x: "xt_included x = ba_included a" "xt_invalid x = ba_invalid a" "bi_transactions (xt_block x) = ba_infos a"
      "bi_receipts (xt_block x) = ba_receipts a" "bk_transactions (bi_block (xt_block x)) = ba_transactions a"
      "hd_gas_used (bk_header (bi_block (xt_block x))) = ba_cumulative_gas_used a"
      "hd_logs_bloom (bk_header (bi_block (xt_block x))) = ba_bloom a"
      "hd_blob_gas_used (bk_header (bi_block (xt_block x))) = ba_cumulative_blob_gas_used a"
      "hd_gas_limit (bk_header (bi_block (xt_block x))) = limit" "to_narrow (be_gas_limit (xc_block_env c)) = Some limit"
    by (auto simp: execute_def Let_def block_new_def split: option.splits if_splits)
  have "block_lists a \<and> receipts_ok c a \<and> gas_ok c ex a \<and>
    (\<exists>inc inv. ba_included a = ba_included (block_acc_init c) @ inc \<and> ba_invalid a = ba_invalid (block_acc_init c) @ inv \<and>
       subseq inc pending \<and> subseq inv pending \<and> length inc + length inv \<le> length pending)"
    by (rule execute_loop_spec [OF l evm])
      (simp_all add: block_acc_init_def block_lists_def receipts_ok_def gas_ok_def build_logs_bloom_def)
  then show thesis using that [of a ex limit] x by (auto simp: block_acc_init_def)
qed

section \<open>Properties\<close>

text \<open>
  C7. The block that \<^verbatim>\<open>execute\<close> builds is consistent: its transactions, infos and receipts belong to the included
  transactions, one each, in order and numbered from 0; included and invalid transactions are taken from the pending ones in
  their order; the cumulative gas of the receipts never falls and ends at the gas used in the header; and the
  bloom filter of the header is the one of all logs of the receipts, in order.
\<close>

theorem executed_block_consistent:
  assumes "execute oh tr rr state_root c db pending = Some (db', x)" and "evm_ok c"
  shows "let h = bk_header (bi_block (xt_block x)); receipts = bi_receipts (xt_block x); infos = bi_transactions (xt_block x) in
    bk_transactions (bi_block (xt_block x)) = map (pe_transaction \<circ> pt_pending_transaction) (xt_included x) \<and>
    map tn_transaction_hash infos = map pt_hash (xt_included x) \<and>
    map tn_transaction_index infos = map word_of_nat [0..<length (xt_included x)] \<and>
    length receipts = length (xt_included x) \<and>
    subseq (xt_included x) pending \<and> subseq (xt_invalid x) pending \<and>
    length (xt_included x) + length (xt_invalid x) \<le> length pending \<and>
    sorted (map cumulative_gas_used receipts) \<and>
    hd_gas_used h = (if receipts = [] then 0 else cumulative_gas_used (last receipts)) \<and>
    hd_logs_bloom h = build_logs_bloom c (concat (map receipt_logs receipts)) 0"
  by (rule execute_spec [OF assms]) (simp add: Let_def block_lists_def receipts_ok_def)

definition sample_config :: "(unit, unit, unit, unit) exec_config" where
  "sample_config =
     \<lparr> xc_basic = (\<lambda>_ db. (db, Inr None)),
       xc_account_default = \<lparr> ai_balance = 0, ai_nonce = 0, ai_code_hash = 0, ai_code = None \<rparr>,
       xc_validate = (\<lambda>_ _ _. Some (Inr ())),
       xc_transact = (\<lambda>_ env db. (db, Inr (ExecSuccess 1 (min 21000 (te_gas_limit env)) [] (OutCall []), []))),
       xc_block_env = \<lparr> be_number = 1, be_coinbase = 0, be_timestamp = 5, be_gas_limit = 30000, be_basefee = 7,
                        be_difficulty = 0, be_prevrandao = None, be_blob_excess_gas_and_price = None \<rparr>,
       xc_parent_hash = 0, xc_disable_block_gas_limit = False, xc_is_london = True, xc_is_cancun = False,
       xc_blob_gas = (\<lambda>_. 0), xc_max_blob_gas_per_block = 786432, xc_self_destruct = 3, xc_revert = 16,
       xc_receipt_bloom = (\<lambda>_. 0), xc_accrue_address = (\<lambda>_ b. b), xc_accrue_topic = (\<lambda>_ b. b) \<rparr>"

definition sample_pending :: "u64 \<Rightarrow> pool_transaction" where
  "sample_pending n =
     \<lparr> pt_pending_transaction =
         \<lparr> pe_transaction = mi_new (Legacy \<lparr> sg_tx = \<lparr> legacy_chain_id = None, legacy_nonce = n, legacy_gas_price = 7,
              legacy_gas_limit = 21000, legacy_to = Call 7, legacy_value = 5, legacy_input = [] \<rparr>,
              sg_signature = impersonated_signature, sg_hash = 0 \<rparr>),
           pe_sender = 1, pe_hash = ucast n \<rparr>,
       pt_requires = [], pt_provides = [], pt_priority = 0 \<rparr>"

lemma evm_ok_sample: "evm_ok sample_config"
  by (auto simp: evm_ok_def sample_config_def)

lemma execute_sample:
  "\<exists>x. execute (\<lambda>_. 0) (\<lambda>_. 0) (\<lambda>_. 0) (\<lambda>_. None) sample_config () [sample_pending 0, sample_pending 1] = Some ((), x) \<and>
     xt_included x = [sample_pending 0]"
  by (simp add: execute_def sample_config_def sample_pending_def Let_def to_narrow_def executor_next_def
      to_revm_tx_env_def plain_env_def mi_new_def saturating_add_def result_fields_def include_executed_def
      create_receipt_def block_acc_init_def)

theorem executed_block_consistent_witness:
  "evm_ok sample_config \<and>
   (\<exists>x. execute (\<lambda>_. 0) (\<lambda>_. 0) (\<lambda>_. 0) (\<lambda>_. None) sample_config () [sample_pending 0, sample_pending 1] = Some ((), x) \<and>
      length (bi_receipts (xt_block x)) = 1)"
proof -
  obtain x where x: "execute (\<lambda>_. 0) (\<lambda>_. 0) (\<lambda>_. 0) (\<lambda>_. None) sample_config () [sample_pending 0, sample_pending 1] = Some ((), x)"
    "xt_included x = [sample_pending 0]" using execute_sample by blast
  from executed_block_consistent [OF x(1) evm_ok_sample] x evm_ok_sample show ?thesis by (simp add: Let_def)
qed



end
