(* ===== verification/Validator.thy ===== *)
theory Validator
  imports State_Db Pool_Pending
begin

text \<open>
  Validation of transactions by the backend (\<^verbatim>\<open>impl TransactionValidator for Backend\<close> in
  \<^verbatim>\<open>crates/anvil/src/eth/backend/mem/mod.rs\<close>) and the errors it reports
  (\<^verbatim>\<open>InvalidTransactionError\<close> in \<^verbatim>\<open>crates/anvil/src/eth/error.rs\<close>).

  The checks are definitions of their own, one for each block of the source, run one after the other by
  \<open>and_then\<close>, the question mark operator. A check returns \<open>None\<close> where \<^verbatim>\<open>to()\<close> panics on a wide integer. The check
  of the blobs against their commitments is made by \<^verbatim>\<open>alloy\<close> and is a parameter, as are the blob gas of a
  transaction and the maximal number of blobs.
\<close>

section \<open>Errors\<close>

datatype 'b invalid_transaction_error =
    NonceTooLow
  | NonceTooHigh
  | NonceMaxValue
  | InsufficientFundsForTransfer
  | MaxInitCodeSizeExceeded
  | InsufficientFunds
  | GasUintOverflow
  | GasTooLow
  | GasTooHigh string
  | TipAboveFeeCap
  | FeeCapTooLow
  | BasicOutOfGas u128
  | RevertError "u8 list option"
  | SenderNoEOA
  | InvalidChainId
  | IncompatibleEIP155
  | AccessListNotSupported
  | BlobFeeCapTooLow
  | BlobVersionedHashesNotSupported
  | MaxFeePerBlobGasNotSupported
  | NoBlobHashes
  | TooManyBlobs nat nat
  | BlobTransactionValidationError 'b
  | BlobCreateTransaction
  | BlobVersionNotSupported
  | EmptyBlobs

text \<open>The errors of the EVM that are converted; the other ones reach \<^verbatim>\<open>todo!()\<close>, a panic.\<close>

datatype evm_invalid =
    EvmInvalidChainId
  | EvmPriorityFeeGreaterThanMaxFee
  | EvmGasPriceLessThanBasefee
  | EvmCallerGasLimitMoreThanBlock
  | EvmCallGasCostMoreThanGasLimit
  | EvmRejectCallerWithCode
  | EvmLackOfFundForMaxFee
  | EvmOverflowPaymentInTransaction
  | EvmNonceOverflowInTransaction
  | EvmCreateInitCodeSizeLimit
  | EvmNonceTooHigh
  | EvmNonceTooLow
  | EvmAccessListNotSupported
  | EvmBlobGasPriceGreaterThanMax
  | EvmBlobVersionedHashesNotSupported
  | EvmMaxFeePerBlobGasNotSupported
  | EvmBlobCreateTransaction
  | EvmBlobVersionNotSupported
  | EvmEmptyBlobs
  | EvmTooManyBlobs nat nat
  | EvmOtherInvalid

fun invalid_from_evm :: "evm_invalid \<Rightarrow> 'b invalid_transaction_error option" where
  "invalid_from_evm EvmInvalidChainId = Some InvalidChainId"
| "invalid_from_evm EvmPriorityFeeGreaterThanMaxFee = Some TipAboveFeeCap"
| "invalid_from_evm EvmGasPriceLessThanBasefee = Some FeeCapTooLow"
| "invalid_from_evm EvmCallerGasLimitMoreThanBlock = Some (GasTooHigh ''CallerGasLimitMoreThanBlock'')"
| "invalid_from_evm EvmCallGasCostMoreThanGasLimit = Some (GasTooHigh ''CallGasCostMoreThanGasLimit'')"
| "invalid_from_evm EvmRejectCallerWithCode = Some SenderNoEOA"
| "invalid_from_evm EvmLackOfFundForMaxFee = Some InsufficientFunds"
| "invalid_from_evm EvmOverflowPaymentInTransaction = Some GasUintOverflow"
| "invalid_from_evm EvmNonceOverflowInTransaction = Some NonceMaxValue"
| "invalid_from_evm EvmCreateInitCodeSizeLimit = Some MaxInitCodeSizeExceeded"
| "invalid_from_evm EvmNonceTooHigh = Some NonceTooHigh"
| "invalid_from_evm EvmNonceTooLow = Some NonceTooLow"
| "invalid_from_evm EvmAccessListNotSupported = Some AccessListNotSupported"
| "invalid_from_evm EvmBlobGasPriceGreaterThanMax = Some BlobFeeCapTooLow"
| "invalid_from_evm EvmBlobVersionedHashesNotSupported = Some BlobVersionedHashesNotSupported"
| "invalid_from_evm EvmMaxFeePerBlobGasNotSupported = Some MaxFeePerBlobGasNotSupported"
| "invalid_from_evm EvmBlobCreateTransaction = Some BlobCreateTransaction"
| "invalid_from_evm EvmBlobVersionNotSupported = Some BlobVersionNotSupported"
| "invalid_from_evm EvmEmptyBlobs = Some EmptyBlobs"
| "invalid_from_evm (EvmTooManyBlobs limit n) = Some (TooManyBlobs limit n)"
| "invalid_from_evm EvmOtherInvalid = None"

section \<open>The environment of the checks\<close>

text \<open>
  What the checks read of \<^verbatim>\<open>EnvWithHandlerCfg\<close> and of the backend. The flags say whether the hard fork in force is at
  least the one they are named after.
\<close>

record 'b validation_env =
  ve_chain_id :: u64
  ve_block :: block_env
  ve_disable_block_gas_limit :: bool
  ve_spurious_dragon :: bool
  ve_london :: bool
  ve_cancun :: bool
  ve_blob_gas :: "tx_eip4844 \<Rightarrow> u64"
  ve_max_blobs_per_block :: nat
  ve_validate_blobs :: "tx_eip4844 \<Rightarrow> ('b, unit) result"

type_synonym 'b check = "('b invalid_transaction_error, unit) result option"

definition MIN_TRANSACTION_GAS :: u128 where
  "MIN_TRANSACTION_GAS = 21000"

section \<open>The checks\<close>

definition and_then :: "'b check \<Rightarrow> 'b check \<Rightarrow> 'b check" where
  "and_then a b = (case a of Some (Inr _) \<Rightarrow> b | _ \<Rightarrow> a)"

definition check_chain_id :: "'b validation_env \<Rightarrow> typed_transaction \<Rightarrow> 'b check" where
  "check_chain_id e tx =
     (case chain_id tx of
        None \<Rightarrow> Some (Inr ())
      | Some tx_chain_id \<Rightarrow>
          if ve_chain_id e \<noteq> tx_chain_id
          then (case as_legacy tx of
                  Some legacy \<Rightarrow>
                    if ve_spurious_dragon e \<and> \<not> meets_eip155 (ve_chain_id e) (sig_v (sg_signature legacy))
                    then Some (Inl IncompatibleEIP155) else Some (Inr ())
                | None \<Rightarrow> Some (Inl InvalidChainId))
          else Some (Inr ()))"

definition check_gas_limit :: "'b validation_env \<Rightarrow> typed_transaction \<Rightarrow> 'b check" where
  "check_gas_limit e tx =
     (if gas_limit tx < MIN_TRANSACTION_GAS then Some (Inl GasTooLow)
      else if ve_disable_block_gas_limit e then Some (Inr ())
      else case to_narrow (be_gas_limit (ve_block e)) of
             None \<Rightarrow> None
           | Some limit \<Rightarrow>
               if limit < gas_limit tx then Some (Inl (GasTooHigh ''tx.gas_limit > env.block.gas_limit''))
               else Some (Inr ()))"

fun is_deposit_tx :: "typed_transaction \<Rightarrow> bool" where
  "is_deposit_tx (Deposit _) = True"
| "is_deposit_tx _ = False"

definition check_nonce :: "account_info \<Rightarrow> typed_transaction \<Rightarrow> 'b check" where
  "check_nonce account tx =
     (if tx_nonce tx < ai_nonce account \<and> \<not> is_deposit_tx tx then Some (Inl NonceTooLow) else Some (Inr ()))"

definition check_fees :: "'b validation_env \<Rightarrow> typed_transaction \<Rightarrow> 'b check" where
  "check_fees e tx =
     (if ve_london e
      then (case to_narrow (be_basefee (ve_block e)) of
              None \<Rightarrow> None
            | Some basefee \<Rightarrow>
                if gas_price tx < basefee \<and> \<not> is_deposit_tx tx then Some (Inl FeeCapTooLow)
                else (case (ess_max_priority_fee_per_gas (essentials tx), ess_max_fee_per_gas (essentials tx)) of
                        (Some max_priority_fee_per_gas, Some max_fee_per_gas) \<Rightarrow>
                          if max_fee_per_gas < max_priority_fee_per_gas then Some (Inl TipAboveFeeCap) else Some (Inr ())
                      | _ \<Rightarrow> Some (Inr ())))
      else Some (Inr ()))"

definition check_blob_fee :: "'b validation_env \<Rightarrow> typed_transaction \<Rightarrow> 'b check" where
  "check_blob_fee e tx =
     (case (ess_max_fee_per_blob_gas (essentials tx), be_blob_excess_gas_and_price (ve_block e)) of
        (Some max_fee, Some blob_gas_and_price) \<Rightarrow>
          (case to_narrow max_fee of
             None \<Rightarrow> None
           | Some fee \<Rightarrow>
               if fee < blob_gasprice blob_gas_and_price then Some (Inl BlobFeeCapTooLow) else Some (Inr ()))
      | _ \<Rightarrow> Some (Inr ()))"

definition check_blobs :: "'b validation_env \<Rightarrow> typed_transaction \<Rightarrow> 'b check" where
  "check_blobs e tx =
     (case tx of
        EIP4844 t \<Rightarrow>
          if ve_cancun e
          then and_then (check_blob_fee e tx)
                 (let blob_count = length (e4844_blob_versioned_hashes (sg_tx t)) in
                  if blob_count = 0 then Some (Inl NoBlobHashes)
                  else if ve_max_blobs_per_block e < blob_count
                  then Some (Inl (TooManyBlobs (ve_max_blobs_per_block e) blob_count))
                  else case ve_validate_blobs e (sg_tx t) of
                         Inl err \<Rightarrow> Some (Inl (BlobTransactionValidationError err))
                       | Inr _ \<Rightarrow> Some (Inr ()))
          else Some (Inr ())
      | _ \<Rightarrow> Some (Inr ()))"

definition check_funds :: "'b validation_env \<Rightarrow> account_info \<Rightarrow> typed_transaction \<Rightarrow> 'b check" where
  "check_funds e account tx =
     (case to_narrow (tx_value tx) of
        None \<Rightarrow> None
      | Some value \<Rightarrow>
          (case checked_add (max_cost (ve_blob_gas e) tx) value of
             None \<Rightarrow> Some (Inl InsufficientFunds)
           | Some req_funds \<Rightarrow>
               if ai_balance account < ucast req_funds then Some (Inl InsufficientFunds) else Some (Inr ())))"

definition validate_pool_transaction_for ::
  "'b validation_env \<Rightarrow> pending_transaction \<Rightarrow> account_info \<Rightarrow> 'b check" where
  "validate_pool_transaction_for e pending account =
     (let tx = mi_transaction (pe_transaction pending) in
      and_then (check_chain_id e tx)
     (and_then (check_gas_limit e tx)
     (and_then (check_nonce account tx)
     (and_then (check_fees e tx)
     (and_then (check_blobs e tx)
               (check_funds e account tx))))))"

definition validate_for :: "'b validation_env \<Rightarrow> pending_transaction \<Rightarrow> account_info \<Rightarrow> 'b check" where
  "validate_for e tx account =
     and_then (validate_pool_transaction_for e tx account)
       (if ai_nonce account < pe_nonce tx then Some (Inl NonceTooHigh) else Some (Inr ()))"

section \<open>Nonces in the pool\<close>

definition get_pool_transactions_nonce :: "pool_transaction list \<Rightarrow> address \<Rightarrow> u64 option" where
  "get_pool_transactions_nonce txs address =
     (case map (pe_nonce \<circ> pt_pending_transaction) (filter (\<lambda>tx. pe_sender (pt_pending_transaction tx) = address) txs) of
        [] \<Rightarrow> None
      | n # ns \<Rightarrow> Some (saturating_add (fold max ns n) 1))"

section \<open>What a validated transaction satisfies\<close>

lemma and_then_ok [simp]: "and_then a b = Some (Inr u) \<longleftrightarrow> a = Some (Inr ()) \<and> b = Some (Inr ())"
  by (auto simp: and_then_def split: option.splits sum.splits)

lemma and_then_None: "and_then a b = None \<longleftrightarrow> a = None \<or> a = Some (Inr ()) \<and> b = None"
  by (auto simp: and_then_def split: option.splits sum.splits)

lemma check_funds_ok:
  "check_funds e account tx = Some (Inr ()) \<longleftrightarrow>
     unat (tx_value tx) < 2 ^ 128 \<and> unat (max_cost (ve_blob_gas e) tx) + unat (tx_value tx) < 2 ^ 128 \<and>
     unat (max_cost (ve_blob_gas e) tx) + unat (tx_value tx) \<le> unat (ai_balance account)"
proof -
  let ?c = "max_cost (ve_blob_gas e) tx" and ?v = "ucast (tx_value tx) :: u128"
  have "unat (ucast (?c + ?v) :: u256) = unat ?c + unat (tx_value tx)"
    if "unat (tx_value tx) < 2 ^ 128" "unat ?c + unat (tx_value tx) < 2 ^ 128"
    using that by (simp add: unat_ucast_u256 unat_word_ariths unat_ucast_mod)
  then show ?thesis
    by (auto simp: check_funds_def to_narrow_def checked_add_def unat_ucast_mod word_less_nat_alt not_less)
qed

lemma check_gas_limit_ok:
  "check_gas_limit e tx = Some (Inr ()) \<longleftrightarrow>
     21000 \<le> unat (gas_limit tx) \<and>
     (ve_disable_block_gas_limit e \<or>
      unat (be_gas_limit (ve_block e)) < 2 ^ 128 \<and> unat (gas_limit tx) \<le> unat (be_gas_limit (ve_block e)))"
  by (auto simp: check_gas_limit_def MIN_TRANSACTION_GAS_def to_narrow_def word_less_nat_alt unat_ucast_mod)

abbreviation pe_typed :: "pending_transaction \<Rightarrow> typed_transaction" where
  "pe_typed p \<equiv> mi_transaction (pe_transaction p)"

text \<open>The cost of a transaction as a number.\<close>

definition full_cost :: "(tx_eip4844 \<Rightarrow> u64) \<Rightarrow> typed_transaction \<Rightarrow> nat" where
  "full_cost bg tx = unat (gas_limit tx) * unat (gas_price tx) +
     unat (unwrap_or (blob_gas bg tx) 0) * unat (unwrap_or (max_fee_per_blob_gas tx) 0)"

lemma max_cost_full_cost:
  assumes "unat (unwrap_or (blob_gas bg tx) 0) * unat (unwrap_or (max_fee_per_blob_gas tx) 0) < 2 ^ 128"
  shows "unat (max_cost bg tx) = min (full_cost bg tx) (2 ^ 128 - 1)"
proof (cases "is_eip4844 tx")
  case True
  then show ?thesis using max_cost_blobs [OF True assms] by (simp add: full_cost_def)
next
  case False
  then have "blob_gas bg tx = None" by (cases tx) auto
  then show ?thesis using max_cost_no_blobs [OF False, of bg] by (simp add: full_cost_def)
qed

lemma validate_pool_ok:
  fixes e :: "'b validation_env"
  shows "validate_pool_transaction_for e p account = Some (Inr ()) \<longleftrightarrow>
     (let tx = mi_transaction (pe_transaction p) in
      check_chain_id e tx = Some (Inr ()) \<and> check_gas_limit e tx = Some (Inr ()) \<and> check_nonce account tx = (Some (Inr ()) :: 'b check) \<and>
      check_fees e tx = Some (Inr ()) \<and> check_blobs e tx = Some (Inr ()) \<and> check_funds e account tx = Some (Inr ()))"
  by (simp add: validate_pool_transaction_for_def Let_def)

lemma check_fees_ok:
  "check_fees e tx = Some (Inr ()) \<Longrightarrow> ve_london e \<Longrightarrow> \<not> is_deposit_tx tx \<Longrightarrow>
   unat (be_basefee (ve_block e)) \<le> unat (gas_price tx)"
  by (auto simp: check_fees_def to_narrow_def word_less_nat_alt unat_ucast_mod split: if_splits)

lemma validate_for_ok:
  "validate_for e p account = Some (Inr ()) \<longleftrightarrow>
     validate_pool_transaction_for e p account = Some (Inr ()) \<and> pe_nonce p \<le> ai_nonce account"
  by (auto simp: validate_for_def split: if_splits)

lemma check_None:
  "check_chain_id e tx \<noteq> None" "check_nonce account tx \<noteq> None"
  "unat (be_gas_limit (ve_block e)) < 2 ^ 128 \<Longrightarrow> check_gas_limit e tx \<noteq> None"
  "unat (be_basefee (ve_block e)) < 2 ^ 128 \<Longrightarrow> check_fees e tx \<noteq> None"
  by (auto simp: check_chain_id_def check_nonce_def check_gas_limit_def check_fees_def to_narrow_def split: option.splits)

lemma check_blobs_not_None: "check_blobs e tx \<noteq> None"
proof -
  have "check_blob_fee e tx \<noteq> None"
    using unsigned_less [of "unwrap_or (max_fee_per_blob_gas tx) 0", where ?'a = nat]
    by (cases tx) (auto simp: check_blob_fee_def Let_def to_narrow_def unat_ucast_u256 split: option.splits)
  then show ?thesis by (cases tx) (auto simp: check_blobs_def and_then_def Let_def split: option.splits sum.splits)
qed

lemma check_funds_None: "check_funds e account tx = None \<longleftrightarrow> 2 ^ 128 \<le> unat (tx_value tx)"
  by (auto simp: check_funds_def to_narrow_def split: option.splits)

section \<open>Properties\<close>


text \<open>
  C33. With a gas limit and a base fee below \<open>2 ^ 128\<close>, validation panics exactly on a transaction that passes every check but the last one
  and transfers \<open>2 ^ 128\<close> wei or more, which no account can have: it is not refused for insufficient funds.
\<close>

theorem validation_panics_iff:
  assumes "unat (be_gas_limit (ve_block e)) < 2 ^ 128" and "unat (be_basefee (ve_block e)) < 2 ^ 128"
  shows "validate_pool_transaction_for e p account = None \<longleftrightarrow>
    (let tx = mi_transaction (pe_transaction p) in
     2 ^ 128 \<le> unat (tx_value tx) \<and>
     and_then (check_chain_id e tx) (and_then (check_gas_limit e tx) (and_then (check_nonce account tx)
       (and_then (check_fees e tx) (check_blobs e tx)))) = Some (Inr ()))"
  by (simp add: validate_pool_transaction_for_def Let_def and_then_None check_None(1,2) check_None(3) [OF assms(1)]
      check_None(4) [OF assms(2)] check_blobs_not_None check_funds_None conj_ac del: not_None_eq)

definition sample_validation :: "unit validation_env" where
  "sample_validation =
     \<lparr> ve_chain_id = 31337,
       ve_block = \<lparr> be_number = 1, be_coinbase = 0, be_timestamp = 5, be_gas_limit = 30000000, be_basefee = 7,
                    be_difficulty = 0, be_prevrandao = None, be_blob_excess_gas_and_price = None \<rparr>,
       ve_disable_block_gas_limit = False, ve_spurious_dragon = True, ve_london = True, ve_cancun = True,
       ve_blob_gas = (\<lambda>_. 131072), ve_max_blobs_per_block = 6, ve_validate_blobs = (\<lambda>_. Inr ()) \<rparr>"

definition sample_transfer :: "u256 \<Rightarrow> pending_transaction" where
  "sample_transfer value =
     \<lparr> pe_transaction = mi_new (Legacy \<lparr> sg_tx = \<lparr> legacy_chain_id = Some 31337, legacy_nonce = 2, legacy_gas_price = 10,
          legacy_gas_limit = 21000, legacy_to = Call 7, legacy_value = value, legacy_input = [] \<rparr>,
          sg_signature = impersonated_signature, sg_hash = 0 \<rparr>),
       pe_sender = 1, pe_hash = 4 \<rparr>"

definition sample_account :: account_info where
  "sample_account = \<lparr> ai_balance = 1000000, ai_nonce = 2, ai_code_hash = 0, ai_code = None \<rparr>"

lemmas validation_eval = validate_pool_transaction_for_def check_chain_id_def check_gas_limit_def check_nonce_def check_fees_def
  check_blobs_def check_funds_def and_then_def to_narrow_def checked_add_def max_cost_def saturating_mul_def MIN_TRANSACTION_GAS_def
  sample_validation_def sample_transfer_def sample_account_def mi_new_def


theorem validation_panics_iff_witness:
  "unat (be_gas_limit (ve_block sample_validation)) < 2 ^ 128 \<and> unat (be_basefee (ve_block sample_validation)) < 2 ^ 128 \<and>
   validate_pool_transaction_for sample_validation (sample_transfer (2 ^ 128)) sample_account = None"
proof -
  have b: "unat (be_gas_limit (ve_block sample_validation)) < 2 ^ 128" "unat (be_basefee (ve_block sample_validation)) < 2 ^ 128"
    by (simp_all add: sample_validation_def)
  show ?thesis
    using b unfolding validation_panics_iff [OF b] by (simp add: validation_eval Let_def)
qed

end
