(* ===== verification/Snapshots.thy ===== *)
theory Snapshots
  imports State_Db
begin

text \<open>
  Snapshots of a database (\<^verbatim>\<open>crates/evm/core/src/snapshot.rs\<close>) and the in-memory database that uses them
  (\<^verbatim>\<open>crates/evm/core/src/backend/in_memory_db.rs\<close> and \<^verbatim>\<open>impl Db for MemDb\<close> in
  \<^verbatim>\<open>crates/anvil/src/eth/backend/mem/in_memory_db.rs\<close>).

  The interface \<open>snapshot_store\<close> states what the backend relies on: a snapshot saves the current
  contents under a new id, and reverting to an id restores what was saved under it and discards it with
  all later ones. It is interpreted on \<^verbatim>\<open>MemDb\<close>.
\<close>

section \<open>Snapshots\<close>

record 'a snapshots =
  sn_id :: u256
  sn_snapshots :: "(u256, 'a) fmap"

definition snapshots_default :: "'a snapshots" where
  "snapshots_default = \<lparr> sn_id = 0, sn_snapshots = fmempty \<rparr>"

definition snapshots_next_id :: "'a snapshots \<Rightarrow> 'a snapshots \<times> u256" where
  "snapshots_next_id s = (s\<lparr> sn_id := saturating_add (sn_id s) 1 \<rparr>, sn_id s)"

definition snapshots_get :: "'a snapshots \<Rightarrow> u256 \<Rightarrow> 'a option" where
  "snapshots_get s i = fmlookup (sn_snapshots s) i"

function remove_after :: "u256 \<Rightarrow> 'a snapshots \<Rightarrow> 'a snapshots" where
  "remove_after to_revert s =
     (if to_revert < sn_id s
      then remove_after (to_revert + 1) (s\<lparr> sn_snapshots := fmdrop to_revert (sn_snapshots s) \<rparr>)
      else s)"
  by pat_completeness auto
termination
proof (relation "measure (\<lambda>(n, s). unat (sn_id s) - unat n)")
  fix n :: u256 and s :: "'a snapshots"
  assume "n < sn_id s"
  moreover from this have "n \<noteq> - 1" using word_order.extremum_strict by blast
  ultimately show "((n + 1, s\<lparr> sn_snapshots := fmdrop n (sn_snapshots s) \<rparr>), n, s) \<in> measure (\<lambda>(n, s). unat (sn_id s) - unat n)"
    by (auto simp: unat_add_1 word_less_nat_alt)
qed simp

declare remove_after.simps [simp del]

definition snapshots_remove :: "u256 \<Rightarrow> 'a snapshots \<Rightarrow> 'a snapshots \<times> 'a option" where
  "snapshots_remove i s =
     (remove_after (i + 1) (s\<lparr> sn_snapshots := fmdrop i (sn_snapshots s) \<rparr>), fmlookup (sn_snapshots s) i)"

definition snapshots_clear :: "'a snapshots \<Rightarrow> 'a snapshots" where
  "snapshots_clear s = s\<lparr> sn_snapshots := fmempty \<rparr>"

definition snapshots_remove_at :: "u256 \<Rightarrow> 'a snapshots \<Rightarrow> 'a snapshots \<times> 'a option" where
  "snapshots_remove_at i s = (s\<lparr> sn_snapshots := fmdrop i (sn_snapshots s) \<rparr>, fmlookup (sn_snapshots s) i)"

definition snapshots_insert :: "'a \<Rightarrow> 'a snapshots \<Rightarrow> 'a snapshots \<times> u256" where
  "snapshots_insert x s =
     (case snapshots_next_id s of (s', i) \<Rightarrow> (s'\<lparr> sn_snapshots := fmupd i x (sn_snapshots s') \<rparr>, i))"

definition snapshots_insert_at :: "'a \<Rightarrow> u256 \<Rightarrow> 'a snapshots \<Rightarrow> 'a snapshots \<times> u256" where
  "snapshots_insert_at x i s = (s\<lparr> sn_snapshots := fmupd i x (sn_snapshots s) \<rparr>, i)"

section \<open>The in-memory database\<close>

record mem_db =
  md_inner :: cache_db
  md_snapshots :: "cache_db snapshots"

definition mem_db_default :: mem_db where
  "mem_db_default =
     \<lparr> md_inner = \<lparr> cd_accounts = fmempty, cd_contracts = fmempty, cd_block_hashes = fmempty \<rparr>,
       md_snapshots = snapshots_default \<rparr>"

datatype revert_snapshot_action = RevertRemove | RevertKeep

definition mem_snapshot :: "mem_db \<Rightarrow> mem_db \<times> u256" where
  "mem_snapshot m =
     (case snapshots_insert (md_inner m) (md_snapshots m) of (s, i) \<Rightarrow> (m\<lparr> md_snapshots := s \<rparr>, i))"

definition mem_revert :: "revert_snapshot_action \<Rightarrow> u256 \<Rightarrow> mem_db \<Rightarrow> mem_db \<times> bool" where
  "mem_revert action i m =
     (case snapshots_remove i (md_snapshots m) of
        (s, Some snapshot) \<Rightarrow>
          (m\<lparr> md_snapshots := (if action = RevertKeep then fst (snapshots_insert_at snapshot i s) else s),
              md_inner := snapshot \<rparr>, True)
      | (s, None) \<Rightarrow> (m\<lparr> md_snapshots := s \<rparr>, False))"

definition mem_insert_block_hash :: "u256 \<Rightarrow> b256 \<Rightarrow> mem_db \<Rightarrow> mem_db" where
  "mem_insert_block_hash number hash m =
     m\<lparr> md_inner := (md_inner m)\<lparr> cd_block_hashes := fmupd number hash (cd_block_hashes (md_inner m)) \<rparr> \<rparr>"

text \<open>Everything else the database offers goes to the inner one.\<close>

definition with_inner :: "(cache_db \<Rightarrow> cache_db \<times> 'r) \<Rightarrow> mem_db \<Rightarrow> mem_db \<times> 'r" where
  "with_inner f m = (case f (md_inner m) of (inner, r) \<Rightarrow> (m\<lparr> md_inner := inner \<rparr>, r))"

section \<open>The loop that removes later snapshots\<close>

lemma sn_id_remove_after [simp]: "sn_id (remove_after n s) = sn_id s"
proof (induction n s rule: remove_after.induct)
  case (1 n s)
  then show ?case by (subst remove_after.simps) simp
qed

lemma remove_after_lookup:
  "fmlookup (sn_snapshots (remove_after n s)) k =
     (if n \<le> k \<and> k < sn_id s then None else fmlookup (sn_snapshots s) k)"
proof (induction n s rule: remove_after.induct)
  case (1 n s)
  show ?case
  proof (cases "n < sn_id s")
    case True
    then have "n \<noteq> - 1" using word_order.extremum_strict by blast
    then have "n + 1 \<le> k \<longleftrightarrow> n < k" for k by (simp add: word_le_nat_alt word_less_nat_alt unat_add_1 Suc_le_eq)
    then show ?thesis using 1 [OF True] True by (subst remove_after.simps) (auto simp: order.order_iff_strict)
  next
    case False
    then show ?thesis by (subst remove_after.simps) (auto dest: order.strict_trans1)
  qed
qed

definition snapshots_inv :: "'a snapshots \<Rightarrow> bool" where
  "snapshots_inv s \<longleftrightarrow> (\<forall>k. fmlookup (sn_snapshots s) k \<noteq> None \<longrightarrow> k < sn_id s)"

text \<open>Removal is truncation: what was saved under smaller ids stays, everything else goes.\<close>

lemma snapshots_remove_truncates:
  assumes inv: "snapshots_inv s" and i: "i \<noteq> - 1"
  shows "sn_snapshots (fst (snapshots_remove i s)) = fmfilter (\<lambda>k. k < i) (sn_snapshots s)"
proof (rule fmap_ext)
  fix k
  have "i + 1 \<le> k \<longleftrightarrow> i < k" using i by (simp add: word_le_nat_alt word_less_nat_alt unat_add_1 Suc_le_eq)
  moreover have "fmlookup (sn_snapshots s) k = None" if "\<not> k < sn_id s" using inv that unfolding snapshots_inv_def by blast
  ultimately show "fmlookup (sn_snapshots (fst (snapshots_remove i s))) k = fmlookup (fmfilter (\<lambda>k. k < i) (sn_snapshots s)) k"
    by (auto simp: snapshots_remove_def remove_after_lookup)
qed

text \<open>At the last id the increment wraps and the loop runs over all ids.\<close>

lemma snapshots_remove_last:
  assumes "snapshots_inv s"
  shows "sn_snapshots (fst (snapshots_remove (- 1) s)) = fmempty"
proof (rule fmap_ext)
  fix k
  have "fmlookup (sn_snapshots s) k = None" if "\<not> k < sn_id s" using assms that unfolding snapshots_inv_def by blast
  then show "fmlookup (sn_snapshots (fst (snapshots_remove (- 1) s))) k = fmlookup fmempty k"
    by (auto simp: snapshots_remove_def remove_after_lookup)
qed

section \<open>The interface\<close>

text \<open>
  \<open>view\<close> is the contents of a database, \<open>taken\<close> what is saved under which id, \<open>next_id\<close> the id of the next snapshot, and \<open>modify\<close> stands for
  every operation on the contents.
\<close>

locale snapshot_store =
  fixes view :: "'db \<Rightarrow> 'v"
    and taken :: "'db \<Rightarrow> (u256, 'v) fmap"
    and next_id :: "'db \<Rightarrow> u256"
    and modify :: "('v \<Rightarrow> 'v) \<Rightarrow> 'db \<Rightarrow> 'db"
    and snapshot :: "'db \<Rightarrow> 'db \<times> u256"
    and revert :: "u256 \<Rightarrow> 'db \<Rightarrow> 'db \<times> bool"
  assumes modify: "view (modify f db) = f (view db)" "taken (modify f db) = taken db" "next_id (modify f db) = next_id db"
    and snapshot: "snapshot db = (db', i) \<Longrightarrow>
      i = next_id db \<and> view db' = view db \<and> taken db' = fmupd i (view db) (taken db) \<and> next_id db' = saturating_add i 1"
    and revert: "\<forall>k. fmlookup (taken db) k \<noteq> None \<longrightarrow> k < next_id db \<Longrightarrow> i \<noteq> - 1 \<Longrightarrow> revert i db = (db', b) \<Longrightarrow>
      taken db' = fmfilter (\<lambda>k. k < i) (taken db) \<and> next_id db' = next_id db \<and>
      view db' = unwrap_or (fmlookup (taken db) i) (view db) \<and> (b \<longleftrightarrow> fmlookup (taken db) i \<noteq> None)"

datatype 'v store_op = Modify "'v \<Rightarrow> 'v" | TakeSnapshot | RevertTo u256

fun store_step ::
  "(('v \<Rightarrow> 'v) \<Rightarrow> 'db \<Rightarrow> 'db) \<Rightarrow> ('db \<Rightarrow> 'db \<times> u256) \<Rightarrow> (u256 \<Rightarrow> 'db \<Rightarrow> 'db \<times> bool) \<Rightarrow> 'v store_op \<Rightarrow> 'db \<Rightarrow> 'db" where
  "store_step modify snapshot revert (Modify f) db = modify f db"
| "store_step modify snapshot revert TakeSnapshot db = fst (snapshot db)"
| "store_step modify snapshot revert (RevertTo i) db = fst (revert i db)"

definition store_run ::
  "(('v \<Rightarrow> 'v) \<Rightarrow> 'db \<Rightarrow> 'db) \<Rightarrow> ('db \<Rightarrow> 'db \<times> u256) \<Rightarrow> (u256 \<Rightarrow> 'db \<Rightarrow> 'db \<times> bool) \<Rightarrow> 'v store_op list \<Rightarrow> 'db \<Rightarrow> 'db" where
  "store_run modify snapshot revert = fold (store_step modify snapshot revert)"

context snapshot_store
begin

definition ids_ok :: "'db \<Rightarrow> bool" where
  "ids_ok db \<longleftrightarrow> (\<forall>k. fmlookup (taken db) k \<noteq> None \<longrightarrow> k < next_id db)"

lemma snapshot_saved:
  assumes "ids_ok db" and "next_id db \<noteq> - 1" and "snapshot db = (db', i)"
  shows "ids_ok db' \<and> fmlookup (taken db') i = Some (view db) \<and> i < next_id db' \<and> unat (next_id db') = Suc (unat (next_id db)) \<and>
    (\<forall>k v. fmlookup (taken db) k = Some v \<longrightarrow> fmlookup (taken db') k = Some v)"
proof -
  note s = snapshot [OF assms(3)]
  have n: "next_id db' = next_id db + 1"
    using s assms(2) by (simp add: saturating_add_1)
  have lt: "k < next_id db + 1" if "k \<le> next_id db" for k using that less_add_1 [OF assms(2)] by (rule order.strict_trans1)
  show ?thesis
  proof (intro conjI allI impI)
    show "ids_ok db'" using assms(1) lt s n unfolding ids_ok_def by (auto simp: order.strict_implies_order split: if_splits)
    show "fmlookup (taken db') i = Some (view db)" using s by simp
    show "i < next_id db'" using s n lt by simp
    show "unat (next_id db') = Suc (unat (next_id db))" using n unat_add_1 [OF assms(2)] by simp
    fix k v
    assume "fmlookup (taken db) k = Some v"
    then have "k \<noteq> i" using assms(1) s unfolding ids_ok_def by (metis option.distinct(1) order.strict_iff_order)
    then show "fmlookup (taken db') k = Some v" using s \<open>fmlookup (taken db) k = Some v\<close> by simp
  qed
qed

text \<open>A saved state survives every run that does not revert to its id or a smaller one.\<close>

lemma run_keeps_saved:
  assumes "ids_ok db" and "fmlookup (taken db) i = Some v" and "unat (next_id db) + length ops < 2 ^ 256"
    and "\<forall>x. RevertTo x \<in> set ops \<longrightarrow> i < x \<and> x \<noteq> - 1"
  shows "ids_ok (store_run modify snapshot revert ops db) \<and>
    fmlookup (taken (store_run modify snapshot revert ops db)) i = Some v"
  using assms
proof (induction ops arbitrary: db)
  case (Cons a ops)
  let ?db = "store_step modify snapshot revert a db"
  have "ids_ok ?db \<and> fmlookup (taken ?db) i = Some v \<and> unat (next_id ?db) \<le> Suc (unat (next_id db))"
  proof (cases a)
    case (Modify f)
    then show ?thesis using Cons.prems(1,2) by (simp add: ids_ok_def modify)
  next
    case TakeSnapshot
    have "next_id db \<noteq> - 1" using Cons.prems(3) by (auto simp: unat_minus_one_word_eq)
    then show ?thesis using snapshot_saved [OF Cons.prems(1)] Cons.prems(2) TakeSnapshot
      by (metis le_refl prod.collapse store_step.simps(2))
  next
    case (RevertTo x)
    then have x: "i < x" "x \<noteq> - 1" using Cons.prems(4) by auto
    obtain db' b where r: "revert x db = (db', b)" by (meson surj_pair)
    show ?thesis using revert [OF Cons.prems(1) [unfolded ids_ok_def] x(2) r] Cons.prems(1,2) x RevertTo r
      by (auto simp: ids_ok_def split: if_splits)
  qed
  then show ?case using Cons.IH [of ?db] Cons.prems(3,4) by (simp add: store_run_def)
qed (simp add: store_run_def)

lemma snapshot_revert_restores:
  assumes ok: "ids_ok db" and s: "snapshot db = (db1, i)" and room: "unat (next_id db) + length ops + 1 < 2 ^ 256"
    and later: "\<forall>x. RevertTo x \<in> set ops \<longrightarrow> i < x \<and> x \<noteq> - 1"
    and r: "revert i (store_run modify snapshot revert ops db1) = (db2, b)"
  shows "b \<and> view db2 = view db \<and> taken db2 = fmfilter (\<lambda>k. k < i) (taken (store_run modify snapshot revert ops db1)) \<and>
    fmlookup (taken db2) i = None"
proof -
  have "next_id db \<noteq> - 1" using room by (auto simp: unat_minus_one_word_eq)
  note sv = snapshot_saved [OF ok this s]
  have i: "i \<noteq> - 1" using sv word_order.extremum_strict by blast
  let ?db = "store_run modify snapshot revert ops db1"
  have "ids_ok ?db" "fmlookup (taken ?db) i = Some (view db)"
    using run_keeps_saved [OF _ _ _ later, of db1 "view db"] sv room by auto
  then show ?thesis using revert [OF _ i r] unfolding ids_ok_def by simp
qed

end

text \<open>\<^verbatim>\<open>MemDb\<close> keeps these laws.\<close>

definition mem_modify :: "(cache_db \<Rightarrow> cache_db) \<Rightarrow> mem_db \<Rightarrow> mem_db" where
  "mem_modify f m = m\<lparr> md_inner := f (md_inner m) \<rparr>"

definition mem_taken :: "mem_db \<Rightarrow> (u256, cache_db) fmap" where
  "mem_taken m = sn_snapshots (md_snapshots m)"

definition mem_next_id :: "mem_db \<Rightarrow> u256" where
  "mem_next_id m = sn_id (md_snapshots m)"

interpretation mem_store: snapshot_store md_inner mem_taken mem_next_id mem_modify mem_snapshot "mem_revert RevertRemove"
proof unfold_locales
  fix db db' i b
  assume inv: "\<forall>k. fmlookup (mem_taken db) k \<noteq> None \<longrightarrow> k < mem_next_id db" and i: "i \<noteq> - 1"
    and r: "mem_revert RevertRemove i db = (db', b)"
  have "snapshots_inv (md_snapshots db)" using inv by (simp add: snapshots_inv_def mem_taken_def mem_next_id_def)
  from snapshots_remove_truncates [OF this i] r
  show "mem_taken db' = fmfilter (\<lambda>k. k < i) (mem_taken db) \<and> mem_next_id db' = mem_next_id db \<and>
    md_inner db' = unwrap_or (fmlookup (mem_taken db) i) (md_inner db) \<and> b = (fmlookup (mem_taken db) i \<noteq> None)"
    unfolding mem_taken_def mem_next_id_def by (auto simp: mem_revert_def snapshots_remove_def split: option.splits)
qed (auto simp: mem_modify_def mem_taken_def mem_next_id_def mem_snapshot_def snapshots_insert_def snapshots_next_id_def)

section \<open>Properties\<close>

text \<open>
  C11. Reverting the in-memory database to a snapshot restores the contents at the time it was taken, whatever was
  written, saved and reverted to later ids in between, and discards exactly the snapshots with that id or a larger one.
\<close>

theorem mem_snapshot_roundtrip:
  assumes "\<forall>k. fmlookup (sn_snapshots (md_snapshots m)) k \<noteq> None \<longrightarrow> k < sn_id (md_snapshots m)"
    and "mem_snapshot m = (m1, i)" and "unat (sn_id (md_snapshots m)) + length ops + 1 < 2 ^ 256"
    and "\<forall>x. RevertTo x \<in> set ops \<longrightarrow> i < x \<and> x \<noteq> - 1"
    and "m2 = store_run mem_modify mem_snapshot (mem_revert RevertRemove) ops m1"
  shows "\<exists>m3. mem_revert RevertRemove i m2 = (m3, True) \<and> md_inner m3 = md_inner m \<and>
    (\<forall>k. fmlookup (sn_snapshots (md_snapshots m3)) k = (if k < i then fmlookup (sn_snapshots (md_snapshots m2)) k else None))"
proof -
  obtain m3 b where r: "mem_revert RevertRemove i m2 = (m3, b)" by (meson surj_pair)
  have "mem_store.ids_ok m" using assms(1) by (simp add: mem_store.ids_ok_def mem_taken_def mem_next_id_def)
  from mem_store.snapshot_revert_restores [OF this assms(2) _ assms(4) r [unfolded assms(5)]] assms(3)
  have "b" "md_inner m3 = md_inner m" "mem_taken m3 = fmfilter (\<lambda>k. k < i) (mem_taken m2)"
    unfolding mem_next_id_def assms(5) by auto
  then show ?thesis using r by (auto simp: mem_taken_def)
qed

theorem mem_snapshot_roundtrip_witness:
  "let ops = [TakeSnapshot, Modify (\<lambda>db. db\<lparr> cd_block_hashes := fmupd 1 2 (cd_block_hashes db) \<rparr>), RevertTo 1, TakeSnapshot] in
   \<exists>m1 m3. mem_snapshot mem_db_default = (m1, 0) \<and>
     mem_revert RevertRemove 0 (store_run mem_modify mem_snapshot (mem_revert RevertRemove) ops m1) = (m3, True) \<and>
     md_inner m3 = md_inner mem_db_default"
proof -
  obtain m1 where m: "mem_snapshot mem_db_default = (m1, 0)"
    by (simp add: mem_snapshot_def mem_db_default_def snapshots_default_def snapshots_insert_def snapshots_next_id_def)
  show ?thesis
    using mem_snapshot_roundtrip [OF _ m, of "[TakeSnapshot, Modify (\<lambda>db. db\<lparr> cd_block_hashes := fmupd 1 2 (cd_block_hashes db) \<rparr>),
        RevertTo 1, TakeSnapshot]"] m
    by (auto simp: Let_def mem_db_default_def snapshots_default_def)
qed

end
