(* ===== verification/Backend.thy ===== *)
theory Backend
  imports Execution Validator Chain_Storage Fees Block_Time Snapshots Pool
begin

text \<open>
  The backend of the node without a fork (\<^verbatim>\<open>Backend\<close> in \<^verbatim>\<open>crates/anvil/src/eth/backend/mem/mod.rs\<close>): mining a block, and
  snapshots of the whole node. Here the components come together: the executor (\<open>Execution\<close>) with the backend as its
  validator (\<open>Validator\<close>) on the in-memory database (\<open>Snapshots\<close>), the chain and the historic states (\<open>Chain_Storage\<close>),
  fees (\<open>Fees\<close>) and time (\<open>Block_Time\<close>).

  The locks of the source guard single fields; the operations here are what one of them does when it is not
  interleaved with another one. \<open>None\<close> is a panic, or a loop that does not end.
\<close>

section \<open>Parameters\<close>

text \<open>
  The EVM and the database under the in-memory database belong to \<^verbatim>\<open>revm\<close>; hashes, tries and the fee formulas to
  \<^verbatim>\<open>alloy\<close> and \<^verbatim>\<open>revm\<close>. \<open>ep_transact\<close> is told whether the base fee check is disabled.
\<close>

record ('e, 'tr) evm_params =
  ep_basic :: "address \<Rightarrow> cache_db \<Rightarrow> cache_db \<times> ('e, account_info option) result"
  ep_account_default :: account_info
  ep_transact :: "bool \<Rightarrow> block_env \<Rightarrow> pool_transaction \<Rightarrow> tx_env \<Rightarrow> cache_db \<Rightarrow>
    cache_db \<times> (('e, evm_invalid) evm_error, exec_result \<times> 'tr list) result"
  ep_blob_gas :: "tx_eip4844 \<Rightarrow> u64"
  ep_max_blob_gas_per_block :: u64
  ep_self_destruct :: u8
  ep_revert :: u8
  ep_receipt_bloom :: "log list \<Rightarrow> bloom"
  ep_accrue_address :: "address \<Rightarrow> bloom \<Rightarrow> bloom"
  ep_accrue_topic :: "b256 \<Rightarrow> bloom \<Rightarrow> bloom"

record chain_params =
  cp_ommers_hash :: "header list \<Rightarrow> b256"
  cp_transactions_root :: "maybe_impersonated_transaction list \<Rightarrow> b256"
  cp_receipts_root :: "typed_receipt list \<Rightarrow> b256"
  cp_state_root :: "cache_db \<Rightarrow> b256"
  cp_hash_slow :: "header \<Rightarrow> b256"
  cp_tx_hash :: "maybe_impersonated_transaction \<Rightarrow> tx_hash"
  cp_next_base_fee :: "u128 \<Rightarrow> u128 \<Rightarrow> u128 \<Rightarrow> u128"
  cp_calc_excess_blob_gas :: "u64 \<Rightarrow> u64 \<Rightarrow> u64"
  cp_blob_excess_gas_and_price_new :: "u64 \<Rightarrow> blob_excess_gas_and_price"
  cp_default_blob :: "blob_excess_gas_and_price option"

record ('e, 'b, 'tr) backend_config =
  bc_evm :: "('e, 'tr) evm_params"
  bc_chain :: chain_params
  bc_spec_ids :: spec_ids
  bc_disable_block_gas_limit :: bool
  bc_spurious_dragon :: bool
  bc_london :: bool
  bc_cancun :: bool
  bc_is_eip3675 :: bool
  bc_max_blobs_per_block :: nat
  bc_validate_blobs :: "tx_eip4844 \<Rightarrow> ('b, unit) result"
  bc_prune_state_history_config :: prune_config
  bc_transaction_block_keeper :: "nat option"
  bc_accounts_order :: "address iter_order"

section \<open>State\<close>

record block_listener =
  bl_closed :: bool
  bl_received :: "(b256 \<times> header) list"

record 'tr backend =
  bd_db :: mem_db
  bd_storage :: "'tr blockchain_storage"
  bd_states :: "(cache_db, state_snapshot) block_states"
  bd_env :: block_env
  bd_chain_id :: u64
  bd_disable_base_fee :: bool
  bd_time :: time_manager
  bd_fees :: fee_manager
  bd_new_block_listeners :: "block_listener list"
  bd_active_snapshots :: "(u256, u64 \<times> b256) fmap"

definition best_number :: "'tr backend \<Rightarrow> u64" where
  "best_number b = cs_best_number (bd_storage b)"

definition best_hash :: "'tr backend \<Rightarrow> b256" where
  "best_hash b = cs_best_hash (bd_storage b)"

section \<open>Mining a block\<close>

definition validation_env_of :: "('e, 'b, 'tr) backend_config \<Rightarrow> u64 \<Rightarrow> block_env \<Rightarrow> 'b validation_env" where
  "validation_env_of c chain env =
     \<lparr> ve_chain_id = chain, ve_block = env, ve_disable_block_gas_limit = bc_disable_block_gas_limit c,
       ve_spurious_dragon = bc_spurious_dragon c, ve_london = bc_london c, ve_cancun = bc_cancun c,
       ve_blob_gas = ep_blob_gas (bc_evm c), ve_max_blobs_per_block = bc_max_blobs_per_block c,
       ve_validate_blobs = bc_validate_blobs c \<rparr>"

text \<open>An error of the EVM is converted by \<^verbatim>\<open>into()\<close>, which panics on the ones it does not know.\<close>

fun convert_evm_error :: "('e, evm_invalid) evm_error \<Rightarrow> ('e, 'b invalid_transaction_error) evm_error" where
  "convert_evm_error (EvmDatabase e) = EvmDatabase e"
| "convert_evm_error (EvmTransaction i) =
     (case invalid_from_evm i of Some err \<Rightarrow> EvmTransaction err | None \<Rightarrow> EvmOther)"
| "convert_evm_error EvmOther = EvmOther"

definition exec_config_of ::
  "('e, 'b, 'tr) backend_config \<Rightarrow> u64 \<Rightarrow> bool \<Rightarrow> block_env \<Rightarrow> b256 \<Rightarrow>
   (mem_db, 'e, 'b invalid_transaction_error, 'tr) exec_config" where
  "exec_config_of c chain disable_base_fee env parent_hash =
     \<lparr> xc_basic = (\<lambda>a. with_inner (ep_basic (bc_evm c) a)),
       xc_account_default = ep_account_default (bc_evm c),
       xc_validate = (\<lambda>p account _. validate_pool_transaction_for (validation_env_of c chain env) p account),
       xc_transact = (\<lambda>tx e. with_inner (\<lambda>db. map_prod id (map_sum convert_evm_error id)
          (ep_transact (bc_evm c) disable_base_fee env tx e db))),
       xc_block_env = env, xc_parent_hash = parent_hash,
       xc_disable_block_gas_limit = bc_disable_block_gas_limit c, xc_is_london = bc_london c, xc_is_cancun = bc_cancun c,
       xc_blob_gas = ep_blob_gas (bc_evm c), xc_max_blob_gas_per_block = ep_max_blob_gas_per_block (bc_evm c),
       xc_self_destruct = ep_self_destruct (bc_evm c), xc_revert = ep_revert (bc_evm c),
       xc_receipt_bloom = ep_receipt_bloom (bc_evm c), xc_accrue_address = ep_accrue_address (bc_evm c),
       xc_accrue_topic = ep_accrue_topic (bc_evm c) \<rparr>"

text \<open>The environment of the new block; \<open>now\<close> is the clock, \<open>random\<close> the value of \<^verbatim>\<open>B256::random()\<close>.\<close>

definition mining_env :: "('e, 'b, 'tr) backend_config \<Rightarrow> u64 \<Rightarrow> b256 \<Rightarrow> 'tr backend \<Rightarrow> time_manager \<times> block_env" where
  "mining_env c now random b =
     (case next_timestamp now (bd_time b) of
        (time, timestamp) \<Rightarrow>
          (time, (bd_env b)
             \<lparr> be_number := saturating_add (be_number (bd_env b)) 1,
               be_basefee := ucast (base_fee (bc_spec_ids c) (bd_fees b)),
               be_blob_excess_gas_and_price := excess_blob_gas_and_price (bc_spec_ids c) (bd_fees b),
               be_timestamp := ucast timestamp,
               be_prevrandao := Some random \<rparr>))"

definition insert_mined :: "b256 \<Rightarrow> u64 \<Rightarrow> 'tr transaction_info \<times> typed_receipt \<Rightarrow> 'tr blockchain_storage \<Rightarrow> 'tr blockchain_storage" where
  "insert_mined block_hash block_number = (\<lambda>(info, receipt) s.
     s\<lparr> cs_transactions := fmupd (tn_transaction_hash info)
          \<lparr> mt_info = info, mt_receipt = receipt, mt_block_hash = block_hash, mt_block_number = block_number \<rparr>
          (cs_transactions s) \<rparr>)"

definition store_block ::
  "('e, 'b, 'tr) backend_config \<Rightarrow> b256 \<Rightarrow> 'tr block_info \<Rightarrow> 'tr blockchain_storage \<Rightarrow> 'tr blockchain_storage" where
  "store_block c block_hash info s =
     (let block = bi_block info; block_number = saturating_add (cs_best_number s) 1;
          s1 = s\<lparr> cs_best_number := block_number, cs_best_hash := block_hash,
                  cs_total_difficulty :=
                    (if bc_is_eip3675 c then cs_total_difficulty s
                     else saturating_add (cs_total_difficulty s) (hd_difficulty (bk_header block))),
                  cs_blocks := fmupd block_hash block (cs_blocks s),
                  cs_hashes := fmupd block_number block_hash (cs_hashes s) \<rparr>
      in fold (insert_mined block_hash block_number) (zip (bi_transactions info) (bi_receipts info)) s1)"

definition clear_old_block ::
  "('e, 'b, 'tr) backend_config \<Rightarrow> 'tr blockchain_storage \<Rightarrow> 'tr blockchain_storage" where
  "clear_old_block c s =
     (case bc_transaction_block_keeper c of
        None \<Rightarrow> s
      | Some keeper \<Rightarrow>
          if keeper < blocks_count s
          then remove_block_transactions_by_number (cp_tx_hash (bc_chain c))
                 (saturating_sub (cs_best_number s) (word_of_nat keeper)) s
          else s)"

definition update_fees :: "('e, 'b, 'tr) backend_config \<Rightarrow> header \<Rightarrow> fee_manager \<Rightarrow> fee_manager" where
  "update_fees c header fees =
     (let next_block_base_fee = get_next_block_base_fee_per_gas (cp_next_base_fee (bc_chain c)) (bc_spec_ids c) fees
            (hd_gas_used header) (hd_gas_limit header) (unwrap_or (hd_base_fee_per_gas header) 0);
          next_block_excess_blob_gas = get_next_block_blob_excess_gas (cp_calc_excess_blob_gas (bc_chain c))
            (unwrap_or (hd_excess_blob_gas header) 0) (unwrap_or (hd_blob_gas_used header) 0)
      in set_blob_excess_gas_and_price (cp_blob_excess_gas_and_price_new (bc_chain c) next_block_excess_blob_gas)
           (set_base_fee next_block_base_fee fees))"

definition notify_on_new_block :: "header \<Rightarrow> b256 \<Rightarrow> block_listener list \<Rightarrow> block_listener list" where
  "notify_on_new_block header hash ls =
     map (\<lambda>l. l\<lparr> bl_received := bl_received l @ [(hash, header)] \<rparr>) (filter (\<lambda>l. \<not> bl_closed l) ls)"

definition do_mine_block ::
  "('e, 'b, 'tr) backend_config \<Rightarrow> u64 \<Rightarrow> b256 \<Rightarrow> pool_transaction list \<Rightarrow> 'tr backend \<Rightarrow>
   ('tr backend \<times> mined_block_outcome) option" where
  "do_mine_block c now random pool_transactions b =
     (case mining_env c now random b of
        (time, env) \<Rightarrow>
          let disable_base_fee = bd_disable_base_fee b \<or> be_basefee (bd_env b) = 0; p = bc_chain c in
          case (if is_state_history_supported (bc_prune_state_history_config c)
                then states_insert (clear_into_snapshot (bc_accounts_order c)) (best_hash b) (md_inner (bd_db b)) (bd_states b)
                else Some (bd_states b)) of
            None \<Rightarrow> None
          | Some states \<Rightarrow>
              (case execute (cp_ommers_hash p) (cp_transactions_root p) (cp_receipts_root p)
                      (\<lambda>db. Some (cp_state_root p (md_inner db)))
                      (exec_config_of c (bd_chain_id b) disable_base_fee env (best_hash b)) (bd_db b) pool_transactions of
                 None \<Rightarrow> None
               | Some (db, executed) \<Rightarrow>
                   let header = bk_header (bi_block (xt_block executed));
                       block_hash = cp_hash_slow p header;
                       storage = clear_old_block c (store_block c block_hash (xt_block executed) (bd_storage b))
                   in Some (b\<lparr> bd_db := mem_insert_block_hash (ucast (hd_number header)) block_hash db,
                               bd_storage := storage, bd_states := states, bd_env := env\<lparr> be_difficulty := 0 \<rparr>,
                               bd_disable_base_fee := disable_base_fee, bd_time := time,
                               bd_fees := update_fees c header (bd_fees b),
                               bd_new_block_listeners := notify_on_new_block header block_hash (bd_new_block_listeners b) \<rparr>,
                            \<lparr> mb_block_number = cs_best_number storage, mb_included = xt_included executed,
                              mb_invalid = xt_invalid executed \<rparr>)))"

section \<open>Snapshots of the node\<close>

definition create_snapshot :: "'tr backend \<Rightarrow> 'tr backend \<times> u256" where
  "create_snapshot b =
     (case mem_snapshot (bd_db b) of
        (db, i) \<Rightarrow> (b\<lparr> bd_db := db,
                       bd_active_snapshots := fmupd i (best_number b, best_hash b) (bd_active_snapshots b) \<rparr>, i))"

definition revert_block ::
  "(maybe_impersonated_transaction \<Rightarrow> tx_hash) \<Rightarrow> u64 \<Rightarrow> 'tr blockchain_storage \<Rightarrow> 'tr blockchain_storage" where
  "revert_block tx_hash_of n s =
     (case fmlookup (cs_hashes s) n of
        None \<Rightarrow> s
      | Some hash \<Rightarrow>
          let s1 = s\<lparr> cs_hashes := fmdrop n (cs_hashes s) \<rparr> in
          (case fmlookup (cs_blocks s) hash of
             None \<Rightarrow> s1
           | Some block \<Rightarrow>
               s1\<lparr> cs_blocks := fmdrop hash (cs_blocks s),
                   cs_transactions := fold (\<lambda>tx. fmdrop (tx_hash_of tx)) (bk_transactions block) (cs_transactions s) \<rparr>))"

text \<open>The blocks \<open>num + 1\<close> to \<open>current_height\<close>, from the last one down.\<close>

definition revert_blocks ::
  "(maybe_impersonated_transaction \<Rightarrow> tx_hash) \<Rightarrow> u64 \<Rightarrow> u64 \<Rightarrow> 'tr blockchain_storage \<Rightarrow> 'tr blockchain_storage" where
  "revert_blocks tx_hash_of num current_height s =
     fold (revert_block tx_hash_of) (map word_of_nat (rev [unat (num + 1)..<Suc (unat current_height)])) s"

datatype blockchain_error = BlockNotFound

definition revert_env :: "chain_params \<Rightarrow> u64 \<Rightarrow> header \<Rightarrow> block_env \<Rightarrow> block_env" where
  "revert_env p num header env =
     \<lparr> be_number = ucast num, be_coinbase = be_coinbase env, be_timestamp = ucast (hd_timestamp header),
       be_gas_limit = ucast (hd_gas_limit header), be_basefee = be_basefee env, be_difficulty = hd_difficulty header,
       be_prevrandao = Some (hd_mix_hash header), be_blob_excess_gas_and_price = cp_default_blob p \<rparr>"

definition revert_snapshot ::
  "('e, 'b, 'tr) backend_config \<Rightarrow> u64 \<Rightarrow> u256 \<Rightarrow> 'tr backend \<Rightarrow> 'tr backend \<times> (blockchain_error, bool) result" where
  "revert_snapshot c now i b =
     (let b0 = b\<lparr> bd_active_snapshots := fmdrop i (bd_active_snapshots b) \<rparr>;
          revert_db = (\<lambda>b. case mem_revert RevertRemove i (bd_db b) of (db, reverted) \<Rightarrow> (b\<lparr> bd_db := db \<rparr>, Inr reverted))
      in case fmlookup (bd_active_snapshots b) i of
           None \<Rightarrow> revert_db b0
         | Some (num, hash) \<Rightarrow>
             let storage = (revert_blocks (cp_tx_hash (bc_chain c)) num (best_number b) (bd_storage b))
                   \<lparr> cs_best_number := num, cs_best_hash := hash \<rparr>;
                 b1 = b0\<lparr> bd_storage := storage \<rparr>
             in (case get_block_by_hash storage hash of
                   None \<Rightarrow> (b1, Inl BlockNotFound)
                 | Some block \<Rightarrow>
                     revert_db (b1\<lparr> bd_time := tm_reset now (hd_timestamp (bk_header block)) (bd_time b),
                                    bd_env := revert_env (bc_chain c) num (bk_header block) (bd_env b) \<rparr>)))"

section \<open>What the executor does to the database and the header\<close>

lemma execute_header:
  assumes "execute oh tr rr state_root c db pending = Some (db', x)"
  shows "hd_parent_hash (bk_header (bi_block (xt_block x))) = xc_parent_hash c"
    and "unat (hd_number (bk_header (bi_block (xt_block x)))) = unat (be_number (xc_block_env c))"
    and "unat (hd_timestamp (bk_header (bi_block (xt_block x)))) = unat (be_timestamp (xc_block_env c))"
proof -
  have "hd_parent_hash (bk_header (bi_block (xt_block x))) = xc_parent_hash c \<and>
    to_narrow (be_number (xc_block_env c)) = Some (hd_number (bk_header (bi_block (xt_block x)))) \<and>
    to_narrow (be_timestamp (xc_block_env c)) = Some (hd_timestamp (bk_header (bi_block (xt_block x))))"
    using assms by (auto simp: execute_def Let_def block_new_def split: option.splits if_splits)
  then show "hd_parent_hash (bk_header (bi_block (xt_block x))) = xc_parent_hash c"
    "unat (hd_number (bk_header (bi_block (xt_block x)))) = unat (be_number (xc_block_env c))"
    "unat (hd_timestamp (bk_header (bi_block (xt_block x)))) = unat (be_timestamp (xc_block_env c))"
    using to_narrow_SomeD by fastforce+
qed

lemma executor_next_db:
  assumes nx: "executor_next c tx ex = Some (ex', out)" and P: "P (ex_db ex)"
    and basic: "\<And>a db. P db \<Longrightarrow> P (fst (xc_basic c a db))"
    and transact: "\<And>tx e db. P db \<Longrightarrow> P (fst (xc_transact c tx e db))"
  shows "P (ex_db ex')"
proof -
  obtain db1 acc where b: "xc_basic c (pe_sender (pt_pending_transaction tx)) (ex_db ex) = (db1, acc)" by (meson surj_pair)
  have P1: "P db1" using basic [OF P] b by (metis fst_conv)
  have P2: "P db2" if "xc_transact c tx e db1 = (db2, r)" for e db2 r using transact [OF P1] that by (metis fst_conv)
  show ?thesis
    using nx P1 P2
    by (auto simp: executor_next_def b Let_def split: sum.splits option.splits if_splits prod.splits evm_error.splits)
qed

lemma execute_db:
  assumes ex: "execute oh tr rr state_root c db pending = Some (db', x)" and P: "P db"
    and basic: "\<And>a db. P db \<Longrightarrow> P (fst (xc_basic c a db))"
    and transact: "\<And>tx e db. P db \<Longrightarrow> P (fst (xc_transact c tx e db))"
  shows "P db'"
proof -
  have loop: "P (ex_db e')" if "execute_loop c txs e a = Some (e', a')" "P (ex_db e)" for txs e a e' a'
    using that
  proof (induction txs arbitrary: e a)
    case (Cons tx txs)
    then obtain e1 out where nx: "executor_next c tx e = Some (e1, out)" by (auto split: option.splits)
    have "P (ex_db e1)" by (rule executor_next_db [where P = P, OF nx Cons.prems(2) basic transact])
    then show ?case using Cons.IH [of e1] Cons.prems(1) nx by (cases out) auto
  qed simp
  from ex obtain e a where l: "execute_loop c pending \<lparr> ex_db = db, ex_gas_used = 0, ex_blob_gas_used = 0 \<rparr> (block_acc_init c) = Some (e, a)"
    and "db' = ex_db e" by (auto simp: execute_def Let_def split: option.splits if_splits)
  then show ?thesis using loop [OF l] P by simp
qed

text \<open>The executor works on the inner database and leaves the snapshots alone.\<close>

lemma with_inner_snapshots: "md_snapshots (fst (with_inner f m)) = md_snapshots m"
  by (simp add: with_inner_def split_beta)

lemma execute_snapshots:
  assumes "execute oh tr rr state_root (exec_config_of c chain d env parent) db pending = Some (db', x)"
  shows "md_snapshots db' = md_snapshots db"
  by (rule execute_db [where P = "\<lambda>m. md_snapshots m = md_snapshots db", OF assms])
    (simp_all add: exec_config_of_def with_inner_snapshots)

section \<open>The chain\<close>

definition header_at :: "'tr blockchain_storage \<Rightarrow> b256 \<Rightarrow> header option" where
  "header_at s h = map_option bk_header (fmlookup (cs_blocks s) h)"

text \<open>
  Block numbers run from 0 to the best one without a gap; the block of every number is stored under its hash,
  carries its number and the hash of its predecessor, and is younger than that.
\<close>

definition follows :: "'tr blockchain_storage \<Rightarrow> u64 \<Rightarrow> header \<Rightarrow> bool" where
  "follows s n hr \<longleftrightarrow>
     fmlookup (cs_hashes s) (n - 1) = Some (hd_parent_hash hr) \<and>
     (\<exists>pd. header_at s (hd_parent_hash hr) = Some pd \<and> hd_timestamp pd < hd_timestamp hr)"

definition chain_ok :: "(header \<Rightarrow> b256) \<Rightarrow> 'tr blockchain_storage \<Rightarrow> bool" where
  "chain_ok hash s \<longleftrightarrow>
     fmlookup (cs_hashes s) (cs_best_number s) = Some (cs_best_hash s) \<and>
     (\<forall>n. fmlookup (cs_hashes s) n \<noteq> None \<longleftrightarrow> n \<le> cs_best_number s) \<and>
     (\<forall>n h. fmlookup (cs_hashes s) n = Some h \<longrightarrow>
        (\<exists>hd. header_at s h = Some hd \<and> hash hd = h \<and> hd_number hd = n \<and> (n \<noteq> 0 \<longrightarrow> follows s n hd)))"

lemma chain_ok_genesis:
  assumes "storage_new oh tr hash env fee timestamp = Some s"
  shows "chain_ok hash s"
  using assms
  by (auto simp: storage_new_def chain_ok_def header_at_def block_new_def partial_header_default_def Let_def split: if_splits)

lemma chain_ok_cong:
  assumes "chain_ok hash s" and "cs_hashes s' = cs_hashes s" and "\<And>h. header_at s' h = header_at s h"
    and "cs_best_number s' = cs_best_number s" and "cs_best_hash s' = cs_best_hash s"
  shows "chain_ok hash s'"
  using assms unfolding chain_ok_def follows_def by simp

lemma chain_ok_best:
  assumes "chain_ok hash s"
  obtains hd where "header_at s (cs_best_hash s) = Some hd" "hash hd = cs_best_hash s" "hd_number hd = cs_best_number s"
  using assms unfolding chain_ok_def by blast

lemma chain_ok_append:
  assumes ok: "chain_ok hash s" and n: "cs_best_number s \<noteq> - 1" and fresh: "fmlookup (cs_blocks s) (hash (bk_header blk)) = None"
    and blk: "hd_number (bk_header blk) = cs_best_number s + 1" "hd_parent_hash (bk_header blk) = cs_best_hash s"
    and young: "\<And>hd. header_at s (cs_best_hash s) = Some hd \<Longrightarrow> hd_timestamp hd < hd_timestamp (bk_header blk)"
  shows "chain_ok hash (s\<lparr> cs_best_number := cs_best_number s + 1, cs_best_hash := hash (bk_header blk),
    cs_blocks := fmupd (hash (bk_header blk)) blk (cs_blocks s),
    cs_hashes := fmupd (cs_best_number s + 1) (hash (bk_header blk)) (cs_hashes s) \<rparr>)"
    (is "chain_ok hash ?s")
proof -
  let ?N = "cs_best_number s + 1" and ?H = "hash (bk_header blk)"
  have le: "n \<le> ?N \<longleftrightarrow> n = ?N \<or> n \<le> cs_best_number s" for n :: u64
    using unat_add_1 [OF n] by (auto simp: word_le_nat_alt word_eq_unat)
  have lt: "\<not> ?N \<le> cs_best_number s" using less_add_1 [OF n] by simp
  have keep: "header_at ?s h = Some hd" if "header_at s h = Some hd" for h hd
    using that fresh by (auto simp: header_at_def)
  have old: "\<exists>hd. header_at ?s h = Some hd \<and> hash hd = h \<and> hd_number hd = m \<and> (m \<noteq> 0 \<longrightarrow> follows ?s m hd)"
    if m: "fmlookup (cs_hashes s) m = Some h" for m h
  proof -
    from ok m obtain hd where hd: "header_at s h = Some hd" "hash hd = h" "hd_number hd = m" "m \<noteq> 0 \<longrightarrow> follows s m hd"
      unfolding chain_ok_def by blast
    have "follows ?s m hd" if "follows s m hd"
    proof -
      have "m - 1 \<le> cs_best_number s" using that ok unfolding follows_def chain_ok_def by (metis option.distinct(1))
      then have "m - 1 \<noteq> ?N" using lt by metis
      then show ?thesis using that keep unfolding follows_def by (auto simp del: diff_eq_eq)
    qed
    then show ?thesis using hd keep by blast
  qed
  have new: "\<exists>hd. header_at ?s ?H = Some hd \<and> hash hd = ?H \<and> hd_number hd = ?N \<and> (?N \<noteq> 0 \<longrightarrow> follows ?s ?N hd)"
  proof -
    from chain_ok_best [OF ok] obtain hd where "header_at s (cs_best_hash s) = Some hd" .
    with keep young have "\<exists>pd. header_at ?s (cs_best_hash s) = Some pd \<and> hd_timestamp pd < hd_timestamp (bk_header blk)" by blast
    then show ?thesis using blk ok n by (auto simp: header_at_def chain_ok_def follows_def)
  qed
  show ?thesis
    unfolding chain_ok_def
  proof (intro conjI allI impI)
    fix m
    show "(fmlookup (cs_hashes ?s) m \<noteq> None) = (m \<le> cs_best_number ?s)" using ok le [of m] by (auto simp: chain_ok_def)
  next
    fix m h
    assume "fmlookup (cs_hashes ?s) m = Some h"
    then show "\<exists>hd. header_at ?s h = Some hd \<and> hash hd = h \<and> hd_number hd = m \<and> (m \<noteq> 0 \<longrightarrow> follows ?s m hd)"
      using old [of m h] new by (cases "m = ?N") auto
  qed simp
qed

section \<open>Storing a block\<close>

lemma insert_mined_fields [simp]:
  "cs_blocks (insert_mined h n x s) = cs_blocks s" "cs_hashes (insert_mined h n x s) = cs_hashes s"
  "cs_best_number (insert_mined h n x s) = cs_best_number s" "cs_best_hash (insert_mined h n x s) = cs_best_hash s"
  "cs_total_difficulty (insert_mined h n x s) = cs_total_difficulty s" "cs_genesis_hash (insert_mined h n x s) = cs_genesis_hash s"
  by (simp_all add: insert_mined_def split_beta)

definition mined_of :: "b256 \<Rightarrow> u64 \<Rightarrow> 'tr transaction_info \<times> typed_receipt \<Rightarrow> 'tr mined_transaction" where
  "mined_of h n = (\<lambda>(info, receipt). \<lparr> mt_info = info, mt_receipt = receipt, mt_block_hash = h, mt_block_number = n \<rparr>)"

lemma fold_insert_mined:
  "fold (insert_mined h n) xs s =
     s\<lparr> cs_transactions := fold (\<lambda>x. fmupd (tn_transaction_hash (fst x)) (mined_of h n x)) xs (cs_transactions s) \<rparr>"
  by (induction xs arbitrary: s) (simp_all add: insert_mined_def mined_of_def split_beta)

lemma fold_fmupd_lookup:
  assumes "distinct (map f xs)" and "x \<in> set xs"
  shows "fmlookup (fold (\<lambda>x. fmupd (f x) (g x)) xs m) (f x) = Some (g x)"
proof -
  have other: "fmlookup (fold (\<lambda>x. fmupd (f x) (g x)) ys m) k = fmlookup m k" if "k \<notin> f ` set ys" for ys k m
    using that by (induction ys arbitrary: m) auto
  show ?thesis using assms by (induction xs arbitrary: m) (auto simp: other)
qed

lemma fold_fmdrop_fmupd:
  assumes "\<And>x. x \<in> set xs \<Longrightarrow> fmlookup m (f x) = None"
  shows "fold fmdrop (map f xs) (fold (\<lambda>x. fmupd (f x) (g x)) xs m) = m"
proof -
  have drop: "fmlookup (fold fmdrop ks m) k = (if k \<in> set ks then None else fmlookup m k)" for ks m k
    by (induction ks arbitrary: m) auto
  have other: "fmlookup (fold (\<lambda>x. fmupd (f x) (g x)) ys m) k = fmlookup m k" if "k \<notin> f ` set ys" for ys k m
    using that by (induction ys arbitrary: m) auto
  show ?thesis using assms by (intro fmap_ext) (auto simp: drop other)
qed

lemma clear_old_block_fields [simp]:
  "cs_hashes (clear_old_block c s) = cs_hashes s" "cs_best_number (clear_old_block c s) = cs_best_number s"
  "cs_best_hash (clear_old_block c s) = cs_best_hash s" "header_at (clear_old_block c s) h = header_at s h"
  by (auto simp: clear_old_block_def remove_block_transactions_by_number_def remove_block_transactions_def header_at_def
      split: option.splits)

text \<open>What a mined block leaves in the backend.\<close>

lemma do_mine_block_SomeD:
  assumes "do_mine_block c now random txs b = Some (b', outcome)"
  obtains db x env blk h where
    "execute (cp_ommers_hash (bc_chain c)) (cp_transactions_root (bc_chain c)) (cp_receipts_root (bc_chain c))
       (\<lambda>db. Some (cp_state_root (bc_chain c) (md_inner db)))
       (exec_config_of c (bd_chain_id b) (bd_disable_base_fee b \<or> be_basefee (bd_env b) = 0) env (best_hash b)) (bd_db b) txs = Some (db, x)"
    "env = snd (mining_env c now random b)" "blk = bi_block (xt_block x)" "h = cp_hash_slow (bc_chain c) (bk_header blk)"
    "bd_storage b' = clear_old_block c (store_block c h (xt_block x) (bd_storage b))"
    "bd_env b' = env\<lparr> be_difficulty := 0 \<rparr>" "bd_time b' = fst (mining_env c now random b)"
    "bd_db b' = mem_insert_block_hash (ucast (hd_number (bk_header blk))) h db"
    "bd_new_block_listeners b' = notify_on_new_block (bk_header blk) h (bd_new_block_listeners b)"
    "bd_active_snapshots b' = bd_active_snapshots b"
    "mb_block_number outcome = cs_best_number (bd_storage b')" "mb_included outcome = xt_included x"
proof -
  obtain time env where m: "mining_env c now random b = (time, env)" by (meson surj_pair)
  from assms obtain states db x where
    "execute (cp_ommers_hash (bc_chain c)) (cp_transactions_root (bc_chain c)) (cp_receipts_root (bc_chain c))
       (\<lambda>db. Some (cp_state_root (bc_chain c) (md_inner db)))
       (exec_config_of c (bd_chain_id b) (bd_disable_base_fee b \<or> be_basefee (bd_env b) = 0) env (best_hash b)) (bd_db b) txs = Some (db, x)"
    "b' = b\<lparr> bd_db := mem_insert_block_hash (ucast (hd_number (bk_header (bi_block (xt_block x)))))
               (cp_hash_slow (bc_chain c) (bk_header (bi_block (xt_block x)))) db,
             bd_storage := clear_old_block c (store_block c (cp_hash_slow (bc_chain c) (bk_header (bi_block (xt_block x))))
               (xt_block x) (bd_storage b)), bd_states := states, bd_env := env\<lparr> be_difficulty := 0 \<rparr>,
             bd_disable_base_fee := (bd_disable_base_fee b \<or> be_basefee (bd_env b) = 0), bd_time := time,
             bd_fees := update_fees c (bk_header (bi_block (xt_block x))) (bd_fees b),
             bd_new_block_listeners := notify_on_new_block (bk_header (bi_block (xt_block x)))
               (cp_hash_slow (bc_chain c) (bk_header (bi_block (xt_block x)))) (bd_new_block_listeners b) \<rparr>"
    "mb_block_number outcome = cs_best_number (bd_storage b')" "mb_included outcome = xt_included x"
    unfolding do_mine_block_def m Let_def prod.case by (auto split: option.splits)
  then show thesis by (intro that [of env db x "bi_block (xt_block x)"]) (simp_all add: m)
qed

section \<open>The invariant of the backend\<close>

text \<open>
  The chain is intact, the environment is at the best block, and so is the clock. Mining a block keeps this, as long as
  the number does not overflow and the hash of the new block is not the hash of another one.
\<close>

definition backend_ok :: "('e, 'b, 'tr) backend_config \<Rightarrow> 'tr backend \<Rightarrow> bool" where
  "backend_ok c b \<longleftrightarrow>
     chain_ok (cp_hash_slow (bc_chain c)) (bd_storage b) \<and>
     unat (be_number (bd_env b)) = unat (best_number b) \<and>
     (\<forall>hd. header_at (bd_storage b) (best_hash b) = Some hd \<longrightarrow> hd_timestamp hd = tm_last_timestamp (bd_time b))"

definition new_block :: "'tr backend \<Rightarrow> 'tr backend \<Rightarrow> bool" where
  "new_block b b' \<longleftrightarrow>
     best_number b \<noteq> - 1 \<and> tm_last_timestamp (bd_time b) \<noteq> - 1 \<and> fmlookup (cs_blocks (bd_storage b)) (best_hash b') = None"

lemma store_block_eq:
  assumes "cs_best_number s \<noteq> - 1"
  shows "store_block c h info s = s\<lparr> cs_best_number := cs_best_number s + 1, cs_best_hash := h,
    cs_blocks := fmupd h (bi_block info) (cs_blocks s), cs_hashes := fmupd (cs_best_number s + 1) h (cs_hashes s) \<rparr>
    \<lparr> cs_total_difficulty := cs_total_difficulty (store_block c h info s),
      cs_transactions := fold (\<lambda>x. fmupd (tn_transaction_hash (fst x)) (mined_of h (cs_best_number s + 1) x))
        (zip (bi_transactions info) (bi_receipts info)) (cs_transactions s) \<rparr>"
  using assms by (cases s) (simp add: store_block_def Let_def fold_insert_mined saturating_add_1)

lemma mining_env_facts:
  assumes "tm_last_timestamp (bd_time b) \<noteq> - 1" and "unat (be_number (bd_env b)) < 2 ^ 64 - 1"
  shows "unat (be_number (snd (mining_env c now random b))) = Suc (unat (be_number (bd_env b)))"
    and "unat (be_timestamp (snd (mining_env c now random b))) = unat (tm_last_timestamp (fst (mining_env c now random b)))"
    and "tm_last_timestamp (bd_time b) < tm_last_timestamp (fst (mining_env c now random b))"
proof -
  have n: "unat (saturating_add (be_number (bd_env b)) 1) = Suc (unat (be_number (bd_env b)))"
    using assms(2) by (simp add: sat_simps)
  show "unat (be_number (snd (mining_env c now random b))) = Suc (unat (be_number (bd_env b)))"
    by (simp add: mining_env_def split_beta n)
  show "unat (be_timestamp (snd (mining_env c now random b))) = unat (tm_last_timestamp (fst (mining_env c now random b)))"
    using unsigned_less [of "fst (compute_next_timestamp now (bd_time b))", where ?'a = nat]
    by (simp add: mining_env_def split_beta next_timestamp_sel unat_ucast_mod)
  show "tm_last_timestamp (bd_time b) < tm_last_timestamp (fst (mining_env c now random b))"
    using compute_next_increases [OF assms(1)] by (simp add: mining_env_def split_beta next_timestamp_sel)
qed

lemma mine_keeps_ok:
  assumes ok: "backend_ok c b" and m: "do_mine_block c now random txs b = Some (b', outcome)" and new: "new_block b b'"
  shows "backend_ok c b' \<and> best_number b' = best_number b + 1 \<and>
    (\<exists>hd. header_at (bd_storage b') (best_hash b') = Some hd \<and> hd_parent_hash hd = best_hash b \<and>
       bd_new_block_listeners b' = notify_on_new_block hd (best_hash b') (bd_new_block_listeners b)) \<and>
    (\<forall>h hd. header_at (bd_storage b) h = Some hd \<longrightarrow> header_at (bd_storage b') h = Some hd)"
proof -
  let ?hash = "cp_hash_slow (bc_chain c)"
  from m obtain db x env blk h where
    ex: "execute (cp_ommers_hash (bc_chain c)) (cp_transactions_root (bc_chain c)) (cp_receipts_root (bc_chain c))
       (\<lambda>db. Some (cp_state_root (bc_chain c) (md_inner db)))
       (exec_config_of c (bd_chain_id b) (bd_disable_base_fee b \<or> be_basefee (bd_env b) = 0) env (best_hash b)) (bd_db b) txs = Some (db, x)"
    and env: "env = snd (mining_env c now random b)" and blk: "blk = bi_block (xt_block x)" "h = ?hash (bk_header blk)"
    and b': "bd_storage b' = clear_old_block c (store_block c h (xt_block x) (bd_storage b))"
      "bd_env b' = env\<lparr> be_difficulty := 0 \<rparr>" "bd_time b' = fst (mining_env c now random b)"
      "bd_new_block_listeners b' = notify_on_new_block (bk_header blk) h (bd_new_block_listeners b)"
    by (rule do_mine_block_SomeD)
  have n: "cs_best_number (bd_storage b) \<noteq> - 1" and t: "tm_last_timestamp (bd_time b) \<noteq> - 1"
    using new by (auto simp: new_block_def best_number_def)
  obtain td tx where sb: "store_block c h (xt_block x) (bd_storage b) =
      (bd_storage b)\<lparr> cs_best_number := cs_best_number (bd_storage b) + 1, cs_best_hash := h,
        cs_blocks := fmupd h blk (cs_blocks (bd_storage b)),
        cs_hashes := fmupd (cs_best_number (bd_storage b) + 1) h (cs_hashes (bd_storage b)) \<rparr>
      \<lparr> cs_total_difficulty := td, cs_transactions := tx \<rparr>" (is "_ = ?s\<lparr> cs_total_difficulty := td, cs_transactions := tx \<rparr>")
    using store_block_eq [OF n, of c h "xt_block x", folded blk(1)] by blast
  have best: "best_hash b' = h" "best_number b' = best_number b + 1" by (simp_all add: best_hash_def best_number_def b' sb)
  have fresh: "fmlookup (cs_blocks (bd_storage b)) h = None" using new best by (simp add: new_block_def)
  have number: "unat (be_number (bd_env b)) = unat (best_number b)" using ok by (simp add: backend_ok_def)
  have lt: "unat (be_number (bd_env b)) < 2 ^ 64 - 1"
    using number n unat_add_1 [OF n] unsigned_less [of "cs_best_number (bd_storage b) + 1", where ?'a = nat] by (simp add: best_number_def)
  note me = mining_env_facts [OF t lt, of c now random, folded env b'(3)]
  note hd = execute_header [OF ex, folded blk(1), unfolded exec_config_of_def exec_config.simps]
  have hn: "unat (hd_number (bk_header blk)) = Suc (unat (best_number b))" using hd(2) me(1) number by simp
  have young: "tm_last_timestamp (bd_time b) < hd_timestamp (bk_header blk)"
    using hd(3) me(2,3) by (simp add: word_less_nat_alt)
  have chain: "chain_ok ?hash ?s"
    unfolding blk(2)
  proof (rule chain_ok_append)
    show "chain_ok ?hash (bd_storage b)" using ok by (simp add: backend_ok_def)
    show "hd_number (bk_header blk) = cs_best_number (bd_storage b) + 1"
      using hn by (simp add: word_eq_unat unat_add_1 [OF n] best_number_def)
    show "hd_parent_hash (bk_header blk) = cs_best_hash (bd_storage b)" using hd(1) by (simp add: best_hash_def)
    show "hd_timestamp hd < hd_timestamp (bk_header blk)" if "header_at (bd_storage b) (cs_best_hash (bd_storage b)) = Some hd" for hd
      using that young ok by (simp add: backend_ok_def best_hash_def)
  qed (use n fresh blk in simp_all)
  have at: "header_at (bd_storage b') k = (if k = h then Some (bk_header blk) else header_at (bd_storage b) k)" for k
    unfolding b'(1) clear_old_block_fields(4) sb by (simp add: header_at_def)
  have "header_at (bd_storage b') k = header_at ?s k" for k
    unfolding b'(1) clear_old_block_fields(4) sb by (simp add: header_at_def)
  then have "chain_ok ?hash (bd_storage b')" by (rule chain_ok_cong [OF chain, rotated]) (simp_all add: b' sb)
  moreover have "unat (be_number (bd_env b')) = unat (best_number b')"
    using me(1) number n unfolding best by (simp add: b'(2) best_number_def unat_add_1)
  moreover have "hd_timestamp (bk_header blk) = tm_last_timestamp (bd_time b')"
    using hd(3) me(2) by (simp add: word_eq_unat b')
  ultimately show ?thesis using best hd(1) b'(4) at fresh by (auto simp: backend_ok_def header_at_def)
qed

end
