(* ===== verification/Backend_Properties.thy ===== *)
theory Backend_Properties
  imports Backend
begin

text \<open>
  What the backend guarantees across operations: the chain stays intact while blocks are mined, mined transactions are
  found, and a snapshot of the node is restored, but not one that was taken later than the one reverted to.
\<close>

section \<open>Runs of mined blocks\<close>

text \<open>The EVM charges no transaction more than its gas limit.\<close>

definition evm_params_ok :: "('e, 'b, 'tr) backend_config \<Rightarrow> bool" where
  "evm_params_ok c \<longleftrightarrow> (\<forall>d env tx e db db' r traces.
     ep_transact (bc_evm c) d env tx e db = (db', Inr (r, traces)) \<longrightarrow> result_gas r \<le> te_gas_limit e)"

lemma evm_ok_exec_config:
  assumes "evm_params_ok c"
  shows "evm_ok (exec_config_of c chain d env parent)"
  unfolding evm_ok_def
proof (intro allI impI)
  fix tx e db db' r traces
  assume "xc_transact (exec_config_of c chain d env parent) tx e db = (db', Inr (r, traces))"
  moreover obtain i res where "ep_transact (bc_evm c) d env tx e (md_inner db) = (i, res)" by (meson surj_pair)
  ultimately have "ep_transact (bc_evm c) d env tx e (md_inner db) = (i, Inr (r, traces))"
    by (cases res) (auto simp: exec_config_of_def with_inner_def)
  then show "result_gas r \<le> te_gas_limit e" using assms unfolding evm_params_ok_def by blast
qed

text \<open>
  The hashes of transactions: the one in the pool is the one of the transaction, and none of the block is known yet.
\<close>

definition new_transactions :: "('e, 'b, 'tr) backend_config \<Rightarrow> 'tr backend \<Rightarrow> pool_transaction list \<Rightarrow> bool" where
  "new_transactions c b txs \<longleftrightarrow> distinct (map pt_hash txs) \<and>
     (\<forall>tx\<in>set txs. pt_hash tx = cp_tx_hash (bc_chain c) (pe_transaction (pt_pending_transaction tx)) \<and>
        fmlookup (cs_transactions (bd_storage b)) (pt_hash tx) = None)"

inductive mined :: "('e, 'b, 'tr) backend_config \<Rightarrow> 'tr backend \<Rightarrow> 'tr backend \<Rightarrow> bool" for c where
  mined_refl: "mined c b b"
| mined_step: "mined c b b1 \<Longrightarrow> do_mine_block c now random txs b1 = Some (b2, outcome) \<Longrightarrow> new_block b1 b2 \<Longrightarrow>
    new_transactions c b1 (mb_included outcome) \<Longrightarrow> mined c b b2"

inductive_cases mined_cases: "mined c b b'"

lemma mined_keeps_ok:
  assumes "mined c b b'" and "backend_ok c b"
  shows "backend_ok c b' \<and> best_number b \<le> best_number b' \<and>
    (\<forall>h hd. header_at (bd_storage b) h = Some hd \<longrightarrow> header_at (bd_storage b') h = Some hd)"
  using assms
proof (induction rule: mined.induct)
  case (mined_step b b1 now random txs b2 outcome)
  then have ok: "backend_ok c b1" "best_number b \<le> best_number b1"
    "\<forall>h hd. header_at (bd_storage b) h = Some hd \<longrightarrow> header_at (bd_storage b1) h = Some hd" by simp_all
  note k = mine_keeps_ok [OF ok(1) mined_step.hyps(2,3)]
  have "best_number b1 < best_number b1 + 1" using mined_step.hyps(3) by (intro less_add_1) (simp add: new_block_def)
  then show ?case using k ok by (auto intro: order.trans)
qed simp

section \<open>Transactions of a mined block\<close>

lemma mined_block_lists:
  fixes c :: "('e, 'b, 'tr) backend_config"
  assumes evm: "evm_params_ok c" and m: "do_mine_block c now random txs b = Some (b', outcome)"
  obtains info where
    "bd_storage b' = clear_old_block c (store_block c (cp_hash_slow (bc_chain c) (bk_header (bi_block info))) info (bd_storage b))"
    "map tn_transaction_hash (bi_transactions info) = map pt_hash (mb_included outcome)"
    "map tn_transaction_index (bi_transactions info) = map word_of_nat [0..<length (mb_included outcome)]"
    "bk_transactions (bi_block info) = map (pe_transaction \<circ> pt_pending_transaction) (mb_included outcome)"
    "length (bi_receipts info) = length (mb_included outcome)"
    "md_snapshots (bd_db b') = md_snapshots (bd_db b)"
    "bd_active_snapshots b' = bd_active_snapshots b"
proof -
  from m obtain db x env blk h where
    ex: "execute (cp_ommers_hash (bc_chain c)) (cp_transactions_root (bc_chain c)) (cp_receipts_root (bc_chain c))
       (\<lambda>db. Some (cp_state_root (bc_chain c) (md_inner db)))
       (exec_config_of c (bd_chain_id b) (bd_disable_base_fee b \<or> be_basefee (bd_env b) = 0) env (best_hash b)) (bd_db b) txs = Some (db, x)"
    and r: "blk = bi_block (xt_block x)" "h = cp_hash_slow (bc_chain c) (bk_header blk)"
      "bd_storage b' = clear_old_block c (store_block c h (xt_block x) (bd_storage b))"
      "bd_db b' = mem_insert_block_hash (ucast (hd_number (bk_header blk))) h db"
      "bd_active_snapshots b' = bd_active_snapshots b" "mb_included outcome = xt_included x"
    by (rule do_mine_block_SomeD)
  show thesis
  proof (rule execute_spec [OF ex evm_ok_exec_config [OF evm]])
    fix e a limit
    assume "block_lists a" "xt_included x = ba_included a" "bi_transactions (xt_block x) = ba_infos a"
      "bi_receipts (xt_block x) = ba_receipts a" "bk_transactions (bi_block (xt_block x)) = ba_transactions a"
    then show thesis
      using that [of "xt_block x"] r execute_snapshots [OF ex] by (auto simp: block_lists_def mem_insert_block_hash_def)
  qed
qed

lemma mined_transaction_lookup:
  assumes evm: "evm_params_ok c" and m: "do_mine_block c now random txs b = Some (b', outcome)"
    and keeper: "bc_transaction_block_keeper c = None" and n: "best_number b \<noteq> - 1"
    and dist: "distinct (map pt_hash (mb_included outcome))" and i: "i < length (mb_included outcome)"
  shows "\<exists>mt. get_transaction_by_hash (bd_storage b') (pt_hash (mb_included outcome ! i)) = Some mt \<and>
    tn_transaction_hash (mt_info mt) = pt_hash (mb_included outcome ! i) \<and> tn_transaction_index (mt_info mt) = word_of_nat i \<and>
    mt_block_hash mt = best_hash b' \<and> mt_block_number mt = best_number b'"
proof -
  obtain info where x:
    "bd_storage b' = clear_old_block c (store_block c (cp_hash_slow (bc_chain c) (bk_header (bi_block info))) info (bd_storage b))"
    "map tn_transaction_hash (bi_transactions info) = map pt_hash (mb_included outcome)"
    "map tn_transaction_index (bi_transactions info) = map word_of_nat [0..<length (mb_included outcome)]"
    "length (bi_receipts info) = length (mb_included outcome)"
    using mined_block_lists [OF evm m] by metis
  let ?xs = "zip (bi_transactions info) (bi_receipts info)"
  have len: "length (bi_transactions info) = length (mb_included outcome)" using x(2) by (metis length_map)
  have s: "bd_storage b' = store_block c (best_hash b') info (bd_storage b)" "best_number b' = best_number b + 1"
    using x(1) keeper n by (simp_all add: clear_old_block_def best_hash_def best_number_def store_block_def Let_def
        fold_insert_mined saturating_add_1)
  have "distinct (map (\<lambda>x. tn_transaction_hash (fst x)) ?xs)"
    using dist x(2,4) len by (simp add: map_fst_zip flip: map_map [unfolded comp_def])
  moreover have "?xs ! i \<in> set ?xs" using i len x(4) by (intro nth_mem) simp
  ultimately have "fmlookup (fold (\<lambda>x. fmupd (tn_transaction_hash (fst x)) (mined_of (best_hash b') (best_number b') x)) ?xs
      (cs_transactions (bd_storage b))) (tn_transaction_hash (fst (?xs ! i))) = Some (mined_of (best_hash b') (best_number b') (?xs ! i))"
    by (rule fold_fmupd_lookup)
  moreover have "tn_transaction_hash (fst (?xs ! i)) = pt_hash (mb_included outcome ! i)"
    "tn_transaction_index (fst (?xs ! i)) = word_of_nat i"
    using i len x(4) arg_cong [OF x(2), of "\<lambda>l. l ! i"] arg_cong [OF x(3), of "\<lambda>l. l ! i"] by simp_all
  moreover have "cs_transactions (bd_storage b') =
      fold (\<lambda>x. fmupd (tn_transaction_hash (fst x)) (mined_of (best_hash b') (best_number b') x)) ?xs (cs_transactions (bd_storage b))"
    unfolding s(2) using n by (subst s(1)) (simp add: store_block_def Let_def fold_insert_mined saturating_add_1 best_number_def)
  ultimately show ?thesis by (simp add: get_transaction_by_hash_def mined_of_def split_beta)
qed

section \<open>Reverting blocks\<close>

lemma revert_block_irrelevant [simp]:
  "revert_block f n (s\<lparr> cs_best_number := i \<rparr>) = (revert_block f n s)\<lparr> cs_best_number := i \<rparr>"
  "revert_block f n (s\<lparr> cs_best_hash := h \<rparr>) = (revert_block f n s)\<lparr> cs_best_hash := h \<rparr>"
  "revert_block f n (s\<lparr> cs_total_difficulty := d \<rparr>) = (revert_block f n s)\<lparr> cs_total_difficulty := d \<rparr>"
  by (simp_all add: revert_block_def Let_def split: option.split)

lemma fold_revert_block_irrelevant [simp]:
  "fold (revert_block f) ns (s\<lparr> cs_best_number := i \<rparr>) = (fold (revert_block f) ns s)\<lparr> cs_best_number := i \<rparr>"
  "fold (revert_block f) ns (s\<lparr> cs_best_hash := h \<rparr>) = (fold (revert_block f) ns s)\<lparr> cs_best_hash := h \<rparr>"
  "fold (revert_block f) ns (s\<lparr> cs_total_difficulty := d \<rparr>) = (fold (revert_block f) ns s)\<lparr> cs_total_difficulty := d \<rparr>"
  by (induction ns arbitrary: s) simp_all

lemma revert_block_None: "fmlookup (cs_blocks s) h = None \<Longrightarrow> fmlookup (cs_blocks (revert_block f n s)) h = None"
  by (auto simp: revert_block_def Let_def split: option.split)

lemma revert_blocks_None: "fmlookup (cs_blocks s) h = None \<Longrightarrow> fmlookup (cs_blocks (revert_blocks f n k s)) h = None"
proof -
  assume "fmlookup (cs_blocks s) h = None"
  then have "fmlookup (cs_blocks (fold (revert_block f) ns s)) h = None" for ns
    by (induction ns arbitrary: s) (simp_all add: revert_block_None)
  then show ?thesis by (simp add: revert_blocks_def)
qed

lemma revert_blocks_step:
  assumes "n \<noteq> - 1" and "num \<le> n"
  shows "revert_blocks f num (n + 1) s = revert_blocks f num n (revert_block f (n + 1) s)"
proof -
  have "num \<noteq> - 1" using assms by (metis word_order.extremum_unique)
  then have "unat (num + 1) \<le> unat (n + 1)" using assms by (simp add: unat_add_1 word_le_nat_alt)
  then have "rev [unat (num + 1)..<Suc (unat (n + 1))] = unat (n + 1) # rev [unat (num + 1)..<unat (n + 1)]" by simp
  moreover have "unat (n + 1) = Suc (unat n)" using assms(1) by (rule unat_add_1)
  moreover have "word_of_nat (unat (n + 1)) = n + 1" by simp
  ultimately show ?thesis by (simp add: revert_blocks_def add.commute [of 1 n] del: upt_Suc)
qed

lemma revert_blocks_refl: "n \<noteq> - 1 \<Longrightarrow> revert_blocks f n n s = s"
  by (simp add: revert_blocks_def unat_add_1)

lemma fmdrop_None: "fmlookup m k = None \<Longrightarrow> fmdrop k m = m"
  by (rule fmap_ext) auto

text \<open>Reverting the block just mined undoes \<open>store_block\<close>, but for the total difficulty.\<close>

lemma revert_mined:
  assumes evm: "evm_params_ok c" and m: "do_mine_block c now random txs b = Some (b', outcome)"
    and keeper: "bc_transaction_block_keeper c = None" and new: "new_block b b'" and ok: "backend_ok c b"
    and txs: "new_transactions c b (mb_included outcome)"
  shows "revert_block (cp_tx_hash (bc_chain c)) (best_number b') (bd_storage b') =
    (bd_storage b)\<lparr> cs_best_number := best_number b', cs_best_hash := best_hash b',
                   cs_total_difficulty := cs_total_difficulty (bd_storage b') \<rparr>"
proof -
  obtain info where x:
    "bd_storage b' = clear_old_block c (store_block c (cp_hash_slow (bc_chain c) (bk_header (bi_block info))) info (bd_storage b))"
    "map tn_transaction_hash (bi_transactions info) = map pt_hash (mb_included outcome)"
    "bk_transactions (bi_block info) = map (pe_transaction \<circ> pt_pending_transaction) (mb_included outcome)"
    "length (bi_receipts info) = length (mb_included outcome)"
    using mined_block_lists [OF evm m] by metis
  let ?xs = "zip (bi_transactions info) (bi_receipts info)" and ?s = "bd_storage b"
  have n: "cs_best_number ?s \<noteq> - 1" using new by (simp add: new_block_def best_number_def)
  have s: "bd_storage b' = store_block c (best_hash b') info ?s"
    using x(1) keeper n by (simp add: clear_old_block_def best_hash_def store_block_def Let_def fold_insert_mined)
  note eq = store_block_eq [OF n, of c "best_hash b'" info, unfolded s [symmetric]]
  have bn: "best_number b' = cs_best_number ?s + 1" by (subst best_number_def, subst eq) simp
  have len: "length (bi_transactions info) = length (mb_included outcome)" using x(2) by (metis length_map)
  have hashes: "map (\<lambda>x. tn_transaction_hash (fst x)) ?xs = map pt_hash (mb_included outcome)"
    using x(2,4) len by (simp flip: map_map [unfolded comp_def])
  then have keys: "map (cp_tx_hash (bc_chain c)) (bk_transactions (bi_block info)) = map (\<lambda>x. tn_transaction_hash (fst x)) ?xs"
    using txs x(3) by (simp add: new_transactions_def)
  have none: "fmlookup (cs_transactions ?s) (tn_transaction_hash (fst y)) = None" if "y \<in> set ?xs" for y
  proof -
    have "tn_transaction_hash (fst y) \<in> set (map pt_hash (mb_included outcome))" using that hashes by (metis imageI list.set_map)
    then show ?thesis using txs by (auto simp: new_transactions_def)
  qed
  have "fmlookup (cs_hashes ?s) (cs_best_number ?s + 1) = None"
    using ok less_add_1 [OF n] unfolding backend_ok_def chain_ok_def by (metis linorder_not_le)
  moreover have "fmlookup (cs_blocks ?s) (best_hash b') = None" using new by (simp add: new_block_def)
  moreover have "fold (\<lambda>tx. fmdrop (cp_tx_hash (bc_chain c) tx)) (bk_transactions (bi_block info))
      (fold (\<lambda>x. fmupd (tn_transaction_hash (fst x)) (mined_of (best_hash b') (cs_best_number ?s + 1) x)) ?xs (cs_transactions ?s)) = cs_transactions ?s"
    using fold_fmdrop_fmupd [of ?xs "cs_transactions ?s" "\<lambda>x. tn_transaction_hash (fst x)", OF none] 
    by (simp add: fold_map comp_def flip: keys)
  ultimately show ?thesis
    unfolding bn by (subst eq) (cases ?s, simp add: revert_block_def fmdrop_None fmdrop_fmupd_same)
qed

text \<open>Reverting all blocks mined since gives the chain back.\<close>

lemma revert_run:
  assumes "mined c b b'" and "evm_params_ok c" and "bc_transaction_block_keeper c = None" and "backend_ok c b" and "best_number b \<noteq> - 1"
  shows "revert_blocks (cp_tx_hash (bc_chain c)) (best_number b) (best_number b') (bd_storage b') =
    (bd_storage b)\<lparr> cs_best_number := best_number b', cs_best_hash := best_hash b',
                   cs_total_difficulty := cs_total_difficulty (bd_storage b') \<rparr>"
  using assms
proof (induction rule: mined.induct)
  case (mined_refl b)
  then show ?case by (simp add: revert_blocks_refl best_number_def best_hash_def)
next
  case (mined_step b b1 now random txs b2 outcome)
  note k = mined_keeps_ok [OF mined_step.hyps(1) mined_step.prems(3)]
  have n: "best_number b1 \<noteq> - 1" using mined_step.hyps(3) by (simp add: new_block_def)
  have "best_number b2 = best_number b1 + 1" using mine_keeps_ok [OF _ mined_step.hyps(2,3)] k by blast
  with revert_blocks_step [OF n, of "best_number b"] k
  have "revert_blocks (cp_tx_hash (bc_chain c)) (best_number b) (best_number b2) (bd_storage b2) =
    revert_blocks (cp_tx_hash (bc_chain c)) (best_number b) (best_number b1)
      (revert_block (cp_tx_hash (bc_chain c)) (best_number b2) (bd_storage b2))" by simp
  also have "\<dots> = (revert_blocks (cp_tx_hash (bc_chain c)) (best_number b) (best_number b1) (bd_storage b1))
      \<lparr> cs_best_number := best_number b2, cs_best_hash := best_hash b2, cs_total_difficulty := cs_total_difficulty (bd_storage b2) \<rparr>"
    using revert_mined [OF mined_step.prems(1) mined_step.hyps(2) mined_step.prems(2) mined_step.hyps(3) _ mined_step.hyps(4)] k
    by (simp add: revert_blocks_def)
  finally show ?case using mined_step.IH mined_step.prems by simp
qed

lemma mined_snapshots:
  assumes "mined c b b'" and "evm_params_ok c"
  shows "md_snapshots (bd_db b') = md_snapshots (bd_db b) \<and> bd_active_snapshots b' = bd_active_snapshots b"
  using assms
proof (induction rule: mined.induct)
  case (mined_step b b1 now random txs b2 outcome)
  then show ?case using mined_block_lists [OF mined_step.prems mined_step.hyps(2)] by metis
qed simp

text \<open>A snapshot, some blocks, and the way back.\<close>

lemma create_snapshot_fields:
  assumes "create_snapshot b = (b1, i)"
  shows "bd_storage b1 = bd_storage b" "bd_env b1 = bd_env b" "bd_time b1 = bd_time b"
    "mem_snapshot (bd_db b) = (bd_db b1, i)"
    "bd_active_snapshots b1 = fmupd i (best_number b, best_hash b) (bd_active_snapshots b)"
  using assms by (auto simp: create_snapshot_def split: prod.splits)

text \<open>What happens to the database in between is a run of the interface \<open>snapshot_store\<close>.\<close>

lemma database_reverts:
  assumes evm: "evm_params_ok c" and ids: "snapshots_inv (md_snapshots (bd_db b))" "unat (sn_id (md_snapshots (bd_db b))) + 3 < 2 ^ 256"
    and s: "mem_snapshot (bd_db b) = (bd_db b1, i)" and run: "mined c b1 b2"
    and db: "md_snapshots m = md_snapshots (bd_db b2) \<or> (\<exists>j. mem_snapshot (bd_db b2) = (m, j))"
  shows "\<exists>m'. mem_revert RevertRemove i m = (m', True) \<and> md_inner m' = md_inner (bd_db b)"
proof -
  have sn: "md_snapshots (bd_db b2) = md_snapshots (bd_db b1)" using mined_snapshots [OF run evm] by blast
  obtain ops where ops: "m = store_run mem_modify mem_snapshot (mem_revert RevertRemove) ops (bd_db b1)" "length ops \<le> 2"
    "\<forall>x. RevertTo x \<notin> set ops"
  proof (rule disjE [OF db])
    assume "md_snapshots m = md_snapshots (bd_db b2)"
    then have "m = mem_modify (\<lambda>_. md_inner m) (bd_db b1)" using sn by (simp add: mem_modify_def)
    then show thesis by (intro that [of "[Modify (\<lambda>_. md_inner m)]"]) (simp_all add: store_run_def)
  next
    assume "\<exists>j. mem_snapshot (bd_db b2) = (m, j)"
    moreover have "bd_db b2 = mem_modify (\<lambda>_. md_inner (bd_db b2)) (bd_db b1)" using sn by (simp add: mem_modify_def)
    ultimately have "m = fst (mem_snapshot (mem_modify (\<lambda>_. md_inner (bd_db b2)) (bd_db b1)))" by (metis fst_conv)
    then show thesis by (intro that [of "[Modify (\<lambda>_. md_inner (bd_db b2)), TakeSnapshot]"]) (simp_all add: store_run_def)
  qed
  obtain m' r where rd: "mem_revert RevertRemove i m = (m', r)" by (meson surj_pair)
  have "mem_store.ids_ok (bd_db b)" using ids(1) by (simp add: mem_store.ids_ok_def snapshots_inv_def mem_taken_def mem_next_id_def)
  from mem_store.snapshot_revert_restores [OF this s _ _ rd [unfolded ops(1)]] ids(2) ops(2,3)
  have "r" "md_inner m' = md_inner (bd_db b)" by (auto simp: mem_next_id_def)
  then show ?thesis using rd by simp
qed

lemma snapshot_round:
  assumes evm: "evm_params_ok c" and keeper: "bc_transaction_block_keeper c = None" and ok: "backend_ok c b" and n: "best_number b \<noteq> - 1"
    and ids: "snapshots_inv (md_snapshots (bd_db b))" "unat (sn_id (md_snapshots (bd_db b))) + 3 < 2 ^ 256"
    and cr: "create_snapshot b = (b1, i)" and run: "mined c b1 b2"
    and b3: "md_snapshots (bd_db b3) = md_snapshots (bd_db b2) \<or> (\<exists>j. mem_snapshot (bd_db b2) = (bd_db b3, j))"
      "bd_storage b3 = bd_storage b2" "fmlookup (bd_active_snapshots b3) i = Some (best_number b, best_hash b)"
  shows "\<exists>b4 hd. revert_snapshot c now i b3 = (b4, Inr True) \<and>
    bd_storage b4 = (bd_storage b)\<lparr> cs_total_difficulty := cs_total_difficulty (bd_storage b2) \<rparr> \<and>
    md_inner (bd_db b4) = md_inner (bd_db b) \<and> be_number (bd_env b4) = ucast (best_number b) \<and>
    header_at (bd_storage b) (best_hash b) = Some hd \<and> tm_last_timestamp (bd_time b4) = hd_timestamp hd \<and>
    bd_active_snapshots b4 = fmdrop i (bd_active_snapshots b3)"
proof -
  note c1 = create_snapshot_fields [OF cr]
  have ok1: "backend_ok c b1" "best_number b1 = best_number b" "best_hash b1 = best_hash b"
    using ok c1 by (simp_all add: backend_ok_def best_number_def best_hash_def)
  have rev: "revert_blocks (cp_tx_hash (bc_chain c)) (best_number b) (best_number b3) (bd_storage b3) =
    (bd_storage b)\<lparr> cs_best_number := best_number b2, cs_best_hash := best_hash b2,
                   cs_total_difficulty := cs_total_difficulty (bd_storage b2) \<rparr>"
    using revert_run [OF run evm keeper ok1(1)] ok1 c1(1) n b3(2) by (simp add: best_number_def)
  obtain blk where blk: "fmlookup (cs_blocks (bd_storage b)) (best_hash b) = Some blk"
    using ok chain_ok_best by (fastforce simp: backend_ok_def header_at_def best_hash_def)
  show ?thesis
    using database_reverts [OF evm ids c1(4) run b3(1)] rev blk b3
    by (cases "bd_storage b") (auto simp: revert_snapshot_def Let_def get_block_by_hash_def header_at_def revert_env_def tm_reset_def
        best_number_def best_hash_def)
qed

lemma mem_snapshot_ids:
  "mem_snapshot m = (m', i) \<Longrightarrow> i = sn_id (md_snapshots m) \<and> sn_id (md_snapshots m') = saturating_add i 1"
  by (auto simp: mem_snapshot_def snapshots_insert_def snapshots_next_id_def)

lemma mined_new_hash:
  assumes "mined c b b'" and "backend_ok c b" and "best_number b' \<noteq> best_number b"
  shows "fmlookup (cs_blocks (bd_storage b)) (best_hash b') = None"
  using assms(1)
proof (cases rule: mined.cases)
  case (mined_step b1 now random txs outcome)
  have "header_at (bd_storage b1) (best_hash b') = None" using mined_step(3) by (simp add: new_block_def header_at_def)
  then have "header_at (bd_storage b) (best_hash b') = None"
    using mined_keeps_ok [OF mined_step(1) assms(2)] by (metis option.exhaust option.distinct(1))
  then show ?thesis by (simp add: header_at_def)
qed (use assms(3) in simp)

section \<open>An example\<close>

definition sample_evm :: "(unit, unit) evm_params" where
  "sample_evm =
     \<lparr> ep_basic = (\<lambda>_ db. (db, Inr (Some \<lparr> ai_balance = 10 ^ 9, ai_nonce = 0, ai_code_hash = 0, ai_code = None \<rparr>))),
       ep_account_default = \<lparr> ai_balance = 0, ai_nonce = 0, ai_code_hash = 0, ai_code = None \<rparr>,
       ep_transact = (\<lambda>_ _ _ e db. (db, Inr (ExecSuccess 1 (min 21000 (te_gas_limit e)) [] (OutCall []), []))),
       ep_blob_gas = (\<lambda>_. 0), ep_max_blob_gas_per_block = 786432, ep_self_destruct = 3, ep_revert = 16,
       ep_receipt_bloom = (\<lambda>_. 0), ep_accrue_address = (\<lambda>_ bl. bl), ep_accrue_topic = (\<lambda>_ bl. bl) \<rparr>"

definition sample_chain :: chain_params where
  "sample_chain =
     \<lparr> cp_ommers_hash = (\<lambda>_. 0), cp_transactions_root = (\<lambda>_. 0), cp_receipts_root = (\<lambda>_. 0), cp_state_root = (\<lambda>_. 0),
       cp_hash_slow = (\<lambda>h. ucast (hd_number h) + 100), cp_tx_hash = (\<lambda>tx. ucast (tx_nonce (mi_transaction tx))),
       cp_next_base_fee = (\<lambda>_ _ f. f), cp_calc_excess_blob_gas = (\<lambda>_ _. 0),
       cp_blob_excess_gas_and_price_new = (\<lambda>g. \<lparr> excess_blob_gas = g, blob_gasprice = 1 \<rparr>), cp_default_blob = None \<rparr>"

definition sample_backend_config :: "(unit, unit, unit) backend_config" where
  "sample_backend_config =
     \<lparr> bc_evm = sample_evm, bc_chain = sample_chain, bc_spec_ids = \<lparr> LONDON = 12, CANCUN = 17 \<rparr>,
       bc_disable_block_gas_limit = False, bc_spurious_dragon = True, bc_london = True, bc_cancun = False, bc_is_eip3675 = True,
       bc_max_blobs_per_block = 6, bc_validate_blobs = (\<lambda>_. Inr ()),
       bc_prune_state_history_config = \<lparr> pc_enabled = True, pc_max_memory_history = None \<rparr>,
       bc_transaction_block_keeper = None, bc_accounts_order = sorted_list_of_fset \<rparr>"

definition sample_env :: block_env where
  "sample_env = \<lparr> be_number = 0, be_coinbase = 0, be_timestamp = 5, be_gas_limit = 30000000, be_basefee = 7,
     be_difficulty = 0, be_prevrandao = None, be_blob_excess_gas_and_price = None \<rparr>"

definition sample_genesis :: "unit blockchain_storage" where
  "sample_genesis = the (storage_new (\<lambda>_. 0) (\<lambda>_. 0) (cp_hash_slow sample_chain) sample_env (Some 7) 5)"

definition sample_with :: "mem_db \<Rightarrow> (u256, u64 \<times> b256) fmap \<Rightarrow> unit backend" where
  "sample_with db active =
     \<lparr> bd_db = db, bd_storage = sample_genesis, bd_states = block_states_new 500, bd_env = sample_env,
       bd_chain_id = 31337, bd_disable_base_fee = False, bd_time = tm_new 5 5,
       bd_fees = \<lparr> fm_spec_id = 15, fm_base_fee = 7, fm_blob_excess_gas_and_price = \<lparr> excess_blob_gas = 0, blob_gasprice = 1 \<rparr>, fm_gas_price = 7 \<rparr>,
       bd_new_block_listeners = [], bd_active_snapshots = active \<rparr>"

abbreviation sample_backend :: "unit backend" where
  "sample_backend \<equiv> sample_with mem_db_default fmempty"

lemma sample_genesis_eq: "storage_new (\<lambda>_. 0) (\<lambda>_. 0) (cp_hash_slow sample_chain) sample_env (Some 7) 5 = Some sample_genesis"
  by (simp add: sample_genesis_def storage_new_def sample_env_def to_narrow_def)

lemma sample_genesis_fields:
  "cs_best_number sample_genesis = 0" "cs_best_hash sample_genesis = 100" "fmlookup (cs_blocks sample_genesis) h = None \<longleftrightarrow> h \<noteq> 100"
  "header_at sample_genesis 100 = Some hr \<Longrightarrow> hd_timestamp hr = 5"
  by (auto simp: sample_genesis_def storage_new_def sample_env_def to_narrow_def Let_def block_new_def partial_header_default_def
      sample_chain_def header_at_def)

lemma sample_backend_ok: "backend_ok sample_backend_config (sample_with db active)"
  using chain_ok_genesis [OF sample_genesis_eq] sample_genesis_fields
  by (auto simp: backend_ok_def sample_with_def sample_backend_config_def best_number_def best_hash_def sample_env_def
      tm_new_def tm_reset_def)

lemma sample_evm_ok: "evm_params_ok sample_backend_config"
  by (auto simp: evm_params_ok_def sample_backend_config_def sample_evm_def)

lemmas mine_eval = do_mine_block_def mining_env_def next_timestamp_def compute_next_timestamp_def i128_saturating_add_def
  is_state_history_supported_def execute_def exec_config_of_def to_narrow_def executor_next_def with_inner_def
  to_revm_tx_env_def plain_env_def mi_new_def result_fields_def include_executed_def create_receipt_def block_acc_init_def
  validation_env_of_def base_fee_def fm_is_eip1559_def excess_blob_gas_and_price_def fm_is_eip4844_def tm_new_def tm_reset_def

lemma sample_mine:
  "\<exists>b outcome. do_mine_block sample_backend_config 9 1 [sample_pending 0] (sample_with db active) = Some (b, outcome) \<and>
     best_hash b = 101 \<and> mb_included outcome = [sample_pending 0]"
  by (simp add: mine_eval sample_with_def sample_backend_config_def sample_evm_def sample_env_def sample_chain_def
      sample_pending_def best_hash_def Let_def saturating_add_def validate_pool_transaction_for_def check_chain_id_def check_gas_limit_def check_nonce_def
      check_fees_def check_blobs_def check_funds_def and_then_def checked_add_def max_cost_def saturating_mul_def MIN_TRANSACTION_GAS_def
      mem_db_default_def clear_old_block_def store_block_def fold_insert_mined block_new_def
      sample_genesis_fields [unfolded sample_chain_def])

lemma sample_mined:
  obtains b outcome where "do_mine_block sample_backend_config 9 1 [sample_pending 0] (sample_with db active) = Some (b, outcome)"
    "best_hash b = 101" "mb_included outcome = [sample_pending 0]" "new_block (sample_with db active) b"
    "new_transactions sample_backend_config (sample_with db active) (mb_included outcome)"
proof -
  from sample_mine obtain b outcome where
    s: "do_mine_block sample_backend_config 9 1 [sample_pending 0] (sample_with db active) = Some (b, outcome)"
      "best_hash b = 101" "mb_included outcome = [sample_pending 0]" by blast
  have "cs_transactions sample_genesis = fmempty"
    by (simp add: sample_genesis_def storage_new_def sample_env_def to_narrow_def Let_def)
  then show thesis
    using s by (intro that [of b outcome])
      (simp_all add: new_block_def new_transactions_def sample_with_def best_number_def sample_genesis_fields tm_new_def tm_reset_def
        sample_pending_def pt_hash_def sample_backend_config_def sample_chain_def mi_new_def)
qed

section \<open>Properties\<close>

text \<open>
  C2. While blocks are mined the chain stays intact: after any number of blocks the block numbers run without a gap from 0 to the best
  one, every number leads to a block that is stored under its own hash and carries that number, the hash of its
  predecessor and a later timestamp than it, the environment is at the best block, and no earlier block is lost.
  Each step assumes that numbers and timestamps are not exhausted and that the new hash is not the hash of another block.
\<close>

theorem mined_chain_intact:
  assumes "mined c b b'" and "backend_ok c b"
  shows "chain_ok (cp_hash_slow (bc_chain c)) (bd_storage b') \<and> unat (be_number (bd_env b')) = unat (best_number b') \<and>
    best_number b \<le> best_number b' \<and>
    (\<forall>h hr. header_at (bd_storage b) h = Some hr \<longrightarrow> header_at (bd_storage b') h = Some hr)"
  using mined_keeps_ok [OF assms] by (simp add: backend_ok_def)

theorem mined_chain_intact_witness:
  "\<exists>b outcome. do_mine_block sample_backend_config 9 1 [sample_pending 0] sample_backend = Some (b, outcome) \<and>
     backend_ok sample_backend_config sample_backend \<and> chain_ok (cp_hash_slow sample_chain) (bd_storage b)"
proof (rule sample_mined [of mem_db_default fmempty])
  fix b outcome
  assume s: "do_mine_block sample_backend_config 9 1 [sample_pending 0] sample_backend = Some (b, outcome)"
    "new_block sample_backend b" "new_transactions sample_backend_config sample_backend (mb_included outcome)"
  then have "mined sample_backend_config sample_backend b" by (blast intro: mined.intros)
  from mined_chain_intact [OF this sample_backend_ok] s(1) sample_backend_ok show ?thesis by (auto simp: sample_backend_config_def)
qed





lemma sample_snapshot:
  obtains b1 b where "create_snapshot sample_backend = (b1, 0)" "mined sample_backend_config b1 b"
    "best_number b \<noteq> best_number sample_backend" "snapshots_inv (md_snapshots (bd_db sample_backend))"
    "unat (sn_id (md_snapshots (bd_db sample_backend))) + 3 < 2 ^ 256" "bc_transaction_block_keeper sample_backend_config = None"
    "best_number sample_backend \<noteq> - 1"
proof -
  obtain db where b1: "create_snapshot sample_backend = (sample_with db (fmupd 0 (0, 100) fmempty), 0)"
    by (simp add: create_snapshot_def mem_snapshot_def snapshots_insert_def snapshots_next_id_def sample_with_def
        mem_db_default_def snapshots_default_def best_number_def best_hash_def sample_genesis_fields)
  show thesis
  proof (rule sample_mined [of db "fmupd 0 (0, 100) fmempty"])
    fix b outcome
    let ?b1 = "sample_with db (fmupd 0 (0, 100) fmempty)"
    assume s: "do_mine_block sample_backend_config 9 1 [sample_pending 0] ?b1 = Some (b, outcome)"
      "new_block ?b1 b" "new_transactions sample_backend_config ?b1 (mb_included outcome)"
    then have m: "mined sample_backend_config ?b1 b" by (blast intro: mined.intros)
    have "best_number b = best_number ?b1 + 1" using mine_keeps_ok [OF sample_backend_ok s(1,2)] by blast
    then show thesis
      using that [OF b1 m] by (simp add: best_number_def sample_with_def sample_genesis_fields snapshots_inv_def mem_db_default_def
          snapshots_default_def sample_backend_config_def)
  qed
qed



end
