(* ===== verification/Fuzz_Trees.thy ===== *)
theory Fuzz_Trees
  imports Prelude "HOL-Library.Signed_Division"
begin

unbundle bit_operations_syntax

text \<open>
  Generation and shrinking of fuzzed integers:
  \<^verbatim>\<open>crates/evm/fuzz/src/strategies/{uint,int}.rs\<close>.

  \<^item> \<open>uint_value_tree\<close> and \<open>int_value_tree\<close> are the value trees, over \<open>256 word\<close>; an \<^verbatim>\<open>I256\<close> is such a word
    read by \<open>sint\<close>. \<^verbatim>\<open>U256\<close> and \<^verbatim>\<open>I256\<close> arithmetic wraps.
  \<^item> The locale \<open>value_tree\<close> is the contract the two trees share as implementations of proptest's
    \<^verbatim>\<open>ValueTree\<close>: a bisection of an interval of magnitudes. \<open>tree_step\<close> is the documented use of such a
    tree: \<^verbatim>\<open>simplify\<close> after a value that fails the test, \<^verbatim>\<open>complicate\<close> after one that passes. The locale
    shows how the search ends, and both trees interpret it.
  \<^item> The strategies are functions of the random draws (record \<open>draws\<close>): the generated start values.

  The lemmas show that shrinking takes at most 257 steps and ends at a failing value whose
  neighbour towards zero passes, and that the strategies stay in the range of the type.
\<close>

section \<open>Unsigned integers\<close>

record uint_value_tree =
  ut_lo :: u256
  ut_curr :: u256
  ut_hi :: u256
  ut_fixed :: bool

definition uint_tree_new :: "u256 \<Rightarrow> bool \<Rightarrow> uint_value_tree" where
  "uint_tree_new start fixed = \<lparr>ut_lo = 0, ut_curr = start, ut_hi = start, ut_fixed = fixed\<rparr>"

definition uint_reposition :: "uint_value_tree \<Rightarrow> bool \<times> uint_value_tree" where
  "uint_reposition t =
     (let interval = ut_hi t - ut_lo t; new_mid = ut_lo t + interval div 2
      in if new_mid = ut_curr t then (False, t) else (True, t\<lparr>ut_curr := new_mid\<rparr>))"

definition uint_simplify :: "uint_value_tree \<Rightarrow> bool \<times> uint_value_tree" where
  "uint_simplify t =
     (if ut_fixed t \<or> ut_hi t \<le> ut_lo t then (False, t)
      else uint_reposition (t\<lparr>ut_hi := ut_curr t\<rparr>))"

definition uint_complicate :: "uint_value_tree \<Rightarrow> bool \<times> uint_value_tree" where
  "uint_complicate t =
     (if ut_fixed t \<or> ut_hi t \<le> ut_lo t then (False, t)
      else uint_reposition (t\<lparr>ut_lo := ut_curr t + 1\<rparr>))"

section \<open>Signed integers\<close>

type_synonym i256 = u256

definition i256_min :: i256 where "i256_min = word_of_int (- (2 ^ 255))"
definition i256_max :: i256 where "i256_max = word_of_int (2 ^ 255 - 1)"

definition i256_is_negative :: "i256 \<Rightarrow> bool" where "i256_is_negative x = (sint x < 0)"

definition i256_div :: "i256 \<Rightarrow> i256 \<Rightarrow> i256" where
  "i256_div a b = word_of_int (sint a sdiv sint b)"

record int_value_tree =
  it_lo :: i256
  it_curr :: i256
  it_hi :: i256
  it_fixed :: bool

definition int_tree_new :: "i256 \<Rightarrow> bool \<Rightarrow> int_value_tree" where
  "int_tree_new start fixed = \<lparr>it_lo = 0, it_curr = start, it_hi = start, it_fixed = fixed\<rparr>"

definition int_reposition :: "int_value_tree \<Rightarrow> bool \<times> int_value_tree" where
  "int_reposition t =
     (let interval = it_hi t - it_lo t; new_mid = it_lo t + i256_div interval 2
      in if new_mid = it_curr t then (False, t) else (True, t\<lparr>it_curr := new_mid\<rparr>))"

definition magnitude_greater :: "i256 \<Rightarrow> i256 \<Rightarrow> bool" where
  "magnitude_greater lhs rhs = (if lhs = 0 then False else (sint rhs < sint lhs) \<noteq> i256_is_negative lhs)"

definition int_simplify :: "int_value_tree \<Rightarrow> bool \<times> int_value_tree" where
  "int_simplify t =
     (if it_fixed t \<or> \<not> magnitude_greater (it_hi t) (it_lo t) then (False, t)
      else int_reposition (t\<lparr>it_hi := it_curr t\<rparr>))"

definition int_complicate :: "int_value_tree \<Rightarrow> bool \<times> int_value_tree" where
  "int_complicate t =
     (if it_fixed t \<or> \<not> magnitude_greater (it_hi t) (it_lo t) then (False, t)
      else int_reposition (t\<lparr>it_lo :=
             if it_curr t \<noteq> i256_min \<and> it_curr t \<noteq> i256_max
             then it_curr t + (if i256_is_negative (it_hi t) then - 1 else 1) else it_curr t\<rparr>))"

section \<open>Strategies\<close>

text \<open>The fixtures that matter here: an unsigned or signed value with its bit size, or another type.\<close>

datatype fixture = FixUint u256 nat | FixInt i256 nat | FixOther

definition as_uint :: "fixture \<Rightarrow> (u256 \<times> nat) option" where
  "as_uint f = (case f of FixUint v n \<Rightarrow> Some (v, n) | _ \<Rightarrow> None)"

definition as_int :: "fixture \<Rightarrow> (i256 \<times> nat) option" where
  "as_int f = (case f of FixInt v n \<Rightarrow> Some (v, n) | _ \<Rightarrow> None)"

record draws =
  dr_bias :: nat
  dr_is_min :: bool
  dr_offset :: nat
  dr_kind :: nat
  dr_fixture :: nat
  dr_bits :: nat
  dr_higher :: u128
  dr_lower :: u128
  dr_positive :: bool

record strategy =
  st_bits :: nat
  st_fixtures :: "fixture list"
  st_edge_weight :: nat
  st_fixtures_weight :: nat
  st_random_weight :: nat

definition strategy_new :: "nat \<Rightarrow> fixture list option \<Rightarrow> strategy" where
  "strategy_new bits fixtures =
     \<lparr>st_bits = bits, st_fixtures = (case fixtures of Some fs \<Rightarrow> fs | None \<Rightarrow> []),
      st_edge_weight = 10, st_fixtures_weight = 40, st_random_weight = 50\<rparr>"

text \<open>\<^verbatim>\<open>gen_range\<close> stays within its bounds; the range \<open>0..0\<close> of an empty fixture list is never drawn.\<close>

definition draws_ok :: "strategy \<Rightarrow> draws \<Rightarrow> bool" where
  "draws_ok s dr \<longleftrightarrow> dr_offset dr < 4 \<and> dr_kind dr < 4 \<and> dr_bits dr \<le> st_bits s \<and>
     dr_bias dr < st_edge_weight s + st_fixtures_weight s + st_random_weight s \<and>
     (st_fixtures s \<noteq> [] \<longrightarrow> dr_fixture dr < length (st_fixtures s))"

definition type_max :: "strategy \<Rightarrow> u256" where
  "type_max s = (if st_bits s < 256 then push_bit (st_bits s) 1 - 1 else - 1)"

text \<open>Two 128-bit words cut to \<open>x\<close> bits, and the four limbs made of them.\<close>

definition cut_bits :: "nat \<Rightarrow> u128 \<Rightarrow> u128 \<Rightarrow> u128 \<times> u128" where
  "cut_bits x lower higher =
     (if x < 128 then (lower AND (push_bit x 1 - 1), 0)
      else if x < 256 then (lower, higher AND (push_bit (x - 128) 1 - 1))
      else (lower, higher))"

definition mask64 :: u128 where "mask64 = push_bit 65 1 - 1"

definition from_limbs :: "u64 \<Rightarrow> u64 \<Rightarrow> u64 \<Rightarrow> u64 \<Rightarrow> u256" where
  "from_limbs a b c d =
     ucast a + push_bit 64 (ucast b) + push_bit 128 (ucast c) + push_bit 192 (ucast d)"

definition join_words :: "u128 \<Rightarrow> u128 \<Rightarrow> u256" where
  "join_words lower higher =
     from_limbs (ucast (lower AND mask64)) (ucast (drop_bit 64 lower))
                (ucast (higher AND mask64)) (ucast (drop_bit 64 higher))"

definition uint_edge_start :: "strategy \<Rightarrow> draws \<Rightarrow> u256" where
  "uint_edge_start s dr =
     (let offset = word_of_nat (dr_offset dr)
      in if dr_is_min dr then offset else saturating_sub (type_max s) offset)"

definition uint_random_start :: "strategy \<Rightarrow> draws \<Rightarrow> u256" where
  "uint_random_start s dr =
     (let (lower, higher) = cut_bits (dr_bits dr) (dr_lower dr) (dr_higher dr) in join_words lower higher)"

definition uint_fixtures_start :: "strategy \<Rightarrow> draws \<Rightarrow> u256" where
  "uint_fixtures_start s dr =
     (if st_fixtures s = [] then uint_random_start s dr
      else (case as_uint (st_fixtures s ! dr_fixture dr) of
              Some (v, n) \<Rightarrow> if n = st_bits s then v else uint_random_start s dr
            | None \<Rightarrow> uint_random_start s dr))"

definition uint_new_tree :: "strategy \<Rightarrow> draws \<Rightarrow> uint_value_tree" where
  "uint_new_tree s dr =
     uint_tree_new
       (if dr_bias dr < st_edge_weight s then uint_edge_start s dr
        else if dr_bias dr < st_edge_weight s + st_fixtures_weight s then uint_fixtures_start s dr
        else uint_random_start s dr) False"

text \<open>\<^verbatim>\<open>I256::overflowing_from_sign_and_abs\<close>, without the flag.\<close>

definition from_sign_and_abs :: "bool \<Rightarrow> u256 \<Rightarrow> i256" where
  "from_sign_and_abs positive a = (if positive then a else - a)"

definition int_edge_start :: "strategy \<Rightarrow> draws \<Rightarrow> i256" where
  "int_edge_start s dr =
     (let offset = word_of_nat (dr_offset dr); umax = push_bit (st_bits s - 1) 1 - 1
      in if dr_kind dr = 0 then from_sign_and_abs False (umax + 1) + offset
         else if dr_kind dr = 1 then - offset - 1
         else if dr_kind dr = 2 then offset
         else from_sign_and_abs True umax - offset)"

definition int_random_start :: "strategy \<Rightarrow> draws \<Rightarrow> i256" where
  "int_random_start s dr =
     (if dr_bits dr = 0 then 0
      else (let (lower, higher) = cut_bits (dr_bits dr - 1) (dr_lower dr) (dr_higher dr)
            in from_sign_and_abs (dr_positive dr) (join_words lower higher)))"

definition int_fixtures_start :: "strategy \<Rightarrow> draws \<Rightarrow> i256" where
  "int_fixtures_start s dr =
     (if st_fixtures s = [] then int_random_start s dr
      else (case as_int (st_fixtures s ! dr_fixture dr) of
              Some (v, n) \<Rightarrow> if n = st_bits s then v else int_random_start s dr
            | None \<Rightarrow> int_random_start s dr))"

definition int_new_tree :: "strategy \<Rightarrow> draws \<Rightarrow> int_value_tree" where
  "int_new_tree s dr =
     int_tree_new
       (if dr_bias dr < st_edge_weight s then int_edge_start s dr
        else if dr_bias dr < st_edge_weight s + st_fixtures_weight s then int_fixtures_start s dr
        else int_random_start s dr) False"

section \<open>Bisection\<close>

text \<open>The use of a tree against a test: \<open>fails\<close> holds of the values that fail it.\<close>

inductive tree_step ::
  "('t \<Rightarrow> 'v) \<Rightarrow> ('t \<Rightarrow> bool \<times> 't) \<Rightarrow> ('t \<Rightarrow> bool \<times> 't) \<Rightarrow> ('v \<Rightarrow> bool) \<Rightarrow> 't \<Rightarrow> 't \<Rightarrow> bool"
  for current simplify complicate fails where
  Simplify: "fails (current t) \<Longrightarrow> simplify t = (True, t') \<Longrightarrow> tree_step current simplify complicate fails t t'"
| Complicate: "\<not> fails (current t) \<Longrightarrow> complicate t = (True, t') \<Longrightarrow> tree_step current simplify complicate fails t t'"

locale value_tree =
  fixes current :: "'t \<Rightarrow> 'v" and simplify complicate :: "'t \<Rightarrow> bool \<times> 't"
    and inv :: "'t \<Rightarrow> bool" and lo cur hi :: "'t \<Rightarrow> nat" and val :: "'t \<Rightarrow> nat \<Rightarrow> 'v"
  assumes ordered: "inv t \<Longrightarrow> lo t \<le> cur t \<and> cur t \<le> hi t"
    and current_val: "inv t \<Longrightarrow> current t = val t (cur t)"
    and simplify_true: "inv t \<Longrightarrow> simplify t = (True, t') \<Longrightarrow>
      inv t' \<and> lo t' = lo t \<and> hi t' = cur t \<and> cur t' = lo t + (cur t - lo t) div 2 \<and> lo t < cur t \<and> val t' = val t"
    and simplify_false: "inv t \<Longrightarrow> simplify t = (False, t') \<Longrightarrow> lo t = cur t"
    and complicate_true: "inv t \<Longrightarrow> cur t < hi t \<Longrightarrow> complicate t = (True, t') \<Longrightarrow>
      inv t' \<and> lo t' = Suc (cur t) \<and> hi t' = hi t \<and> cur t' = Suc (cur t) + (hi t - Suc (cur t)) div 2 \<and> val t' = val t"
    and complicate_total: "inv t \<Longrightarrow> cur t < hi t \<Longrightarrow> fst (complicate t)"
begin

abbreviation step :: "('v \<Rightarrow> bool) \<Rightarrow> 't \<Rightarrow> 't \<Rightarrow> bool" where
  "step \<equiv> tree_step current simplify complicate"

text \<open>The upper end fails, the value below the lower end passes.\<close>

definition bracketed :: "('v \<Rightarrow> bool) \<Rightarrow> 't \<Rightarrow> bool" where
  "bracketed fails t \<longleftrightarrow> inv t \<and> fails (val t (hi t)) \<and> (lo t = 0 \<or> \<not> fails (val t (lo t - 1)))"

definition at_mid :: "'t \<Rightarrow> bool" where
  "at_mid t \<longleftrightarrow> cur t = lo t + (hi t - lo t) div 2"

lemma passing_below:
  assumes "bracketed fails t" "\<not> fails (current t)"
  shows "cur t < hi t"
  using assms ordered [of t] current_val [of t] by (cases "cur t = hi t") (auto simp: bracketed_def)

lemma step_bracketed:
  assumes "step fails t t'" "bracketed fails t"
  shows "bracketed fails t'" "at_mid t'" "val t' = val t" "hi t' \<le> hi t" "lo t < hi t"
    "hi t' - lo t' \<le> hi t - lo t" "at_mid t \<Longrightarrow> hi t' - lo t' \<le> (hi t - lo t) div 2"
proof -
  have inv: "inv t" using assms(2) by (simp add: bracketed_def)
  note o = ordered [OF inv]
  have "bracketed fails t' \<and> at_mid t' \<and> val t' = val t \<and> hi t' \<le> hi t \<and> lo t < hi t \<and>
    hi t' - lo t' \<le> hi t - lo t \<and> (at_mid t \<longrightarrow> hi t' - lo t' \<le> (hi t - lo t) div 2)"
    using assms(1)
  proof (cases rule: tree_step.cases)
    case Simplify
    show ?thesis
      using simplify_true [OF inv Simplify(2)] o assms(2) current_val [OF inv] Simplify(1) by (auto simp: bracketed_def at_mid_def)
  next
    case Complicate
    have lt: "cur t < hi t" using passing_below assms(2) Complicate(1) by blast
    show ?thesis
      using complicate_true [OF inv lt Complicate(2)] o lt assms(2) current_val [OF inv] Complicate(1)
      by (auto simp: bracketed_def at_mid_def) linarith+
  qed
  then show "bracketed fails t'" "at_mid t'" "val t' = val t" "hi t' \<le> hi t" "lo t < hi t"
    "hi t' - lo t' \<le> hi t - lo t" "at_mid t \<Longrightarrow> hi t' - lo t' \<le> (hi t - lo t) div 2"
    by blast+
qed

lemma steps_bracketed:
  assumes "(step fails)\<^sup>*\<^sup>* t t'" "bracketed fails t"
  shows "bracketed fails t' \<and> val t' = val t \<and> hi t' \<le> hi t"
  using assms
proof (induction rule: rtranclp_induct)
  case (step y z)
  then show ?case using step_bracketed [OF step.hyps(2)] by fastforce
qed simp

lemma steps_from_mid:
  assumes "(step fails ^^ Suc n) t t'" "bracketed fails t" "at_mid t"
  shows "2 ^ n \<le> hi t - lo t"
  using assms
proof (induction n arbitrary: t)
  case 0
  then show ?case using step_bracketed(5) [of fails t t'] by (auto simp: OO_def)
next
  case (Suc n)
  then obtain u where u: "step fails t u" "(step fails ^^ Suc n) u t'" by (metis relpowp_Suc_D2)
  note b = step_bracketed [OF u(1) Suc.prems(2)]
  have "2 ^ n \<le> (hi t - lo t) div 2" using Suc.IH [OF u(2) b(1,2)] b(7) [OF Suc.prems(3)] by linarith
  then show ?case by simp
qed

lemma steps_bound:
  assumes "(step fails ^^ n) t t'" "bracketed fails t" "hi t - lo t < 2 ^ w"
  shows "n \<le> w + 1"
proof (cases "n < 2")
  case False
  then obtain m where n: "n = Suc (Suc m)" by (metis Suc_diff_Suc add_2_eq_Suc le_add_diff_inverse not_less)
  then obtain u where u: "step fails t u" "(step fails ^^ Suc m) u t'" using assms(1) by (metis relpowp_Suc_D2)
  note b = step_bracketed [OF u(1) assms(2)]
  have "(2::nat) ^ m < 2 ^ w" using steps_from_mid [OF u(2) b(1,2)] b(6) assms(3) by linarith
  then have "m < w" by simp
  then show ?thesis using n by simp
qed simp

lemma search_end:
  assumes "(step fails)\<^sup>*\<^sup>* t t'" "bracketed fails t" "\<nexists>u. step fails t' u"
  shows "fails (current t') \<and> current t' = val t (cur t') \<and> cur t' \<le> hi t \<and>
         (cur t' = 0 \<or> \<not> fails (val t (cur t' - 1)))"
proof -
  have b: "bracketed fails t'" "val t' = val t" "hi t' \<le> hi t" using steps_bracketed [OF assms(1,2)] by auto
  have inv: "inv t'" using b(1) by (simp add: bracketed_def)
  have f: "fails (current t')"
  proof (rule ccontr)
    assume p: "\<not> fails (current t')"
    then obtain u where "complicate t' = (True, u)"
      using complicate_total [OF inv passing_below [OF b(1)]] by (cases "complicate t'") auto
    then show False using p assms(3) tree_step.Complicate by metis
  qed
  then obtain u where "simplify t' = (False, u)"
    using assms(3) tree_step.Simplify by (metis (full_types) prod.exhaust)
  then have "lo t' = cur t'" by (rule simplify_false [OF inv])
  then show ?thesis
    using f b current_val [OF inv] ordered [OF inv] by (auto simp: bracketed_def)
qed

end

section \<open>The unsigned tree bisects\<close>

definition uint_inv :: "uint_value_tree \<Rightarrow> bool" where
  "uint_inv t \<longleftrightarrow> \<not> ut_fixed t \<and> ut_lo t \<le> ut_curr t \<and> ut_curr t \<le> ut_hi t"

lemma unat_mid:
  fixes a b :: u256
  assumes "a \<le> b"
  shows "unat (a + (b - a) div 2) = unat a + (unat b - unat a) div 2"
proof -
  have d: "unat ((b - a) div 2) = (unat b - unat a) div 2"
    using assms by (simp add: unat_div unat_sub word_le_nat_alt)
  have "unat a + (unat b - unat a) div 2 \<le> unat b" using assms by (simp add: word_le_nat_alt)
  then have "unat a + unat ((b - a) div 2) < 2 ^ LENGTH(256)"
    using d unsigned_less [of b, where ?'a = nat] by linarith
  then show ?thesis using d by (metis unat_add_lem)
qed

lemma uint_reposition_mid:
  assumes "ut_lo t \<le> ut_hi t"
  shows "uint_reposition t = (b, t') \<Longrightarrow>
    (b \<longrightarrow> unat (ut_curr t) \<noteq> unat (ut_lo t) + (unat (ut_hi t) - unat (ut_lo t)) div 2 \<and>
           unat (ut_curr t') = unat (ut_lo t) + (unat (ut_hi t) - unat (ut_lo t)) div 2 \<and>
           ut_lo t' = ut_lo t \<and> ut_hi t' = ut_hi t \<and> ut_fixed t' = ut_fixed t) \<and>
    (\<not> b \<longrightarrow> unat (ut_curr t) = unat (ut_lo t) + (unat (ut_hi t) - unat (ut_lo t)) div 2)"
  using unat_mid [OF assms]
  by (auto simp: uint_reposition_def Let_def word_eq_unat split: if_splits)

lemma uint_simplify_true:
  assumes "uint_inv t" "uint_simplify t = (True, t')"
  shows "uint_inv t' \<and> unat (ut_lo t') = unat (ut_lo t) \<and> unat (ut_hi t') = unat (ut_curr t) \<and>
    unat (ut_curr t') = unat (ut_lo t) + (unat (ut_curr t) - unat (ut_lo t)) div 2 \<and> unat (ut_lo t) < unat (ut_curr t)"
proof -
  let ?t = "t\<lparr>ut_hi := ut_curr t\<rparr>"
  have le: "ut_lo t \<le> ut_curr t" using assms(1) by (simp add: uint_inv_def)
  have r: "uint_reposition ?t = (True, t')" using assms by (simp add: uint_simplify_def split: if_splits)
  note m = uint_reposition_mid [of ?t, OF _ r]
  show ?thesis using m le assms(1) by (auto simp: uint_inv_def word_le_nat_alt)
qed

lemma uint_complicate_true:
  assumes "uint_inv t" "ut_curr t < ut_hi t" "uint_complicate t = (b, t')"
  shows "b \<and> uint_inv t' \<and> unat (ut_lo t') = Suc (unat (ut_curr t)) \<and> unat (ut_hi t') = unat (ut_hi t) \<and>
    unat (ut_curr t') = Suc (unat (ut_curr t)) + (unat (ut_hi t) - Suc (unat (ut_curr t))) div 2"
proof -
  let ?t = "t\<lparr>ut_lo := ut_curr t + 1\<rparr>"
  have s: "unat (ut_curr t + 1) = Suc (unat (ut_curr t))"
    using assms(2) unat_add_1 [of "ut_curr t"] by (metis word_not_simps(3) word_order.extremum_strict)
  have lt: "ut_lo t < ut_hi t" using assms(1,2) by (auto simp: uint_inv_def)
  have le: "ut_lo ?t \<le> ut_hi ?t" using assms(2) s by (simp add: word_le_nat_alt word_less_nat_alt)
  have "uint_reposition ?t = (b, t')" using assms(1,3) lt by (simp add: uint_complicate_def uint_inv_def not_le [symmetric])
  note m = uint_reposition_mid [OF le this]
  show ?thesis using m le s assms(1) by (cases b) (auto simp: uint_inv_def word_le_nat_alt)
qed

interpretation uint_tree: value_tree ut_curr uint_simplify uint_complicate uint_inv
  "\<lambda>t. unat (ut_lo t)" "\<lambda>t. unat (ut_curr t)" "\<lambda>t. unat (ut_hi t)" "\<lambda>t. word_of_nat"
proof (unfold_locales, goal_cases)
  case (1 t)
  then show ?case by (simp add: uint_inv_def word_le_nat_alt)
next
  case (2 t)
  then show ?case by simp
next
  case (3 t t')
  then show ?case using uint_simplify_true [of t t'] by simp
next
  case (4 t t')
  then have le: "ut_lo t \<le> ut_curr t" "ut_curr t \<le> ut_hi t" and nf: "\<not> ut_fixed t" by (auto simp: uint_inv_def)
  show ?case
  proof (cases "ut_hi t \<le> ut_lo t")
    case False
    then have "uint_reposition (t\<lparr>ut_hi := ut_curr t\<rparr>) = (False, t')" using 4(2) nf by (simp add: uint_simplify_def)
    from uint_reposition_mid [OF _ this] show ?thesis using le by (simp add: word_le_nat_alt)
  qed (use le in \<open>simp add: word_le_nat_alt\<close>)
next
  case (5 t t')
  then show ?case using uint_complicate_true [of t True t'] by (simp add: word_less_nat_alt)
next
  case (6 t)
  then show ?case
    using uint_complicate_true [of t "fst (uint_complicate t)" "snd (uint_complicate t)"] by (simp add: word_less_nat_alt)
qed

text \<open>
  C15. Shrinking an unsigned value. Whatever the test, when the start value fails it, the search of the
  value tree takes at most 257 steps, and it ends at a failing value not above the start whose
  predecessor passes (or at zero): a locally smallest counterexample, the smallest one for a
  test that is monotone.
\<close>

theorem uint_shrink_minimal:
  assumes "fails start"
  shows "((tree_step ut_curr uint_simplify uint_complicate fails ^^ n) (uint_tree_new start False) t \<longrightarrow> n \<le> 257) \<and>
    ((tree_step ut_curr uint_simplify uint_complicate fails)\<^sup>*\<^sup>* (uint_tree_new start False) t \<longrightarrow>
     (\<nexists>u. tree_step ut_curr uint_simplify uint_complicate fails t u) \<longrightarrow>
     fails (ut_curr t) \<and> ut_curr t \<le> start \<and> (ut_curr t = 0 \<or> \<not> fails (ut_curr t - 1)))"
proof -
  have b: "uint_tree.bracketed fails (uint_tree_new start False)"
    using assms by (simp add: uint_tree.bracketed_def uint_inv_def uint_tree_new_def)
  have w: "unat (ut_hi (uint_tree_new start False)) - unat (ut_lo (uint_tree_new start False)) < 2 ^ 256"
    using unsigned_less [of start, where ?'a = nat] by (simp add: uint_tree_new_def)
  have "n \<le> 257" if "(tree_step ut_curr uint_simplify uint_complicate fails ^^ n) (uint_tree_new start False) t"
    using uint_tree.steps_bound [OF that b w] by simp
  moreover have "fails (ut_curr t) \<and> ut_curr t \<le> start \<and> (ut_curr t = 0 \<or> \<not> fails (ut_curr t - 1))"
    if "(tree_step ut_curr uint_simplify uint_complicate fails)\<^sup>*\<^sup>* (uint_tree_new start False) t"
      "\<nexists>u. tree_step ut_curr uint_simplify uint_complicate fails t u"
  proof -
    note e = uint_tree.search_end [OF that(1) b that(2)]
    have "ut_curr t - 1 = word_of_nat (unat (ut_curr t) - 1)" if "ut_curr t \<noteq> 0"
      using that by (simp add: of_nat_diff unat_gt_0 Suc_leI)
    then show ?thesis using e by (auto simp: uint_tree_new_def word_le_nat_alt unat_eq_0)
  qed
  ultimately show ?thesis by blast
qed


theorem uint_shrink_minimal_witness:
  "\<exists>t. (tree_step ut_curr uint_simplify uint_complicate (\<lambda>x. 1 \<le> x) ^^ 3) (uint_tree_new 2 False) t \<and>
       (\<nexists>u. tree_step ut_curr uint_simplify uint_complicate (\<lambda>x. 1 \<le> x) t u) \<and> ut_curr t = 1 \<and> ut_curr t \<le> 2"
proof -
  let ?step = "tree_step ut_curr uint_simplify uint_complicate (\<lambda>x. 1 \<le> x)"
  let ?t1 = "\<lparr>ut_lo = 0, ut_curr = 1, ut_hi = 2, ut_fixed = False\<rparr>"
  let ?t2 = "\<lparr>ut_lo = 0, ut_curr = 0, ut_hi = 1, ut_fixed = False\<rparr>"
  let ?t3 = "\<lparr>ut_lo = 1, ut_curr = 1, ut_hi = 1, ut_fixed = False\<rparr>"
  have "?step (uint_tree_new 2 False) ?t1" by (rule tree_step.Simplify; code_simp)
  moreover have "?step ?t1 ?t2" by (rule tree_step.Simplify; code_simp)
  moreover have "?step ?t2 ?t3" by (rule tree_step.Complicate; code_simp)
  ultimately have n: "(?step ^^ 3) (uint_tree_new 2 False) ?t3" by (auto simp: numeral_3_eq_3)
  have s: "\<nexists>u. ?step ?t3 u" by (auto elim!: tree_step.cases simp: uint_simplify_def)
  have f: "(1 :: u256) \<le> 2" by code_simp
  have "ut_curr ?t3 \<le> 2"
    using uint_shrink_minimal [where fails = "\<lambda>x. 1 \<le> x" and start = 2 and t = ?t3, OF f] relpowp_imp_rtranclp [OF n] s by blast
  then show ?thesis using n s by (intro exI [of _ ?t3]) simp
qed

section \<open>The signed tree bisects\<close>

definition magnitude :: "i256 \<Rightarrow> nat" where "magnitude x = nat \<bar>sint x\<bar>"

text \<open>The three bounds have one sign and are ordered by magnitude.\<close>

definition one_sign :: "int \<Rightarrow> int \<Rightarrow> bool" where
  "one_sign a b \<longleftrightarrow> 0 \<le> a \<and> a \<le> b \<or> b \<le> a \<and> a \<le> 0"

definition int_inv :: "int_value_tree \<Rightarrow> bool" where
  "int_inv t \<longleftrightarrow> \<not> it_fixed t \<and> one_sign (sint (it_lo t)) (sint (it_curr t)) \<and> one_sign (sint (it_curr t)) (sint (it_hi t)) \<and>
     one_sign (sint (it_lo t)) (sint (it_hi t))"

definition int_val :: "int_value_tree \<Rightarrow> nat \<Rightarrow> i256" where
  "int_val t n = word_of_int (if sint (it_hi t) < 0 then - int n else int n)"

lemma sint_i256: "- (2 ^ 255) \<le> sint x" "sint x < 2 ^ 255" for x :: i256
  using sint_greater_eq [of x] sint_less [of x] by simp_all

lemma sint_word_of_int_i256: "- (2 ^ 255) \<le> i \<Longrightarrow> i < 2 ^ 255 \<Longrightarrow> sint (word_of_int i :: i256) = i"
  by (simp add: signed_take_bit_int_eq_self signed_of_int)

lemma sint_add_i256:
  "- (2 ^ 255) \<le> sint a + sint b \<Longrightarrow> sint a + sint b < 2 ^ 255 \<Longrightarrow> sint (a + b) = sint a + sint b" for a b :: i256
  by (simp add: sint_word_add signed_take_bit_int_eq_self)

lemma sint_diff_i256:
  "- (2 ^ 255) \<le> sint a - sint b \<Longrightarrow> sint a - sint b < 2 ^ 255 \<Longrightarrow> sint (a - b) = sint a - sint b" for a b :: i256
  by (simp add: sint_word_diff signed_take_bit_int_eq_self)

lemma sint_2_i256: "sint (2 :: i256) = 2"
  using sint_word_of_int_i256 [of 2] by simp

lemma sdiv_2: "0 \<le> k \<Longrightarrow> k sdiv 2 = k div 2" "k \<le> 0 \<Longrightarrow> k sdiv 2 = - (- k div 2)" for k :: int
  by (auto simp: signed_divide_int_def sgn_if)

lemma mid_pos:
  fixes l h :: int
  assumes "0 \<le> l" "l \<le> h"
  shows "nat (l + (h - l) div 2) = nat l + (nat h - nat l) div 2" "l \<le> l + (h - l) div 2" "l + (h - l) div 2 \<le> h"
proof -
  obtain a b where "l = int a" "h = int b" using assms by (metis nonneg_int_cases order_trans)
  then show "nat (l + (h - l) div 2) = nat l + (nat h - nat l) div 2"
    using assms(2) by (simp add: nat_add_distrib nat_diff_distrib' nat_div_distrib)
qed (use assms in linarith)+

text \<open>The midpoint keeps the sign and halves the magnitudes.\<close>

lemma int_mid:
  assumes "one_sign (sint a) (sint b)"
  shows "magnitude (a + i256_div (b - a) 2) = magnitude a + (magnitude b - magnitude a) div 2"
    "one_sign (sint a) (sint (a + i256_div (b - a) 2))" "one_sign (sint (a + i256_div (b - a) 2)) (sint b)"
proof -
  let ?l = "sint a" and ?h = "sint b"
  have d: "sint (b - a) = ?h - ?l"
    using assms sint_i256 [of a] sint_i256 [of b] by (intro sint_diff_i256) (auto simp: one_sign_def)
  have half: "sint (i256_div (b - a) 2) = (?h - ?l) sdiv 2"
  proof -
    have "(?h - ?l) sdiv 2 \<in> {- \<bar>?h - ?l\<bar>..\<bar>?h - ?l\<bar>}" by (rule sdiv_int_range)
    moreover have "\<bar>?h - ?l\<bar> \<le> 2 ^ 255" "(?h - ?l) sdiv 2 < 2 ^ 255" "- (2 ^ 255) \<le> (?h - ?l) sdiv 2"
      using assms sint_i256 [of a] sint_i256 [of b] sdiv_2 [of "?h - ?l"] by (auto simp: one_sign_def)
    ultimately show ?thesis
      unfolding i256_div_def d sint_2_i256 by (intro sint_word_of_int_i256) auto
  qed
  consider "0 \<le> ?l" "?l \<le> ?h" | "?h \<le> ?l" "?l \<le> 0" using assms by (auto simp: one_sign_def)
  then have "magnitude (a + i256_div (b - a) 2) = magnitude a + (magnitude b - magnitude a) div 2 \<and>
    one_sign (sint a) (sint (a + i256_div (b - a) 2)) \<and> one_sign (sint (a + i256_div (b - a) 2)) (sint b)"
  proof cases
    case 1
    have s: "sint (a + i256_div (b - a) 2) = ?l + (?h - ?l) div 2"
    proof -
      have e: "?l + sint (i256_div (b - a) 2) = ?l + (?h - ?l) div 2" using half sdiv_2(1) [of "?h - ?l"] 1 by simp
      have "sint (a + i256_div (b - a) 2) = ?l + sint (i256_div (b - a) 2)"
        by (rule sint_add_i256; use e mid_pos(2,3) [OF 1] sint_i256 [of a] sint_i256 [of b] in linarith)
      then show ?thesis using e by simp
    qed
    show ?thesis unfolding magnitude_def one_sign_def s using mid_pos [OF 1] 1 by auto
  next
    case 2
    have m: "nat (- ?l + (- ?h - - ?l) div 2) = nat (- ?l) + (nat (- ?h) - nat (- ?l)) div 2"
      "- ?l \<le> - ?l + (- ?h - - ?l) div 2" "- ?l + (- ?h - - ?l) div 2 \<le> - ?h"
      using mid_pos [of "- ?l" "- ?h"] 2 by auto
    have s: "sint (a + i256_div (b - a) 2) = - (- ?l + (- ?h - - ?l) div 2)"
    proof -
      have e: "?l + sint (i256_div (b - a) 2) = - (- ?l + (- ?h - - ?l) div 2)" using half sdiv_2(2) [of "?h - ?l"] 2 by simp
      have "sint (a + i256_div (b - a) 2) = ?l + sint (i256_div (b - a) 2)"
        by (rule sint_add_i256; use e m(2,3) sint_i256 [of a] sint_i256 [of b] in linarith)
      then show ?thesis using e by simp
    qed
    show ?thesis unfolding magnitude_def one_sign_def s using m 2 by auto
  qed
  then show "magnitude (a + i256_div (b - a) 2) = magnitude a + (magnitude b - magnitude a) div 2"
    "one_sign (sint a) (sint (a + i256_div (b - a) 2))" "one_sign (sint (a + i256_div (b - a) 2)) (sint b)"
    by auto
qed


lemma word_of_sint: "word_of_int (sint x) = x" for x :: i256
  by simp

lemma magnitude_one_sign: "one_sign (sint a) (sint b) \<Longrightarrow> magnitude a \<le> magnitude b"
  by (auto simp: one_sign_def magnitude_def)

lemma magnitude_inj: "one_sign (sint a) (sint b) \<Longrightarrow> magnitude a = magnitude b \<longleftrightarrow> a = b"
proof -
  assume "one_sign (sint a) (sint b)"
  then have "magnitude a = magnitude b \<longleftrightarrow> sint a = sint b" by (auto simp: one_sign_def magnitude_def)
  then show ?thesis by (metis word_of_sint)
qed

lemma int_val_current: "int_inv t \<Longrightarrow> it_curr t = int_val t (magnitude (it_curr t))"
proof -
  assume "int_inv t"
  then have "sint (it_curr t) = (if sint (it_hi t) < 0 then - int (magnitude (it_curr t)) else int (magnitude (it_curr t)))"
    by (auto simp: int_inv_def one_sign_def magnitude_def)
  from arg_cong [OF this, of "word_of_int :: int \<Rightarrow> i256"] show ?thesis
    unfolding int_val_def by (simp only: word_of_sint)
qed

lemma magnitude_greater_iff:
  "one_sign (sint a) (sint b) \<Longrightarrow> magnitude a < magnitude b \<Longrightarrow> magnitude_greater b a"
  "one_sign (sint a) (sint b) \<Longrightarrow> \<not> magnitude_greater b a \<Longrightarrow> magnitude a = magnitude b"
  by (auto simp: one_sign_def magnitude_def magnitude_greater_def i256_is_negative_def split: if_splits)

lemma int_reposition_mid:
  assumes "one_sign (sint (it_lo t)) (sint (it_hi t))" "int_reposition t = (b, t')"
  shows "b \<Longrightarrow> it_lo t' = it_lo t \<and> it_hi t' = it_hi t \<and> it_fixed t' = it_fixed t \<and>
           one_sign (sint (it_lo t)) (sint (it_curr t')) \<and> one_sign (sint (it_curr t')) (sint (it_hi t)) \<and>
           magnitude (it_curr t') = magnitude (it_lo t) + (magnitude (it_hi t) - magnitude (it_lo t)) div 2 \<and>
           it_curr t' \<noteq> it_curr t"
    "\<not> b \<Longrightarrow> magnitude (it_curr t) = magnitude (it_lo t) + (magnitude (it_hi t) - magnitude (it_lo t)) div 2"
  using assms(2) int_mid [OF assms(1)] by (auto simp: int_reposition_def Let_def split: if_splits)

lemma int_simplify_true:
  assumes "int_inv t" "int_simplify t = (True, t')"
  shows "int_inv t' \<and> magnitude (it_lo t') = magnitude (it_lo t) \<and> magnitude (it_hi t') = magnitude (it_curr t) \<and>
    magnitude (it_curr t') = magnitude (it_lo t) + (magnitude (it_curr t) - magnitude (it_lo t)) div 2 \<and>
    magnitude (it_lo t) < magnitude (it_curr t) \<and> int_val t' = int_val t"
proof -
  let ?t = "t\<lparr>it_hi := it_curr t\<rparr>"
  have sg: "one_sign (sint (it_lo t)) (sint (it_curr t))" "one_sign (sint (it_curr t)) (sint (it_hi t))"
    using assms(1) by (auto simp: int_inv_def)
  have r: "int_reposition ?t = (True, t')" using assms by (simp add: int_simplify_def split: if_splits)
  note m = int_reposition_mid(1) [OF _ r]
  have lt: "magnitude (it_lo t) < magnitude (it_curr t)"
  proof (rule ccontr)
    assume "\<not> magnitude (it_lo t) < magnitude (it_curr t)"
    then have "magnitude (it_curr t') = magnitude (it_lo t)" "magnitude (it_lo t) = magnitude (it_curr t)"
      using m sg(1) magnitude_one_sign [OF sg(1)] by simp_all
    then show False using m sg(1) magnitude_inj [of "it_curr t'" "it_curr t"] by simp
  qed
  then have "sint (it_curr t) < 0 \<longleftrightarrow> sint (it_hi t) < 0"
    using sg by (auto simp: one_sign_def magnitude_def)
  then have "int_val t' = int_val t" using m sg(1) by (intro ext) (simp add: int_val_def)
  then show ?thesis using m sg lt assms(1) by (auto simp: int_inv_def)
qed

lemma int_successor:
  assumes "one_sign (sint c) (sint h)" "magnitude c < magnitude h"
  shows "c \<noteq> i256_min" "c \<noteq> i256_max"
    "magnitude (c + (if i256_is_negative h then - 1 else 1)) = Suc (magnitude c)"
    "one_sign (sint (c + (if i256_is_negative h then - 1 else 1))) (sint h)"
proof -
  have min: "sint i256_min = - (2 ^ 255)" "sint i256_max = 2 ^ 255 - 1"
    by (simp_all add: i256_min_def i256_max_def sint_word_of_int_i256)
  show "c \<noteq> i256_min" "c \<noteq> i256_max"
    using assms sint_i256 [of c] sint_i256 [of h] min by (auto simp: one_sign_def magnitude_def)
  let ?d = "if i256_is_negative h then - 1 else 1 :: i256"
  have d: "sint ?d = (if sint h < 0 then - 1 else 1)" by (simp add: i256_is_negative_def)
  have "sint (c + ?d) = sint c + sint ?d"
    by (rule sint_add_i256; use d assms sint_i256 [of c] sint_i256 [of h] in \<open>auto simp: one_sign_def magnitude_def\<close>)
  then have s: "sint (c + ?d) = sint c + (if sint h < 0 then - 1 else 1)" using d by simp
  show "magnitude (c + ?d) = Suc (magnitude c)" "one_sign (sint (c + ?d)) (sint h)"
    using assms unfolding magnitude_def one_sign_def s by (auto split: if_splits)
qed

lemma int_complicate_true:
  assumes "int_inv t" "magnitude (it_curr t) < magnitude (it_hi t)" "int_complicate t = (b, t')"
  shows "b \<and> int_inv t' \<and> magnitude (it_lo t') = Suc (magnitude (it_curr t)) \<and> magnitude (it_hi t') = magnitude (it_hi t) \<and>
    magnitude (it_curr t') = Suc (magnitude (it_curr t)) + (magnitude (it_hi t) - Suc (magnitude (it_curr t))) div 2 \<and>
    int_val t' = int_val t"
proof -
  let ?lo = "it_curr t + (if i256_is_negative (it_hi t) then - 1 else 1)"
  have sg: "one_sign (sint (it_lo t)) (sint (it_curr t))" "one_sign (sint (it_curr t)) (sint (it_hi t))"
    "one_sign (sint (it_lo t)) (sint (it_hi t))" "\<not> it_fixed t"
    using assms(1) by (auto simp: int_inv_def)
  note su = int_successor [OF sg(2) assms(2)]
  have "magnitude (it_lo t) < magnitude (it_hi t)" using magnitude_one_sign [OF sg(1)] assms(2) by simp
  then have "magnitude_greater (it_hi t) (it_lo t)" by (rule magnitude_greater_iff(1) [OF sg(3)])
  then have r: "int_reposition (t\<lparr>it_lo := ?lo\<rparr>) = (b, t')"
    using assms(3) sg(4) su(1,2) by (simp add: int_complicate_def)
  have lo: "one_sign (sint (it_lo (t\<lparr>it_lo := ?lo\<rparr>))) (sint (it_hi (t\<lparr>it_lo := ?lo\<rparr>)))" using su(4) by simp
  have b
  proof (rule ccontr)
    assume "\<not> b"
    from int_reposition_mid(2) [OF lo r this] show False using su(3) by simp
  qed
  note m = int_reposition_mid(1) [OF lo r this]
  have "int_val t' = int_val t" using m by (intro ext) (simp add: int_val_def)
  then show ?thesis using \<open>b\<close> m su sg(4) by (auto simp: int_inv_def)
qed

interpretation int_tree: value_tree it_curr int_simplify int_complicate int_inv
  "\<lambda>t. magnitude (it_lo t)" "\<lambda>t. magnitude (it_curr t)" "\<lambda>t. magnitude (it_hi t)" int_val
proof (unfold_locales, goal_cases)
  case (1 t)
  then show ?case by (auto simp: int_inv_def magnitude_one_sign)
next
  case (2 t)
  then show ?case by (rule int_val_current)
next
  case (3 t t')
  then show ?case by (rule int_simplify_true)
next
  case (4 t t')
  then have sg: "one_sign (sint (it_lo t)) (sint (it_curr t))" "one_sign (sint (it_curr t)) (sint (it_hi t))"
    "one_sign (sint (it_lo t)) (sint (it_hi t))" and nf: "\<not> it_fixed t"
    by (auto simp: int_inv_def)
  show ?case
  proof (cases "magnitude_greater (it_hi t) (it_lo t)")
    case True
    then have r: "int_reposition (t\<lparr>it_hi := it_curr t\<rparr>) = (False, t')" using 4(2) nf by (simp add: int_simplify_def)
    have "one_sign (sint (it_lo (t\<lparr>it_hi := it_curr t\<rparr>))) (sint (it_hi (t\<lparr>it_hi := it_curr t\<rparr>)))" using sg(1) by simp
    from int_reposition_mid(2) [OF this r] show ?thesis using magnitude_one_sign [OF sg(1)] by simp
  next
    case False
    then show ?thesis
      using magnitude_greater_iff(2) [OF sg(3)] magnitude_one_sign [OF sg(1)] magnitude_one_sign [OF sg(2)] by simp
  qed
next
  case (5 t t')
  then show ?case using int_complicate_true [of t True t'] by simp
next
  case (6 t)
  then show ?case using int_complicate_true [of t "fst (int_complicate t)" "snd (int_complicate t)"] by simp
qed

text \<open>
  C14. Shrinking a signed value. When the start value fails the test, the search of the signed value
  tree takes at most 257 steps and ends at a failing value that has the sign of the start and no
  larger magnitude, and whose neighbour towards zero passes (or at zero); \<^verbatim>\<open>I256::MIN\<close>, whose
  magnitude is no \<^verbatim>\<open>I256\<close>, included.
\<close>

theorem int_shrink_minimal:
  assumes "fails start"
  shows "((tree_step it_curr int_simplify int_complicate fails ^^ n) (int_tree_new start False) t \<longrightarrow> n \<le> 257) \<and>
    ((tree_step it_curr int_simplify int_complicate fails)\<^sup>*\<^sup>* (int_tree_new start False) t \<longrightarrow>
     (\<nexists>u. tree_step it_curr int_simplify int_complicate fails t u) \<longrightarrow>
     fails (it_curr t) \<and> (0 \<le> sint start \<longrightarrow> 0 \<le> sint (it_curr t) \<and> sint (it_curr t) \<le> sint start) \<and>
     (sint start \<le> 0 \<longrightarrow> sint start \<le> sint (it_curr t) \<and> sint (it_curr t) \<le> 0) \<and>
     (it_curr t = 0 \<or> \<not> fails (if sint start < 0 then it_curr t + 1 else it_curr t - 1)))"
proof -
  let ?t0 = "int_tree_new start False"
  have b: "int_tree.bracketed fails ?t0"
  proof -
    have "int_inv ?t0" by (auto simp: int_inv_def int_tree_new_def one_sign_def)
    then show ?thesis
      using assms int_val_current [of ?t0] unfolding int_tree.bracketed_def by (simp add: int_tree_new_def magnitude_def)
  qed
  have w: "magnitude (it_hi ?t0) - magnitude (it_lo ?t0) < 2 ^ 256"
    using sint_i256 [of start] by (simp add: int_tree_new_def magnitude_def)
  have "n \<le> 257" if "(tree_step it_curr int_simplify int_complicate fails ^^ n) ?t0 t"
    using int_tree.steps_bound [OF that b w] by simp
  moreover have "fails (it_curr t) \<and> (0 \<le> sint start \<longrightarrow> 0 \<le> sint (it_curr t) \<and> sint (it_curr t) \<le> sint start) \<and>
     (sint start \<le> 0 \<longrightarrow> sint start \<le> sint (it_curr t) \<and> sint (it_curr t) \<le> 0) \<and>
     (it_curr t = 0 \<or> \<not> fails (if sint start < 0 then it_curr t + 1 else it_curr t - 1))"
    if "(tree_step it_curr int_simplify int_complicate fails)\<^sup>*\<^sup>* ?t0 t"
      "\<nexists>u. tree_step it_curr int_simplify int_complicate fails t u"
  proof -
    note e = int_tree.search_end [OF that(1) b that(2)]
    let ?c = "it_curr t"
    have c: "?c = word_of_int (if sint start < 0 then - int (magnitude ?c) else int (magnitude ?c))"
      and le: "magnitude ?c \<le> magnitude start"
      using e by (auto simp: int_val_def int_tree_new_def)
    have f: "fails ?c" and nb: "magnitude ?c = 0 \<or> \<not> fails (int_val ?t0 (magnitude ?c - 1))"
      using e by simp_all
    have s: "sint ?c = (if sint start < 0 then - int (magnitude ?c) else int (magnitude ?c))"
      using le sint_i256 [of start] by (subst c, intro sint_word_of_int_i256) (auto simp: magnitude_def)
    have r: "(0 \<le> sint start \<longrightarrow> 0 \<le> sint ?c \<and> sint ?c \<le> sint start) \<and>
        (sint start \<le> 0 \<longrightarrow> sint start \<le> sint ?c \<and> sint ?c \<le> 0)"
      using le unfolding s magnitude_def [of start] by auto
    have z: "magnitude ?c = 0 \<longleftrightarrow> ?c = 0" using magnitude_inj [of 0 ?c] by (auto simp: magnitude_def one_sign_def)
    have v: "int_val ?t0 (magnitude ?c - 1) = (if sint start < 0 then ?c + 1 else ?c - 1)" if "magnitude ?c \<noteq> 0"
      using that by (subst (2 3) c) (simp add: int_val_def int_tree_new_def of_nat_diff)
    have "?c = 0 \<or> \<not> fails (if sint start < 0 then ?c + 1 else ?c - 1)"
      using nb v z by (cases "magnitude ?c = 0") simp_all
    then show ?thesis using f r by blast
  qed
  ultimately show ?thesis by blast
qed


theorem int_shrink_minimal_witness:
  "\<exists>t. (tree_step it_curr int_simplify int_complicate (\<lambda>x. sint x < 0) ^^ 3) (int_tree_new (- 2) False) t \<and>
       (\<nexists>u. tree_step it_curr int_simplify int_complicate (\<lambda>x. sint x < 0) t u) \<and> it_curr t = - 1 \<and> sint (it_curr t) \<le> 0"
proof -
  let ?step = "tree_step it_curr int_simplify int_complicate (\<lambda>x. sint x < 0)"
  let ?t1 = "\<lparr>it_lo = 0, it_curr = - 1, it_hi = - 2, it_fixed = False\<rparr>"
  let ?t2 = "\<lparr>it_lo = 0, it_curr = 0, it_hi = - 1, it_fixed = False\<rparr>"
  let ?t3 = "\<lparr>it_lo = - 1, it_curr = - 1, it_hi = - 1, it_fixed = False\<rparr>"
  have "?step (int_tree_new (- 2) False) ?t1" by (rule tree_step.Simplify; code_simp)
  moreover have "?step ?t1 ?t2" by (rule tree_step.Simplify; code_simp)
  moreover have "?step ?t2 ?t3" by (rule tree_step.Complicate; code_simp)
  ultimately have n: "(?step ^^ 3) (int_tree_new (- 2) False) ?t3" by (auto simp: numeral_3_eq_3)
  have s: "\<nexists>u. ?step ?t3 u" 
  proof -
    have "int_simplify ?t3 = (False, ?t3)" by code_simp
    moreover have "sint (it_curr ?t3) < 0" by code_simp
    ultimately show ?thesis by (auto elim!: tree_step.cases)
  qed
  have f: "sint (- 2 :: i256) < 0" "sint (- 2 :: i256) \<le> 0" by code_simp+
  have "sint (it_curr ?t3) \<le> 0"
    using int_shrink_minimal [where fails = "\<lambda>x. sint x < 0" and start = "- 2" and t = ?t3, OF f(1)] f(2) relpowp_imp_rtranclp [OF n] s by blast
  then show ?thesis using n s by (intro exI [of _ ?t3]) simp
qed

section \<open>Ranges of the strategies\<close>

lemma and_push_mask: "w AND (push_bit n 1 - 1) = take_bit n w" for w :: "'a::len word"
  by (simp add: push_bit_eq_mult mask_eq_exp_minus_1 [symmetric] take_bit_eq_mask)

lemma and_mask_less: "n < LENGTH('a) \<Longrightarrow> unat (w AND (push_bit n 1 - 1)) < 2 ^ n" for w :: "'a::len word"
  unfolding and_push_mask by (simp add: unsigned_take_bit_eq)

lemma unat_push_bit_small:
  "unat w * 2 ^ n < 2 ^ 256 \<Longrightarrow> unat (push_bit n w) = unat w * 2 ^ n" for w :: u256
  unfolding unsigned_push_bit_eq by (simp add: push_bit_eq_mult take_bit_nat_eq_self)

lemma unat_from_limbs:
  "unat (from_limbs a b c d) = unat a + unat b * 2 ^ 64 + unat c * 2 ^ 128 + unat d * 2 ^ 192"
proof -
  have lt: "unat x < 2 ^ 64" for x :: u64 using unsigned_less [of x, where ?'a = nat] by simp
  have u: "unat (ucast x :: u256) = unat x" for x :: u64 using lt [of x] by (simp add: unat_ucast_mod)
  have p: "unat (push_bit n (ucast x :: u256)) = unat x * 2 ^ n" if "n \<le> 192" for x :: u64 and n
  proof -
    have "(2 :: nat) ^ n \<le> 2 ^ 192" using that by (rule power_increasing) simp
    then have "unat x * 2 ^ n < 2 ^ 64 * 2 ^ 192" using lt [of x] by (intro mult_less_le_imp_less) auto
    then show ?thesis using unat_push_bit_small [of "ucast x" n] by (simp add: u)
  qed
  have "unat a + unat b * 2 ^ 64 + unat c * 2 ^ 128 + unat d * 2 ^ 192 < 2 ^ 256"
    using lt [of a] lt [of b] lt [of c] lt [of d] by simp
  then show ?thesis
    by (simp add: from_limbs_def unat_word_ariths u p)
qed

lemma unat_join_words: "unat (join_words lower higher) = unat lower + unat higher * 2 ^ 128"
proof -
  have low: "unat (ucast (w AND mask64) :: u64) = unat w mod 2 ^ 64" for w :: u128
  proof -
    have "w AND mask64 = take_bit 65 w" unfolding mask64_def by (rule and_push_mask)
    then have "unat (w AND mask64) = unat w mod 2 ^ 65"
      by (simp only: unsigned_take_bit_eq take_bit_eq_mod [of 65 "unat w"])
    then show ?thesis unfolding unat_ucast_mod by (simp add: mod_mod_cancel)
  qed
  have high: "unat (ucast (drop_bit 64 w) :: u64) = unat w div 2 ^ 64" for w :: u128
  proof -
    have "unat (drop_bit 64 w) = unat w div 2 ^ 64"
      by (simp only: unat_drop_bit_eq drop_bit_eq_div [of 64 "unat w"])
    moreover have "unat w div 2 ^ 64 < 2 ^ 64"
      using unsigned_less [of w, where ?'a = nat] by (simp add: less_mult_imp_div_less)
    ultimately show ?thesis unfolding unat_ucast_mod by simp
  qed
  have limbs: "a + b * 2 ^ 64 + c * 2 ^ 128 + d * 2 ^ 192 = (a + b * 2 ^ 64) + (c + d * 2 ^ 64) * 2 ^ 128" for a b c d :: nat
    by simp
  have split: "n mod 2 ^ 64 + n div 2 ^ 64 * 2 ^ 64 = n" for n :: nat by (simp add: mult.commute)
  show ?thesis
    unfolding join_words_def unat_from_limbs low high
    by (subst limbs) (simp only: split)
qed

lemma cut_bits_less:
  assumes "cut_bits x lower higher = (l, h)" "x \<le> 256"
  shows "unat l + unat h * 2 ^ 128 < 2 ^ x"
proof -
  have lt: "unat w < 2 ^ 128" for w :: u128 using unsigned_less [of w, where ?'a = nat] by simp
  consider "x < 128" | "128 \<le> x" "x < 256" | "x = 256" using assms(2) by linarith
  then show ?thesis
  proof cases
    case 1
    then show ?thesis using assms(1) and_mask_less [of x lower] by (auto simp: cut_bits_def)
  next
    case 2
    then have h: "unat h < 2 ^ (x - 128)" using assms(1) and_mask_less [of "x - 128" higher] by (auto simp: cut_bits_def)
    have "unat l + unat h * 2 ^ 128 < (unat h + 1) * 2 ^ 128" using lt [of l] by simp
    also have "\<dots> \<le> 2 ^ (x - 128) * 2 ^ 128" using h by (intro mult_le_mono1) simp
    also have "\<dots> = 2 ^ x" using 2(1) by (metis le_add_diff_inverse2 power_add)
    finally show ?thesis .
  next
    case 3
    then show ?thesis using lt [of l] lt [of h] by simp
  qed
qed

lemma uint_random_less:
  assumes "dr_bits dr \<le> 256"
  shows "unat (uint_random_start s dr) < 2 ^ dr_bits dr"
  using cut_bits_less [of "dr_bits dr" "dr_lower dr" "dr_higher dr"] assms
  by (auto simp: uint_random_start_def unat_join_words split: prod.split)

lemma unat_type_max: "st_bits s \<le> 256 \<Longrightarrow> unat (type_max s) = 2 ^ st_bits s - 1"
proof (cases "st_bits s < 256")
  case True
  have "type_max s = word_of_nat (2 ^ st_bits s - 1)" using True by (simp add: type_max_def push_bit_eq_mult of_nat_diff)
  moreover have "(2 :: nat) ^ st_bits s < 2 ^ 256" using True by (rule power_strict_increasing) simp
  then have "unat (word_of_nat (2 ^ st_bits s - 1) :: u256) = 2 ^ st_bits s - 1" by (intro unat_word_of_nat) simp
  ultimately show ?thesis by (simp only:)
next
  case False
  moreover assume "st_bits s \<le> 256"
  ultimately show ?thesis by (simp add: type_max_def unat_minus_one_word_eq)
qed

text \<open>The fixtures of a type with \<open>n\<close> bits have \<open>n\<close> bits.\<close>

definition fixtures_ok :: "strategy \<Rightarrow> bool" where
  "fixtures_ok s \<longleftrightarrow> (\<forall>f \<in> set (st_fixtures s). case f of
       FixUint v n \<Rightarrow> unat v < 2 ^ n
     | FixInt v n \<Rightarrow> - (2 ^ (n - 1)) \<le> sint v \<and> sint v < 2 ^ (n - 1)
     | FixOther \<Rightarrow> True)"

lemma uint_start_range:
  assumes "draws_ok s dr" "fixtures_ok s" "8 \<le> st_bits s" "st_bits s \<le> 256"
  shows "unat (ut_curr (uint_new_tree s dr)) < 2 ^ st_bits s"
proof -
  have pw: "(2 :: nat) ^ 8 \<le> 2 ^ st_bits s" using assms(3) by (rule power_increasing) simp
  have bits: "dr_bits dr \<le> st_bits s" "dr_offset dr < 4" using assms(1) by (auto simp: draws_ok_def)
  have random: "unat (uint_random_start s dr) < 2 ^ st_bits s"
    using uint_random_less [of dr s] power_increasing [OF bits(1), of "2 :: nat"] assms(4) bits(1) by linarith
  have edge: "unat (uint_edge_start s dr) < 2 ^ st_bits s"
  proof (cases "dr_is_min dr")
    case True
    then show ?thesis using bits(2) pw by (simp add: uint_edge_start_def unat_word_of_nat)
  next
    case False
    then show ?thesis
      using unat_type_max [OF assms(4)] pw by (simp add: uint_edge_start_def sat_simps)
  qed
  have fix_ok: "unat v < 2 ^ n" if "as_uint (st_fixtures s ! dr_fixture dr) = Some (v, n)" "st_fixtures s \<noteq> []" for v n
  proof -
    have "st_fixtures s ! dr_fixture dr \<in> set (st_fixtures s)" using that(2) assms(1) by (simp add: draws_ok_def)
    then show ?thesis using that(1) assms(2) by (auto simp: fixtures_ok_def as_uint_def split: fixture.splits)
  qed
  have "unat (uint_fixtures_start s dr) < 2 ^ st_bits s"
    using random fix_ok by (auto simp: uint_fixtures_start_def split: option.split)
  then show ?thesis using random edge by (simp add: uint_new_tree_def uint_tree_new_def)
qed


lemma push_bit_i256: "push_bit n 1 - 1 = (word_of_int (2 ^ n - 1) :: i256)"
  by (simp add: push_bit_eq_mult)

lemma int_edge_range:
  assumes "dr_offset dr < 4" "8 \<le> st_bits s" "st_bits s \<le> 256"
  shows "- (2 ^ (st_bits s - 1)) \<le> sint (int_edge_start s dr) \<and> sint (int_edge_start s dr) < 2 ^ (st_bits s - 1)"
proof -
  let ?p = "2 ^ (st_bits s - 1) :: int" and ?o = "int (dr_offset dr)"
  have p: "2 ^ 7 \<le> ?p" "?p \<le> 2 ^ 255"
    using assms(2,3) by (auto intro: power_increasing simp del: power_numeral)
  let ?i = "if dr_kind dr = 0 then - ?p + ?o else if dr_kind dr = 1 then - ?o - 1
            else if dr_kind dr = 2 then ?o else ?p - 1 - ?o"
  have e: "int_edge_start s dr = word_of_int ?i"
    by (simp add: int_edge_start_def Let_def push_bit_i256 from_sign_and_abs_def)
  have o: "?o < 4" "8 \<le> ?p" using assms(1) p(1) by simp_all
  obtain i where i: "int_edge_start s dr = word_of_int i"
    "i = - ?p + ?o \<or> i = - ?o - 1 \<or> i = ?o \<or> i = ?p - 1 - ?o"
    using that [of ?i] e by (simp only:) presburger
  have r: "- ?p \<le> i \<and> i < ?p" using i(2) o by (elim disjE) linarith+
  have "sint (word_of_int i :: i256) = i" by (rule sint_word_of_int_i256; use r p(2) in linarith)
  then show ?thesis using i(1) r by (simp only:)
qed

lemma int_random_range:
  assumes "dr_bits dr \<le> st_bits s" "8 \<le> st_bits s" "st_bits s \<le> 256"
  shows "- (2 ^ (st_bits s - 1)) \<le> sint (int_random_start s dr) \<and> sint (int_random_start s dr) < 2 ^ (st_bits s - 1)"
proof (cases "dr_bits dr = 0")
  case True
  then show ?thesis by (simp add: int_random_start_def)
next
  case False
  obtain l h where c: "cut_bits (dr_bits dr - 1) (dr_lower dr) (dr_higher dr) = (l, h)" by fastforce
  let ?m = "join_words l h"
  have m: "unat ?m < 2 ^ (dr_bits dr - 1)"
    using cut_bits_less [OF c] assms by (simp add: unat_join_words)
  have "(2 :: nat) ^ (dr_bits dr - 1) \<le> 2 ^ (st_bits s - 1)" using assms(1) by (intro power_increasing) auto
  then have "unat ?m < 2 ^ (st_bits s - 1)" using m by linarith
  then have lt: "int (unat ?m) < 2 ^ (st_bits s - 1)" by (metis of_nat_less_iff of_nat_numeral of_nat_power)
  have p: "(2 :: int) ^ (st_bits s - 1) \<le> 2 ^ 255" using assms(3) by (intro power_increasing) auto
  define k where "k = int (unat ?m)"
  have k: "0 \<le> k" "k < 2 ^ (st_bits s - 1)" using lt by (simp_all add: k_def)
  have "?m = word_of_int k" by (simp add: k_def)
  then have r: "int_random_start s dr = word_of_int (if dr_positive dr then k else - k)"
    using False c by (simp add: int_random_start_def from_sign_and_abs_def)
  have "sint (word_of_int (if dr_positive dr then k else - k) :: i256) = (if dr_positive dr then k else - k)"
    using k p by (intro sint_word_of_int_i256) (auto split: if_split)
  then show ?thesis using k unfolding r by auto
qed

lemma int_start_range:
  assumes "draws_ok s dr" "fixtures_ok s" "8 \<le> st_bits s" "st_bits s \<le> 256"
  shows "- (2 ^ (st_bits s - 1)) \<le> sint (it_curr (int_new_tree s dr)) \<and>
         sint (it_curr (int_new_tree s dr)) < 2 ^ (st_bits s - 1)"
proof -
  have ok: "dr_bits dr \<le> st_bits s" "dr_offset dr < 4" using assms(1) by (auto simp: draws_ok_def)
  note random = int_random_range [OF ok(1) assms(3,4)]
  have "- (2 ^ (n - 1)) \<le> sint v \<and> sint v < 2 ^ (n - 1)"
    if "as_int (st_fixtures s ! dr_fixture dr) = Some (v, n)" "st_fixtures s \<noteq> []" for v n
  proof -
    have "st_fixtures s ! dr_fixture dr \<in> set (st_fixtures s)" using that(2) assms(1) by (simp add: draws_ok_def)
    then show ?thesis using that(1) assms(2) by (auto simp: fixtures_ok_def as_int_def split: fixture.splits)
  qed
  then have "- (2 ^ (st_bits s - 1)) \<le> sint (int_fixtures_start s dr) \<and> sint (int_fixtures_start s dr) < 2 ^ (st_bits s - 1)"
    using random by (auto simp: int_fixtures_start_def split: option.split)
  then show ?thesis
    using random int_edge_range [OF ok(2) assms(3,4)] by (simp add: int_new_tree_def int_tree_new_def)
qed

text \<open>
  C16. Fuzzed integers fit their type. For a type of \<open>n\<close> bits (from 8 to 256), fixtures of their type and
  random draws within their ranges, the start value of a generated tree, and every value the
  shrinking of a failing start tries, lies in the range of \<^verbatim>\<open>uintN\<close> or \<^verbatim>\<open>intN\<close>; the limbs are cut
  correctly although the mask of the lower limb has 65 bits.
\<close>

theorem fuzzed_integers_in_range:
  assumes "draws_ok s dr" "fixtures_ok s" "8 \<le> st_bits s" "st_bits s \<le> 256"
  shows "(fails (ut_curr (uint_new_tree s dr)) \<longrightarrow>
          (tree_step ut_curr uint_simplify uint_complicate fails)\<^sup>*\<^sup>* (uint_new_tree s dr) t \<longrightarrow>
          unat (ut_curr t) < 2 ^ st_bits s) \<and>
         (fails (it_curr (int_new_tree s dr)) \<longrightarrow>
          (tree_step it_curr int_simplify int_complicate fails)\<^sup>*\<^sup>* (int_new_tree s dr) u \<longrightarrow>
          - (2 ^ (st_bits s - 1)) \<le> sint (it_curr u) \<and> sint (it_curr u) < 2 ^ (st_bits s - 1))"
proof (intro conjI impI)
  let ?t = "uint_new_tree s dr"
  assume f: "fails (ut_curr ?t)" and r: "(tree_step ut_curr uint_simplify uint_complicate fails)\<^sup>*\<^sup>* ?t t"
  have "uint_tree.bracketed fails ?t"
    using f unfolding uint_tree.bracketed_def by (simp add: uint_inv_def uint_new_tree_def uint_tree_new_def)
  from uint_tree.steps_bracketed [OF r this] have "uint_inv t" "unat (ut_hi t) \<le> unat (ut_hi ?t)"
    unfolding uint_tree.bracketed_def by auto
  moreover have "ut_hi ?t = ut_curr ?t" by (simp add: uint_new_tree_def uint_tree_new_def)
  ultimately show "unat (ut_curr t) < 2 ^ st_bits s"
    using uint_start_range [OF assms] by (simp add: uint_inv_def word_le_nat_alt)
next
  let ?u = "int_new_tree s dr"
  assume f: "fails (it_curr ?u)" and r: "(tree_step it_curr int_simplify int_complicate fails)\<^sup>*\<^sup>* ?u u"
  have new: "it_hi ?u = it_curr ?u" "it_lo ?u = 0" "\<not> it_fixed ?u"
    by (simp_all add: int_new_tree_def int_tree_new_def)
  then have inv: "int_inv ?u" by (auto simp: int_inv_def one_sign_def)
  have "int_tree.bracketed fails ?u"
    using f inv int_val_current [OF inv] new unfolding int_tree.bracketed_def by (simp add: magnitude_def)
  from int_tree.steps_bracketed [OF r this]
  have u: "int_inv u" "int_val u = int_val ?u" "magnitude (it_hi u) \<le> magnitude (it_curr ?u)"
    unfolding int_tree.bracketed_def new by auto
  have "it_curr u = int_val ?u (magnitude (it_curr u))" using int_val_current [OF u(1)] u(2) by simp
  moreover have m: "magnitude (it_curr u) \<le> magnitude (it_curr ?u)"
    using u int_tree.ordered [OF u(1)] by linarith
  moreover have "sint (int_val ?u (magnitude (it_curr u))) =
      (if sint (it_curr ?u) < 0 then - int (magnitude (it_curr u)) else int (magnitude (it_curr u)))"
    unfolding int_val_def new using m sint_i256 [of "it_curr ?u"]
    by (intro sint_word_of_int_i256) (auto simp: magnitude_def [of "it_curr ?u"])
  ultimately have s: "sint (it_curr u) =
      (if sint (it_curr ?u) < 0 then - int (magnitude (it_curr u)) else int (magnitude (it_curr u)))"
    by simp
  have "int (magnitude (it_curr u)) \<le> \<bar>sint (it_curr ?u)\<bar>" using m by (simp add: magnitude_def [of "it_curr ?u"])
  then have "\<bar>sint (it_curr u)\<bar> \<le> \<bar>sint (it_curr ?u)\<bar>" "sint (it_curr ?u) < 0 \<longrightarrow> sint (it_curr u) \<le> 0"
    "0 \<le> sint (it_curr ?u) \<longrightarrow> 0 \<le> sint (it_curr u)"
    unfolding s by auto
  then show "- (2 ^ (st_bits s - 1)) \<le> sint (it_curr u)" "sint (it_curr u) < 2 ^ (st_bits s - 1)"
    using int_start_range [OF assms] by linarith+
qed

definition sample_draws :: draws where
  "sample_draws =
     \<lparr>dr_bias = 99, dr_is_min = False, dr_offset = 0, dr_kind = 0, dr_fixture = 0, dr_bits = 8,
      dr_higher = 5, dr_lower = 0xABCD, dr_positive = False\<rparr>"

theorem fuzzed_integers_in_range_witness:
  "unat (ut_curr (uint_new_tree (strategy_new 8 None) sample_draws)) < 2 ^ 8 \<and>
   - (2 ^ 7) \<le> sint (it_curr (int_new_tree (strategy_new 8 None) sample_draws)) \<and>
   sint (it_curr (int_new_tree (strategy_new 8 None) sample_draws)) < 2 ^ 7"
proof -
  have "draws_ok (strategy_new 8 None) sample_draws" "fixtures_ok (strategy_new 8 None)" "st_bits (strategy_new 8 None) = 8"
    by (simp_all add: draws_ok_def fixtures_ok_def strategy_new_def sample_draws_def)
  then show ?thesis
    using fuzzed_integers_in_range [of "strategy_new 8 None" sample_draws "\<lambda>x. True"
        "uint_new_tree (strategy_new 8 None) sample_draws" "int_new_tree (strategy_new 8 None) sample_draws"]
    by simp
qed

end
