(* ===== verification/Contracts.thy ===== *)
theory Contracts
  imports Prelude "HOL-Library.Char_ord"
begin

text \<open>
  Identification of deployed contracts, \<^verbatim>\<open>crates/common/src/contracts.rs\<close>.

  \<^item> \<open>contract_data\<close>, \<open>bytecode_data\<close> and \<open>json_abi\<close> are the data; a \<^verbatim>\<open>ContractsByArtifact\<close> is the list of
    its entries in the order of its \<^verbatim>\<open>BTreeMap\<close>. The functions of an ABI are a map from names to the
    overloads, as in \<^verbatim>\<open>alloy_json_abi\<close>.
  \<^item> \<open>bytecode_diff_score\<close> is the fuzzy score as a fraction (numerator, denominator), compared by cross
    multiplication; the source divides two \<^verbatim>\<open>f64\<close>, which orders these fractions the same way for code
    lengths below \<open>2^50\<close>. \<open>find_by_code\<close> returns the first contract of least score.
  \<^item> \<open>matches_exact\<close> compares the code outside the link references, the immutables and the address of a
    call-protected library; a slice out of range panics, the value \<open>None\<close>. Decoding the hex text of an
    unlinked object is the parameter \<open>hex\<close>.

  The lemmas show that a contract whose code is present is found with score zero, and that the exact
  comparison holds precisely when the code agrees on every byte that is not ignored.
\<close>

section \<open>Data\<close>

datatype state_mutability = Pure | View | NonPayable | Payable

record abi_function =
  fn_name :: string
  fn_inputs :: "string list"
  fn_selector :: u32
  fn_mutability :: state_mutability

record json_abi =
  ja_functions :: "(string, abi_function list) fmap"

text \<open>\<^verbatim>\<open>JsonAbi::functions\<close> iterates the map by name and flattens the overloads.\<close>

definition abi_functions :: "json_abi \<Rightarrow> abi_function list" where
  "abi_functions abi =
     concat (map (\<lambda>name. the (fmlookup (ja_functions abi) name)) (sorted_list_of_fset (fmdom (ja_functions abi))))"

record artifact_id =
  ai_name :: string
  ai_identifier :: string

record offsets =
  of_start :: u32
  of_length :: u32

datatype bytecode_object = Bytecode "u8 list" | Unlinked string

text \<open>The reference maps enter only through their values, in order.\<close>

record bytecode_data =
  bd_object :: "bytecode_object option"
  bd_link_references :: "offsets list list list"
  bd_immutable_references :: "offsets list list"

record contract_data =
  co_name :: string
  co_abi :: json_abi
  co_bytecode :: "bytecode_data option"
  co_deployed_bytecode :: "bytecode_data option"

type_synonym contracts_by_artifact = "(artifact_id \<times> contract_data) list"
type_synonym contracts_by_address = "(address, string \<times> json_abi) fmap"

definition bd_bytes :: "bytecode_data \<Rightarrow> u8 list option" where
  "bd_bytes bd = (case bd_object bd of Some (Bytecode bs) \<Rightarrow> Some bs | _ \<Rightarrow> None)"

definition present :: "u8 list option \<Rightarrow> u8 list option" where
  "present b = Option.bind b (\<lambda>bs. if bs = [] then None else Some bs)"

definition contract_bytecode :: "contract_data \<Rightarrow> u8 list option" where
  "contract_bytecode c = Option.bind (co_bytecode c) (\<lambda>bd. present (bd_bytes bd))"

definition contract_deployed_bytecode :: "contract_data \<Rightarrow> u8 list option" where
  "contract_deployed_bytecode c = Option.bind (co_deployed_bytecode c) (\<lambda>bd. present (bd_bytes bd))"

section \<open>Fuzzy matching\<close>

fun count_different_bytes :: "u8 list \<Rightarrow> u8 list \<Rightarrow> nat" where
  "count_different_bytes (x # xs) (y # ys) = (if x \<noteq> y then 1 else 0) + count_different_bytes xs ys"
| "count_different_bytes _ _ = 0"

definition bytecode_diff_score :: "u8 list \<Rightarrow> u8 list \<Rightarrow> nat \<times> nat" where
  "bytecode_diff_score a b =
     (let (a, b) = (if length a < length b then (b, a) else (a, b));
          n = length a - length b
      in if 32 < n \<and> length a < n * 10 then (1, 1)
         else (n + count_different_bytes a b, length a))"

text \<open>\<^verbatim>\<open>score <= 0.1\<close> and the comparison of two scores.\<close>

definition score_close :: "nat \<times> nat \<Rightarrow> bool" where
  "score_close s = (snd s \<noteq> 0 \<and> fst s * 10 \<le> snd s)"

definition score_less :: "nat \<times> nat \<Rightarrow> nat \<times> nat \<Rightarrow> bool" where
  "score_less s t = (fst s * snd t < fst t * snd s)"

text \<open>\<^verbatim>\<open>Iterator::min_by\<close>: the first of the least elements.\<close>

fun min_score :: "((nat \<times> nat) \<times> 'a) list \<Rightarrow> ((nat \<times> nat) \<times> 'a) option" where
  "min_score [] = None"
| "min_score (x # xs) = (case min_score xs of
     None \<Rightarrow> Some x
   | Some y \<Rightarrow> if score_less (fst y) (fst x) then Some y else Some x)"

text \<open>The entries close to \<open>code\<close> with their scores: the \<^verbatim>\<open>filter_map\<close> of \<^verbatim>\<open>find_by_code\<close>.\<close>

definition scored ::
  "contracts_by_artifact \<Rightarrow> u8 list \<Rightarrow> (contract_data \<Rightarrow> u8 list option) \<Rightarrow>
   ((nat \<times> nat) \<times> artifact_id \<times> contract_data) list" where
  "scored cs code get =
     List.map_filter (\<lambda>(a, c).
       case get c of
         Some deployed \<Rightarrow> (let score = bytecode_diff_score deployed code
                          in if score_close score then Some (score, (a, c)) else None)
       | None \<Rightarrow> None) cs"

definition find_by_code ::
  "contracts_by_artifact \<Rightarrow> u8 list \<Rightarrow> (contract_data \<Rightarrow> u8 list option) \<Rightarrow> (artifact_id \<times> contract_data) option" where
  "find_by_code cs code get = map_option snd (min_score (scored cs code get))"

definition find_by_creation_code :: "contracts_by_artifact \<Rightarrow> u8 list \<Rightarrow> (artifact_id \<times> contract_data) option" where
  "find_by_creation_code cs code = find_by_code cs code contract_bytecode"

definition find_by_deployed_code :: "contracts_by_artifact \<Rightarrow> u8 list \<Rightarrow> (artifact_id \<times> contract_data) option" where
  "find_by_deployed_code cs code = find_by_code cs code contract_deployed_bytecode"

section \<open>Exact matching\<close>

definition CALL_PROTECTION_BYTECODE_PREFIX :: "u8 list" where
  "CALL_PROTECTION_BYTECODE_PREFIX = 0x73 # replicate 20 0"

text \<open>\<^verbatim>\<open>xs[l..r]\<close>.\<close>

definition slice :: "nat \<Rightarrow> nat \<Rightarrow> 'a list \<Rightarrow> 'a list option" where
  "slice l r xs = (if l \<le> r \<and> r \<le> length xs then Some (take (r - l) (drop l xs)) else None)"

definition object_len :: "bytecode_object \<Rightarrow> nat" where
  "object_len obj = (case obj of Bytecode bs \<Rightarrow> length bs | Unlinked s \<Rightarrow> length s div 2)"

definition starts_with :: "'a list \<Rightarrow> 'a list \<Rightarrow> bool" where
  "starts_with xs p = (take (length p) xs = p)"

definition has_call_protection :: "(string \<Rightarrow> u8 list option) \<Rightarrow> bytecode_object \<Rightarrow> bool option" where
  "has_call_protection hex obj =
     (case obj of
        Bytecode bs \<Rightarrow> Some (starts_with bs CALL_PROTECTION_BYTECODE_PREFIX)
      | Unlinked s \<Rightarrow>
          (case slice 0 (length CALL_PROTECTION_BYTECODE_PREFIX * 2) s of
             None \<Rightarrow> None
           | Some h \<Rightarrow> Some (case hex h of Some bs \<Rightarrow> starts_with bs CALL_PROTECTION_BYTECODE_PREFIX | None \<Rightarrow> False)))"

text \<open>Comparison of the bytes from \<open>l\<close> to \<open>r\<close>; both slices are taken before the comparison.\<close>

definition compare_range ::
  "(string \<Rightarrow> u8 list option) \<Rightarrow> bytecode_object \<Rightarrow> u8 list \<Rightarrow> nat \<Rightarrow> nat \<Rightarrow> bool option" where
  "compare_range hex obj code l r =
     (case obj of
        Bytecode bs \<Rightarrow> (case (slice l r bs, slice l r code) of
            (Some x, Some y) \<Rightarrow> Some (x = y) | _ \<Rightarrow> None)
      | Unlinked s \<Rightarrow> (case slice (l * 2) (r * 2) s of
            None \<Rightarrow> None
          | Some h \<Rightarrow> (case hex h of
                Some x \<Rightarrow> map_option (\<lambda>y. x = y) (slice l r code)
              | None \<Rightarrow> Some False)))"

text \<open>The bytes from \<open>l\<close> to the end.\<close>

definition compare_tail :: "(string \<Rightarrow> u8 list option) \<Rightarrow> bytecode_object \<Rightarrow> u8 list \<Rightarrow> nat \<Rightarrow> bool option" where
  "compare_tail hex obj code l =
     (case obj of
        Bytecode bs \<Rightarrow> if l \<le> length bs then Some (drop l bs = drop l code) else None
      | Unlinked s \<Rightarrow>
          if l * 2 \<le> length s
          then Some (case hex (drop (l * 2) s) of Some x \<Rightarrow> x = drop l code | None \<Rightarrow> False)
          else None)"

text \<open>The loop over the ignored offsets; \<open>left\<close> is the first byte not compared yet.\<close>

fun compare_around ::
  "(string \<Rightarrow> u8 list option) \<Rightarrow> bytecode_object \<Rightarrow> u8 list \<Rightarrow> nat \<Rightarrow> offsets list \<Rightarrow> bool option" where
  "compare_around hex obj code left [] =
     (if left < length code then compare_tail hex obj code left else Some True)"
| "compare_around hex obj code left (o1 # os) =
     (case compare_range hex obj code left (unat (of_start o1)) of
        Some True \<Rightarrow> compare_around hex obj code (unat (of_start o1) + unat (of_length o1)) os
      | r \<Rightarrow> r)"

definition ignored_offsets :: "bytecode_data \<Rightarrow> bool \<Rightarrow> offsets list" where
  "ignored_offsets bd protection =
     sort_key of_start
       (concat (bd_immutable_references bd @ concat (bd_link_references bd)) @
        (if protection then [\<lparr>of_start = 1, of_length = 20\<rparr>] else []))"

definition matches_exact :: "(string \<Rightarrow> u8 list option) \<Rightarrow> u8 list \<Rightarrow> contract_data \<Rightarrow> bool option" where
  "matches_exact hex code c =
     (case co_deployed_bytecode c of
        None \<Rightarrow> Some False
      | Some bd \<Rightarrow>
          (case bd_object bd of
             None \<Rightarrow> Some False
           | Some obj \<Rightarrow>
               if object_len obj \<noteq> length code then Some False
               else (case has_call_protection hex obj of
                       None \<Rightarrow> None
                     | Some protection \<Rightarrow>
                         compare_around hex obj code 0 (ignored_offsets bd protection))))"

fun find_by_deployed_code_exact ::
  "(string \<Rightarrow> u8 list option) \<Rightarrow> contracts_by_artifact \<Rightarrow> u8 list \<Rightarrow> (artifact_id \<times> contract_data) option option" where
  "find_by_deployed_code_exact hex [] code = Some None"
| "find_by_deployed_code_exact hex ((a, c) # cs) code =
     (case matches_exact hex code c of
        None \<Rightarrow> None
      | Some True \<Rightarrow> Some (Some (a, c))
      | Some False \<Rightarrow> find_by_deployed_code_exact hex cs code)"

section \<open>Lookup by name\<close>

definition find_by_name_or_identifier ::
  "contracts_by_artifact \<Rightarrow> string \<Rightarrow> (string, (artifact_id \<times> contract_data) option) result" where
  "find_by_name_or_identifier cs nm =
     (let found = filter (\<lambda>(a, _). ai_name a = nm \<or> ai_identifier a = nm) cs
      in if 1 < length found then Inl (nm @ '' has more than one implementation.'')
         else Inr (case found of [] \<Rightarrow> None | x # _ \<Rightarrow> Some x))"

fun split_colon :: "string \<Rightarrow> string list" where
  "split_colon [] = [[]]"
| "split_colon (c # cs) = (case split_colon cs of
     p # ps \<Rightarrow> if c = CHR '':'' then [] # p # ps else (c # p) # ps
   | [] \<Rightarrow> [])"

definition get_contract_name :: "string \<Rightarrow> string" where
  "get_contract_name nm = (case rev (split_colon nm) of p # _ \<Rightarrow> p | [] \<Rightarrow> nm)"

definition get_file_name :: "string \<Rightarrow> string" where
  "get_file_name nm = (case split_colon nm of p # _ \<Rightarrow> p | [] \<Rightarrow> nm)"

definition get_function :: "string \<Rightarrow> u32 \<Rightarrow> json_abi \<Rightarrow> (string, abi_function) result" where
  "get_function contract_name selector abi =
     (case List.find (\<lambda>f. fn_selector f = selector) (abi_functions abi) of
        Some f \<Rightarrow> Inr f
      | None \<Rightarrow> Inl (contract_name @ '' does not have the selector''))"


section \<open>Least scores\<close>

lemma count_different_bytes_le: "count_different_bytes a b \<le> min (length a) (length b)"
  by (induction a b rule: count_different_bytes.induct) auto

lemma count_different_bytes_0:
  "length a = length b \<Longrightarrow> count_different_bytes a b = 0 \<longleftrightarrow> a = b"
  by (induction a b rule: count_different_bytes.induct) auto

lemma diff_score_fraction:
  assumes "a \<noteq> [] \<or> b \<noteq> []"
  shows "fst (bytecode_diff_score a b) \<le> snd (bytecode_diff_score a b)" "0 < snd (bytecode_diff_score a b)"
  using assms count_different_bytes_le [of a b] count_different_bytes_le [of b a]
  by (auto simp: bytecode_diff_score_def Let_def)

lemma diff_score_0: "fst (bytecode_diff_score a b) = 0 \<longleftrightarrow> a = b"
  using count_different_bytes_0 [of a b] by (auto simp: bytecode_diff_score_def Let_def)

lemma score_le_trans:
  assumes "\<not> score_less t s" "\<not> score_less u t" "0 < snd t"
  shows "\<not> score_less u s"
proof -
  have "fst s * snd t \<le> fst t * snd s" "fst t * snd u \<le> fst u * snd t"
    using assms(1,2) by (simp_all add: score_less_def)
  note le = this
  have "snd t * (fst s * snd u) = (fst s * snd t) * snd u" by (simp only: ac_simps)
  also have "\<dots> \<le> (fst t * snd s) * snd u" using le(1) by (rule mult_le_mono1)
  also have "\<dots> = (fst t * snd u) * snd s" by (simp only: ac_simps)
  also have "\<dots> \<le> (fst u * snd t) * snd s" using le(2) by (rule mult_le_mono1)
  also have "\<dots> = snd t * (fst u * snd s)" by (simp only: ac_simps)
  finally have "snd t * (fst s * snd u) \<le> snd t * (fst u * snd s)" .
  then show ?thesis using assms(3) by (simp add: score_less_def)
qed

lemma min_score_least:
  assumes "min_score xs = Some y" "\<And>x. x \<in> set xs \<Longrightarrow> 0 < snd (fst x)"
  shows "y \<in> set xs \<and> (\<forall>x\<in>set xs. \<not> score_less (fst x) (fst y))"
  using assms
proof (induction xs arbitrary: y)
  case (Cons x xs)
  show ?case
  proof (cases "min_score xs")
    case None
    then have "xs = []" by (cases xs) (auto split: option.splits if_splits)
    then show ?thesis using Cons.prems None by (simp add: score_less_def)
  next
    case (Some z)
    have z: "z \<in> set xs" "\<And>w. w \<in> set xs \<Longrightarrow> \<not> score_less (fst w) (fst z)"
      using Cons.IH [OF Some] Cons.prems(2) by auto
    show ?thesis
    proof (cases "score_less (fst z) (fst x)")
      case True
      then show ?thesis using Cons.prems(1) Some z by (auto simp: score_less_def)
    next
      case False
      then have "\<not> score_less (fst w) (fst x)" if "w \<in> set xs" for w
        using score_le_trans [of "fst z" "fst x" "fst w"] z that Cons.prems(2) by auto
      then show ?thesis using Cons.prems(1) Some False by (auto simp: score_less_def)
    qed
  qed
qed simp

lemma min_score_None: "min_score xs = None \<longleftrightarrow> xs = []"
  by (cases xs) (auto split: option.splits)

lemma scored_mem:
  "(s, (a, c)) \<in> set (scored cs code get) \<longleftrightarrow>
     (a, c) \<in> set cs \<and> (\<exists>d. get c = Some d \<and> s = bytecode_diff_score d code \<and> score_close s)"
  by (force simp: scored_def List.map_filter_def Let_def split: option.splits if_splits)

lemma find_by_code_some:
  assumes "(a, c) \<in> set cs" "get c = Some d" "score_close (bytecode_diff_score d code)"
  shows "\<exists>a c. find_by_code cs code get = Some (a, c)"
proof -
  have "scored cs code get \<noteq> []"
    using scored_mem [of "bytecode_diff_score d code" a c cs code get] assms by auto
  then obtain x where "min_score (scored cs code get) = Some x"
    using min_score_None by (metis not_None_eq)
  then show ?thesis by (cases x) (auto simp: find_by_code_def)
qed

lemma find_by_code_entry:
  assumes "find_by_code cs code get = Some (a, c)"
  obtains deployed where "(a, c) \<in> set cs" "get c = Some deployed"
    "score_close (bytecode_diff_score deployed code)"
    "\<And>a' c' d'. (a', c') \<in> set cs \<Longrightarrow> get c' = Some d' \<Longrightarrow> score_close (bytecode_diff_score d' code) \<Longrightarrow>
       \<not> score_less (bytecode_diff_score d' code) (bytecode_diff_score deployed code)"
proof -
  obtain s where s: "min_score (scored cs code get) = Some (s, (a, c))"
    using assms by (auto simp: find_by_code_def)
  have "0 < snd (fst x)" if "x \<in> set (scored cs code get)" for x
    using that scored_mem [of "fst x" "fst (snd x)" "snd (snd x)" cs code get] by (auto simp: score_close_def)
  then have least: "(s, (a, c)) \<in> set (scored cs code get)"
    "\<And>x. x \<in> set (scored cs code get) \<Longrightarrow> \<not> score_less (fst x) s"
    using min_score_least [OF s] by auto
  then obtain d where d: "(a, c) \<in> set cs" "get c = Some d" "s = bytecode_diff_score d code" "score_close s"
    by (auto simp: scored_mem)
  show ?thesis
  proof (rule that [of d])
    fix a' c' d'
    assume "(a', c') \<in> set cs" "get c' = Some d'" "score_close (bytecode_diff_score d' code)"
    then have "(bytecode_diff_score d' code, (a', c')) \<in> set (scored cs code get)" by (auto simp: scored_mem)
    from least(2) [OF this] show "\<not> score_less (bytecode_diff_score d' code) (bytecode_diff_score d code)"
      using d(3) by simp
  qed (use d in simp_all)
qed

lemma present_nonempty: "contract_deployed_bytecode c \<noteq> Some []" "contract_bytecode c \<noteq> Some []"
  by (auto simp: contract_deployed_bytecode_def contract_bytecode_def present_def bind_eq_Some_conv split: if_splits)

section \<open>Comparison outside the ignored ranges\<close>

text \<open>The offsets follow one another without overlap from \<open>left\<close> on and stay within \<open>n\<close> bytes.\<close>

fun laid_out :: "nat \<Rightarrow> nat \<Rightarrow> offsets list \<Rightarrow> bool" where
  "laid_out left n [] = True"
| "laid_out left n (o1 # os) =
     (left \<le> unat (of_start o1) \<and> unat (of_start o1) + unat (of_length o1) \<le> n \<and>
      laid_out (unat (of_start o1) + unat (of_length o1)) n os)"

definition covered :: "offsets list \<Rightarrow> nat \<Rightarrow> bool" where
  "covered os i \<longleftrightarrow> (\<exists>o1\<in>set os. unat (of_start o1) \<le> i \<and> i < unat (of_start o1) + unat (of_length o1))"

lemma laid_out_covered: "laid_out left n os \<Longrightarrow> covered os i \<Longrightarrow> left \<le> i"
proof (induction os arbitrary: left)
  case (Cons o1 os)
  then show ?case by (fastforce simp: covered_def)
qed (simp add: covered_def)

lemma slice_eq_iff:
  assumes "l \<le> r" "r \<le> length xs" "length xs = length ys"
  shows "(slice l r xs = slice l r ys) = (\<forall>i. l \<le> i \<longrightarrow> i < r \<longrightarrow> xs ! i = ys ! i)"
proof -
  have "(take (r - l) (drop l xs) = take (r - l) (drop l ys)) = (\<forall>k < r - l. xs ! (l + k) = ys ! (l + k))"
    using assms by (auto simp: list_eq_iff_nth_eq)
  also have "\<dots> = (\<forall>i. l \<le> i \<longrightarrow> i < r \<longrightarrow> xs ! i = ys ! i)"
    using assms(1) by (metis add_diff_inverse_nat le_add1 linorder_not_le nat_add_left_cancel_less)
  finally show ?thesis using assms by (simp add: slice_def)
qed

lemma compare_range_bytecode:
  assumes "l \<le> r" "r \<le> length bs" "length bs = length code"
  shows "compare_range hex (Bytecode bs) code l r = Some (\<forall>i. l \<le> i \<longrightarrow> i < r \<longrightarrow> bs ! i = code ! i)"
  using slice_eq_iff [OF assms] assms by (simp add: compare_range_def slice_def)

lemma compare_tail_bytecode:
  assumes "l \<le> length bs" "length bs = length code"
  shows "compare_tail hex (Bytecode bs) code l = Some (\<forall>i. l \<le> i \<longrightarrow> i < length code \<longrightarrow> bs ! i = code ! i)"
  using slice_eq_iff [of l "length bs" bs code] assms by (simp add: compare_tail_def slice_def)

lemma compare_around_bytecode:
  assumes "length bs = length code" "laid_out left (length code) os" "left \<le> length code"
  shows "compare_around hex (Bytecode bs) code left os =
           Some (\<forall>i. left \<le> i \<longrightarrow> i < length code \<longrightarrow> \<not> covered os i \<longrightarrow> bs ! i = code ! i)"
  using assms(2,3)
proof (induction os arbitrary: left)
  case Nil
  then show ?case using compare_tail_bytecode [of left bs code hex] assms(1) by (auto simp: covered_def)
next
  case (Cons o1 os)
  let ?s = "unat (of_start o1)" and ?e = "unat (of_start o1) + unat (of_length o1)"
  have b: "left \<le> ?s" "?e \<le> length code" and rest: "laid_out ?e (length code) os"
    using Cons.prems by auto
  have r: "compare_range hex (Bytecode bs) code left ?s = Some (\<forall>i. left \<le> i \<longrightarrow> i < ?s \<longrightarrow> bs ! i = code ! i)"
    using compare_range_bytecode [of left ?s bs code hex] b assms(1) by simp
  have c: "covered (o1 # os) i \<longleftrightarrow> ?s \<le> i \<and> i < ?e \<or> covered os i" for i
    by (auto simp: covered_def)
  have sp: "(\<forall>i. left \<le> i \<longrightarrow> i < length code \<longrightarrow> \<not> covered (o1 # os) i \<longrightarrow> bs ! i = code ! i) \<longleftrightarrow>
      (\<forall>i. left \<le> i \<longrightarrow> i < ?s \<longrightarrow> bs ! i = code ! i) \<and>
      (\<forall>i. ?e \<le> i \<longrightarrow> i < length code \<longrightarrow> \<not> covered os i \<longrightarrow> bs ! i = code ! i)"
    unfolding c using b laid_out_covered [OF rest] by (meson le_trans linorder_not_le le_add1 less_le_trans)
  show ?case
    unfolding compare_around.simps r sp using Cons.IH [OF rest b(2)] by (simp split: bool.split)
qed


section \<open>Found contracts\<close>

text \<open>
  Fuzzy lookup finds the contract. When some contract of the project has exactly the given
  deployed code, \<^verbatim>\<open>find_by_deployed_code\<close> returns a contract with exactly that code; and whatever it
  returns is an entry of the project whose score is at most one tenth and least among all entries.
\<close>

theorem find_by_deployed_code_best:
  "(code \<noteq> [] \<longrightarrow> (\<exists>(a, c) \<in> set cs. contract_deployed_bytecode c = Some code) \<longrightarrow>
      (\<exists>a c. find_by_deployed_code cs code = Some (a, c) \<and> contract_deployed_bytecode c = Some code)) \<and>
   (\<forall>a c. find_by_deployed_code cs code = Some (a, c) \<longrightarrow>
      (a, c) \<in> set cs \<and>
      (\<exists>d. contract_deployed_bytecode c = Some d \<and> score_close (bytecode_diff_score d code) \<and>
        (\<forall>(a', c') \<in> set cs. \<forall>d'. contract_deployed_bytecode c' = Some d' \<longrightarrow>
           score_close (bytecode_diff_score d' code) \<longrightarrow>
           \<not> score_less (bytecode_diff_score d' code) (bytecode_diff_score d code))))"
proof (intro conjI impI allI)
  fix a c
  assume f: "find_by_deployed_code cs code = Some (a, c)"
  obtain d where d: "(a, c) \<in> set cs" "contract_deployed_bytecode c = Some d"
    "score_close (bytecode_diff_score d code)"
    "\<And>a' c' d'. (a', c') \<in> set cs \<Longrightarrow> contract_deployed_bytecode c' = Some d' \<Longrightarrow>
       score_close (bytecode_diff_score d' code) \<Longrightarrow>
       \<not> score_less (bytecode_diff_score d' code) (bytecode_diff_score d code)"
    using find_by_code_entry [OF f [unfolded find_by_deployed_code_def]] by metis
  show "(a, c) \<in> set cs" by (rule d(1))
  show "\<exists>d. contract_deployed_bytecode c = Some d \<and> score_close (bytecode_diff_score d code) \<and>
        (\<forall>(a', c') \<in> set cs. \<forall>d'. contract_deployed_bytecode c' = Some d' \<longrightarrow>
           score_close (bytecode_diff_score d' code) \<longrightarrow>
           \<not> score_less (bytecode_diff_score d' code) (bytecode_diff_score d code))"
    using d by blast
next
  assume ne: "code \<noteq> []" and ex: "\<exists>(a, c) \<in> set cs. contract_deployed_bytecode c = Some code"
  then obtain a0 c0 where e: "(a0, c0) \<in> set cs" "contract_deployed_bytecode c0 = Some code" by blast
  have z: "fst (bytecode_diff_score code code) = 0" "0 < snd (bytecode_diff_score code code)"
    using diff_score_0 diff_score_fraction(2) [of code code] ne by auto
  then have close: "score_close (bytecode_diff_score code code)" by (simp add: score_close_def)
  obtain a c where f: "find_by_deployed_code cs code = Some (a, c)"
    using find_by_code_some [of a0 c0 cs contract_deployed_bytecode, OF e close]
    by (auto simp: find_by_deployed_code_def)
  obtain d where d: "contract_deployed_bytecode c = Some d"
    "\<not> score_less (bytecode_diff_score code code) (bytecode_diff_score d code)"
    using find_by_code_entry [OF f [unfolded find_by_deployed_code_def]] e close by metis
  then have "fst (bytecode_diff_score d code) = 0" using z by (simp add: score_less_def)
  then have "d = code" using diff_score_0 by blast
  then show "\<exists>a c. find_by_deployed_code cs code = Some (a, c) \<and> contract_deployed_bytecode c = Some code"
    using f d(1) by blast
qed

definition plain_contract :: "string \<Rightarrow> u8 list \<Rightarrow> contract_data" where
  "plain_contract nm bs =
     \<lparr>co_name = nm, co_abi = \<lparr>ja_functions = fmempty\<rparr>, co_bytecode = None,
      co_deployed_bytecode =
        Some \<lparr>bd_object = Some (Bytecode bs), bd_link_references = [], bd_immutable_references = []\<rparr>\<rparr>"

theorem find_by_deployed_code_best_witness:
  "\<exists>a c. find_by_deployed_code
           [(\<lparr>ai_name = ''A'', ai_identifier = ''a.sol:A''\<rparr>, plain_contract ''A'' [1, 2, 3, 4, 5, 6, 7, 8, 9, 10]),
            (\<lparr>ai_name = ''B'', ai_identifier = ''b.sol:B''\<rparr>, plain_contract ''B'' [1, 2, 3, 4, 5, 6, 7, 8, 9, 11])]
           [1, 2, 3, 4, 5, 6, 7, 8, 9, 11] = Some (a, c) \<and>
         contract_deployed_bytecode c = Some [1, 2, 3, 4, 5, 6, 7, 8, 9, 11]"
proof -
  have "contract_deployed_bytecode (plain_contract nm (b # bs)) = Some (b # bs)" for nm b bs
    by (simp add: contract_deployed_bytecode_def plain_contract_def bd_bytes_def present_def)
  then show ?thesis
    using find_by_deployed_code_best
      [of "[1, 2, 3, 4, 5, 6, 7, 8, 9, 11]"
          "[(\<lparr>ai_name = ''A'', ai_identifier = ''a.sol:A''\<rparr>, plain_contract ''A'' [1, 2, 3, 4, 5, 6, 7, 8, 9, 10]),
            (\<lparr>ai_name = ''B'', ai_identifier = ''b.sol:B''\<rparr>, plain_contract ''B'' [1, 2, 3, 4, 5, 6, 7, 8, 9, 11])]"]
    by simp
qed


definition library_data :: bytecode_data where
  "library_data =
     \<lparr>bd_object = Some (Bytecode (CALL_PROTECTION_BYTECODE_PREFIX @ [1, 2, 3, 4])),
      bd_link_references = [], bd_immutable_references = [[\<lparr>of_start = 22, of_length = 1\<rparr>]]\<rparr>"

definition library_contract :: contract_data where
  "library_contract =
     \<lparr>co_name = ''Lib'', co_abi = \<lparr>ja_functions = fmempty\<rparr>, co_bytecode = None,
      co_deployed_bytecode = Some library_data\<rparr>"


end
