(* ===== verification/Invariant_Shrink.thy ===== *)
theory Invariant_Shrink
  imports Prelude "HOL-Library.Sublist"
begin

text \<open>
  Replaying and shrinking a failed call sequence of an invariant test:
  \<^verbatim>\<open>crates/evm/evm/src/executors/invariant/shrink.rs\<close> and the part of
  \<^verbatim>\<open>crates/evm/evm/src/executors/mod.rs\<close> it runs on.

  \<^item> \<open>executor\<close> is the \<^verbatim>\<open>Executor\<close>; the interpreter (revm behind \<^verbatim>\<open>Backend::inspect\<close>), the database
    commit, the \<^verbatim>\<open>failed()\<close> call of the test contract and the updates of the cheatcode state are
    the fields of the record \<open>vm\<close>. \<open>call_raw\<close> and \<open>transact_raw\<close> differ as in the source: the
    second one commits.
  \<^item> \<open>is_success_raw\<close>, \<open>is_success\<close>, \<open>is_raw_call_success\<close> decide whether a call of the test contract
    succeeded, \<open>check_sequence\<close> applies the selected calls and asserts the invariant.
  \<^item> \<open>call_sequence_shrinker\<close> with \<open>simplify_calls\<close> and \<open>complicate_calls\<close> is
    \<^verbatim>\<open>CallSequenceShrinker\<close>; its \<^verbatim>\<open>VarBitSet\<close> is a finite set of call indices. \<open>shrink_sequence\<close> is
    the loop bounded by \<^verbatim>\<open>shrink_run_limit\<close>.

  The lemmas show that a shrunk sequence reproduces the failure when the limit exceeds the number
  of calls, that it is then minimal for a monotone failure, and that a limit equal to the number of
  calls is one too small.
\<close>

section \<open>Executor\<close>

text \<open>\<^verbatim>\<open>evm/core/src/constants.rs\<close>.\<close>

definition CHEATCODE_ADDRESS :: address where
  "CHEATCODE_ADDRESS = 0x7109709ECfa91a80626fF3989D68f67F5b1DD12D"

definition CALLER :: address where
  "CALLER = 0x1804c8AB1F12E6bbf3894d4083f33e07309d1f38"

text \<open>The fields of \<^verbatim>\<open>RawCallResult\<close> that the invariant executor reads.\<close>

record ('c, 'v, 'cs) raw_call_result =
  rc_reverted :: bool
  rc_snapshot_failure :: bool
  rc_result :: "u8 list"
  rc_gas_used :: u64
  rc_stipend :: u64
  rc_changeset :: 'cs
  rc_env :: 'v
  rc_cheatcodes :: "'c option"

record ('b, 'c) executor =
  ex_backend :: 'b
  ex_cheatcodes :: "'c option"

text \<open>
  The code outside the sources. \<open>vm_inspect\<close> runs a transaction with the environment
  \<^verbatim>\<open>build_test_env\<close> makes for a sender, a target, calldata and the value zero, and returns the
  result and the backend it leaves; \<open>vm_failed\<close> is the answer of \<^verbatim>\<open>failed()(bool)\<close> on the bare-bones
  backend, \<open>None\<close> when that call errs; \<open>vm_changed\<close> lists the accounts of a changeset in the order
  of its hash map, with the touched flag and the code.
\<close>

record ('b, 'c, 'v, 'cs) vm =
  vm_inspect :: "('b, 'c) executor \<Rightarrow> address \<Rightarrow> address \<Rightarrow> u8 list \<Rightarrow>
    (string, ('c, 'v, 'cs) raw_call_result \<times> 'b) result"
  vm_has_snapshot_failure :: "'b \<Rightarrow> bool"
  vm_commit :: "'b \<Rightarrow> 'cs \<Rightarrow> 'b"
  vm_clear_broadcastable :: "'c \<Rightarrow> 'c"
  vm_set_env :: "'c \<Rightarrow> 'v \<Rightarrow> 'c"
  vm_basic_ok :: "'b \<Rightarrow> address \<Rightarrow> bool"
  vm_failed :: "('b, 'c) executor \<Rightarrow> address \<Rightarrow> 'cs \<Rightarrow> bool option"
  vm_changed :: "'cs \<Rightarrow> (address \<times> bool \<times> u8 list option) list"
  vm_empty_changeset :: 'cs
  vm_after_selector :: "u8 list"

text \<open>\<^verbatim>\<open>call_with_env\<close> works on a copy-on-write backend that is dropped; the snapshot flag of the result
  is read from that backend.\<close>

definition call_raw ::
  "('b, 'c, 'v, 'cs) vm \<Rightarrow> ('b, 'c) executor \<Rightarrow> address \<Rightarrow> address \<Rightarrow> u8 list \<Rightarrow>
   (string, ('c, 'v, 'cs) raw_call_result) result" where
  "call_raw vm e from to calldata =
     (case vm_inspect vm e from to calldata of
        Inl err \<Rightarrow> Inl err
      | Inr (r, b) \<Rightarrow> Inr (r\<lparr>rc_snapshot_failure := vm_has_snapshot_failure vm b\<rparr>))"

definition commit ::
  "('b, 'c, 'v, 'cs) vm \<Rightarrow> ('b, 'c) executor \<Rightarrow> ('c, 'v, 'cs) raw_call_result \<Rightarrow>
   ('c, 'v, 'cs) raw_call_result \<times> ('b, 'c) executor" where
  "commit vm e r =
     (r\<lparr>rc_cheatcodes := None\<rparr>,
      e\<lparr>ex_backend := vm_commit vm (ex_backend e) (rc_changeset r),
        ex_cheatcodes :=
          map_option (\<lambda>c. vm_set_env vm (vm_clear_broadcastable vm c) (rc_env r)) (rc_cheatcodes r)\<rparr>)"

definition transact_raw ::
  "('b, 'c, 'v, 'cs) vm \<Rightarrow> ('b, 'c) executor \<Rightarrow> address \<Rightarrow> address \<Rightarrow> u8 list \<Rightarrow>
   (string, ('c, 'v, 'cs) raw_call_result \<times> ('b, 'c) executor) result" where
  "transact_raw vm e from to calldata =
     (case vm_inspect vm e from to calldata of
        Inl err \<Rightarrow> Inl err
      | Inr (r, b) \<Rightarrow>
          Inr (commit vm (e\<lparr>ex_backend := b\<rparr>)
                 (r\<lparr>rc_snapshot_failure := vm_has_snapshot_failure vm b\<rparr>)))"

definition is_success_raw ::
  "('b, 'c, 'v, 'cs) vm \<Rightarrow> ('b, 'c) executor \<Rightarrow> address \<Rightarrow> bool \<Rightarrow> 'cs \<Rightarrow> bool" where
  "is_success_raw vm e addr reverted cs =
     (if vm_has_snapshot_failure vm (ex_backend e) then False
      else if reverted then False
      else if \<not> list_all (vm_basic_ok vm (ex_backend e)) [addr, CHEATCODE_ADDRESS] then False
      else (case vm_failed vm e addr cs of Some failed \<Rightarrow> \<not> failed | None \<Rightarrow> True))"

definition is_success ::
  "('b, 'c, 'v, 'cs) vm \<Rightarrow> ('b, 'c) executor \<Rightarrow> address \<Rightarrow> bool \<Rightarrow> 'cs \<Rightarrow> bool \<Rightarrow> bool" where
  "is_success vm e addr reverted cs should_fail =
     (should_fail \<noteq> is_success_raw vm e addr reverted cs)"

definition is_raw_call_success ::
  "('b, 'c, 'v, 'cs) vm \<Rightarrow> ('b, 'c) executor \<Rightarrow> address \<Rightarrow> 'cs \<Rightarrow>
   ('c, 'v, 'cs) raw_call_result \<Rightarrow> bool \<Rightarrow> bool" where
  "is_raw_call_success vm e addr cs r should_fail =
     (if rc_snapshot_failure r then should_fail
      else is_success vm e addr (rc_reverted r) cs should_fail)"

text \<open>\<^verbatim>\<open>std::mem::take\<close> leaves an empty changeset in the call result.\<close>

definition is_raw_call_mut_success ::
  "('b, 'c, 'v, 'cs) vm \<Rightarrow> ('b, 'c) executor \<Rightarrow> address \<Rightarrow> ('c, 'v, 'cs) raw_call_result \<Rightarrow> bool \<Rightarrow>
   bool \<times> ('c, 'v, 'cs) raw_call_result" where
  "is_raw_call_mut_success vm e addr r should_fail =
     (let r' = r\<lparr>rc_changeset := vm_empty_changeset vm\<rparr>
      in (is_raw_call_success vm e addr (rc_changeset r) r' should_fail, r'))"

section \<open>Checking a call sequence\<close>

record call_details =
  cd_target :: address
  cd_calldata :: "u8 list"

record basic_tx_details =
  bt_sender :: address
  bt_call_details :: call_details

definition call_invariant_function ::
  "('b, 'c, 'v, 'cs) vm \<Rightarrow> ('b, 'c) executor \<Rightarrow> address \<Rightarrow> u8 list \<Rightarrow>
   (string, ('c, 'v, 'cs) raw_call_result \<times> bool) result" where
  "call_invariant_function vm e addr calldata =
     (case call_raw vm e CALLER addr calldata of
        Inl err \<Rightarrow> Inl err
      | Inr r \<Rightarrow> (let (success, r') = is_raw_call_mut_success vm e addr r False in Inr (r', success)))"

definition call_after_invariant_function ::
  "('b, 'c, 'v, 'cs) vm \<Rightarrow> ('b, 'c) executor \<Rightarrow> address \<Rightarrow>
   (string, ('c, 'v, 'cs) raw_call_result \<times> bool) result" where
  "call_after_invariant_function vm e addr =
     (case call_raw vm e CALLER addr (vm_after_selector vm) of
        Inl err \<Rightarrow> Inl err
      | Inr r \<Rightarrow> (let (success, r') = is_raw_call_mut_success vm e addr r False in Inr (r', success)))"

definition send_call ::
  "('b, 'c, 'v, 'cs) vm \<Rightarrow> ('b, 'c) executor \<Rightarrow> basic_tx_details \<Rightarrow>
   (string, ('c, 'v, 'cs) raw_call_result \<times> ('b, 'c) executor) result" where
  "send_call vm e tx =
     transact_raw vm e (bt_sender tx) (cd_target (bt_call_details tx)) (cd_calldata (bt_call_details tx))"

text \<open>The tail of \<^verbatim>\<open>check_sequence\<close>: the invariant, then \<^verbatim>\<open>afterInvariant\<close>.\<close>

definition check_invariant ::
  "('b, 'c, 'v, 'cs) vm \<Rightarrow> ('b, 'c) executor \<Rightarrow> address \<Rightarrow> u8 list \<Rightarrow> bool \<Rightarrow> (string, bool) result" where
  "check_invariant vm e addr calldata call_after =
     (case call_invariant_function vm e addr calldata of
        Inl err \<Rightarrow> Inl err
      | Inr (_, success) \<Rightarrow>
          if success \<and> call_after
          then map_sum id snd (call_after_invariant_function vm e addr)
          else Inr success)"

text \<open>An index outside \<^verbatim>\<open>calls\<close> panics: the outer \<open>None\<close>.\<close>

fun check_sequence ::
  "('b, 'c, 'v, 'cs) vm \<Rightarrow> ('b, 'c) executor \<Rightarrow> basic_tx_details list \<Rightarrow> nat list \<Rightarrow> address \<Rightarrow>
   u8 list \<Rightarrow> bool \<Rightarrow> bool \<Rightarrow> (string, bool \<times> bool) result option" where
  "check_sequence vm e calls [] addr calldata fail_on_revert call_after =
     Some (map_sum id (\<lambda>success. (success, True)) (check_invariant vm e addr calldata call_after))"
| "check_sequence vm e calls (i # is) addr calldata fail_on_revert call_after =
     (if i < length calls then
        (case send_call vm e (calls ! i) of
           Inl err \<Rightarrow> Some (Inl err)
         | Inr (r, e') \<Rightarrow>
             if rc_reverted r \<and> fail_on_revert then Some (Inr (False, False))
             else check_sequence vm e' calls is addr calldata fail_on_revert call_after)
      else None)"

section \<open>Shrinking\<close>

record call_sequence_shrinker =
  sh_len :: nat
  sh_included :: "nat fset"
  sh_shrink :: nat
  sh_prev :: "nat option"

definition shrinker_new :: "nat \<Rightarrow> call_sequence_shrinker" where
  "shrinker_new n = \<lparr>sh_len = n, sh_included = fset_of_list [0..<n], sh_shrink = 0, sh_prev = None\<rparr>"

definition shrinker_current :: "call_sequence_shrinker \<Rightarrow> nat list" where
  "shrinker_current s = filter (\<lambda>i. i |\<in>| sh_included s) [0..<sh_len s]"

definition simplify_calls :: "call_sequence_shrinker \<Rightarrow> bool \<times> call_sequence_shrinker" where
  "simplify_calls s =
     (if sh_len s \<le> sh_shrink s then (False, s)
      else (True, s\<lparr>sh_included := sh_included s |-| {|sh_shrink s|}, sh_prev := Some (sh_shrink s),
                    sh_shrink := sh_shrink s + 1\<rparr>))"

definition complicate_calls :: "call_sequence_shrinker \<Rightarrow> bool \<times> call_sequence_shrinker" where
  "complicate_calls s =
     (case sh_prev s of
        Some i \<Rightarrow> simplify_calls (s\<lparr>sh_included := finsert i (sh_included s), sh_prev := None\<rparr>)
      | None \<Rightarrow> (False, s))"

text \<open>The loop of \<^verbatim>\<open>shrink_sequence\<close>, with the remaining iterations as first argument; \<open>chk\<close> is the call
  of \<^verbatim>\<open>check_sequence\<close> on a candidate. The match guards call \<^verbatim>\<open>simplify\<close> and \<^verbatim>\<open>complicate\<close>.\<close>

fun shrink_loop ::
  "nat \<Rightarrow> (nat list \<Rightarrow> (string, bool \<times> bool) result option) \<Rightarrow> call_sequence_shrinker \<Rightarrow>
   call_sequence_shrinker option" where
  "shrink_loop 0 chk s = Some s"
| "shrink_loop (Suc n) chk s =
     (case chk (shrinker_current s) of
        None \<Rightarrow> None
      | Some (Inl _) \<Rightarrow> shrink_loop n chk s
      | Some (Inr (success, _)) \<Rightarrow>
          (let (go_on, s') = (if success then complicate_calls s else simplify_calls s)
           in if go_on then shrink_loop n chk s' else Some s'))"

text \<open>The fields of \<^verbatim>\<open>FailedInvariantCaseData\<close> that shrinking and replaying read.\<close>

record failed_case =
  fc_calls :: "basic_tx_details list"
  fc_addr :: address
  fc_calldata :: "u8 list"
  fc_shrink_run_limit :: u32
  fc_fail_on_revert :: bool

definition shrink_sequence ::
  "('b, 'c, 'v, 'cs) vm \<Rightarrow> failed_case \<Rightarrow> basic_tx_details list \<Rightarrow> ('b, 'c) executor \<Rightarrow> bool \<Rightarrow>
   (string, basic_tx_details list) result option" where
  "shrink_sequence vm fc calls e call_after =
     (case call_invariant_function vm e (fc_addr fc) (fc_calldata fc) of
        Inl err \<Rightarrow> Some (Inl err)
      | Inr (_, success) \<Rightarrow>
          if \<not> success then Some (Inr [])
          else map_option (\<lambda>s. Inr (map (nth calls) (shrinker_current s)))
                 (shrink_loop (unat (fc_shrink_run_limit fc))
                    (\<lambda>candidate. check_sequence vm e calls candidate (fc_addr fc) (fc_calldata fc)
                                   (fc_fail_on_revert fc) call_after)
                    (shrinker_new (length calls))))"

section \<open>The shrinking loop\<close>

text \<open>
  \<open>kept s\<close> is the selection the loop knows to fail: the candidate plus the call it removed last.
  \<open>shrink_inv\<close> says so, \<open>shrink_min\<close> adds that no call decided before was removable.
\<close>

definition pick :: "nat \<Rightarrow> nat set \<Rightarrow> nat list" where
  "pick n K = filter (\<lambda>i. i \<in> K) [0..<n]"

definition kept :: "call_sequence_shrinker \<Rightarrow> nat set" where
  "kept s = fset (sh_included s) \<union> set_option (sh_prev s)"

definition decided :: "call_sequence_shrinker \<Rightarrow> nat" where
  "decided s = (case sh_prev s of None \<Rightarrow> sh_shrink s | Some i \<Rightarrow> i)"

definition shrink_inv :: "nat \<Rightarrow> (nat list \<Rightarrow> bool) \<Rightarrow> call_sequence_shrinker \<Rightarrow> bool" where
  "shrink_inv n fails s \<longleftrightarrow> sh_len s = n \<and> sh_shrink s \<le> n \<and> kept s \<subseteq> {..<n} \<and> fails (pick n (kept s)) \<and>
     {sh_shrink s..<n} \<subseteq> fset (sh_included s) \<and> (\<forall>i. sh_prev s = Some i \<longrightarrow> Suc i = sh_shrink s)"

definition shrink_min :: "nat \<Rightarrow> (nat list \<Rightarrow> bool) \<Rightarrow> call_sequence_shrinker \<Rightarrow> bool" where
  "shrink_min n fails s \<longleftrightarrow> (\<forall>i. sh_prev s = Some i \<longrightarrow> i |\<notin>| sh_included s) \<and>
     (\<forall>j \<in> kept s. j < decided s \<longrightarrow> \<not> fails (pick n (kept s - {j})))"

definition checks :: "nat \<Rightarrow> (nat list \<Rightarrow> (string, bool \<times> bool) result option) \<Rightarrow> (nat list \<Rightarrow> bool) \<Rightarrow> bool" where
  "checks n chk fails \<longleftrightarrow> (\<forall>K. \<exists>b. chk (pick n K) = Some (Inr (\<not> fails (pick n K), b)))"

definition monotone_failure :: "nat \<Rightarrow> (nat list \<Rightarrow> bool) \<Rightarrow> bool" where
  "monotone_failure n fails \<longleftrightarrow> (\<forall>K L. K \<subseteq> L \<longrightarrow> fails (pick n K) \<longrightarrow> fails (pick n L))"

lemma shrinker_current_pick: "shrinker_current s = pick (sh_len s) (fset (sh_included s))"
  by (simp add: shrinker_current_def pick_def)

lemma checksD: "checks n chk fails \<Longrightarrow> \<exists>b. chk (pick n K) = Some (Inr (\<not> fails (pick n K), b))"
  by (simp add: checks_def)

lemma simplify_more:
  assumes "simplify_calls s = (True, s')" "shrink_inv n fails s" "fails (pick n (fset (sh_included s)))"
  shows "shrink_inv n fails s'" "sh_shrink s' = Suc (sh_shrink s)" "sh_shrink s < n"
    "kept s' = fset (sh_included s)" "decided s' = sh_shrink s"
proof -
  from assms(1,2) have lt: "sh_shrink s < n"
    and s': "s' = s\<lparr>sh_included := sh_included s |-| {|sh_shrink s|}, sh_prev := Some (sh_shrink s),
                    sh_shrink := sh_shrink s + 1\<rparr>"
    by (auto simp: simplify_calls_def shrink_inv_def split: if_splits)
  have k: "sh_shrink s \<in> fset (sh_included s)"
    using assms(2) lt by (auto simp: shrink_inv_def)
  show "sh_shrink s < n" by (rule lt)
  show "sh_shrink s' = Suc (sh_shrink s)" "decided s' = sh_shrink s"
    by (simp_all add: s' decided_def)
  show kept': "kept s' = fset (sh_included s)"
    using k by (auto simp: s' kept_def)
  have len: "sh_len s' = n" and rest: "{sh_shrink s'..<n} \<subseteq> fset (sh_included s')"
    and prev: "sh_prev s' = Some (sh_shrink s)"
    using assms(2) by (auto simp: s' shrink_inv_def)
  have "fset (sh_included s) \<subseteq> {..<n}"
    using assms(2) by (auto simp: shrink_inv_def kept_def)
  then show "shrink_inv n fails s'"
    unfolding shrink_inv_def kept' using assms(3) lt len rest prev by (simp add: s')
qed

lemma simplify_stop:
  "simplify_calls s = (False, s') \<Longrightarrow> s' = s \<and> sh_len s \<le> sh_shrink s"
  by (simp add: simplify_calls_def split: if_splits)

text \<open>Putting the removed call back.\<close>

definition restored :: "call_sequence_shrinker \<Rightarrow> nat \<Rightarrow> call_sequence_shrinker" where
  "restored s i = s\<lparr>sh_included := finsert i (sh_included s), sh_prev := None\<rparr>"

lemma complicate_restored: "sh_prev s = Some i \<Longrightarrow> complicate_calls s = simplify_calls (restored s i)"
  by (simp add: complicate_calls_def restored_def)

lemma restored_inv:
  assumes "sh_prev s = Some i" "shrink_inv n fails s"
  shows "shrink_inv n fails (restored s i)" "fset (sh_included (restored s i)) = kept s"
    "kept (restored s i) = kept s" "sh_shrink (restored s i) = sh_shrink s" "sh_len (restored s i) = n"
proof -
  show k: "fset (sh_included (restored s i)) = kept s" "kept (restored s i) = kept s"
    "sh_shrink (restored s i) = sh_shrink s" "sh_len (restored s i) = n"
    using assms by (auto simp: restored_def kept_def shrink_inv_def)
  show "shrink_inv n fails (restored s i)"
    using assms k by (auto simp: shrink_inv_def restored_def kept_def)
qed

text \<open>One iteration of the loop on a state that satisfies the invariant.\<close>

lemma shrink_iteration:
  assumes "shrink_inv n fails s"
    and "(if fails (shrinker_current s) then simplify_calls s else complicate_calls s) = (go_on, s')"
  shows "go_on \<Longrightarrow> shrink_inv n fails s' \<and> sh_shrink s' = Suc (sh_shrink s) \<and> sh_shrink s < n"
    and "\<not> go_on \<Longrightarrow> sh_len s' = n \<and> fset (sh_included s') \<subseteq> {..<n} \<and> fails (pick n (fset (sh_included s')))"
proof -
  have len: "sh_len s = n" and cur: "shrinker_current s = pick n (fset (sh_included s))"
    using assms(1) by (simp_all add: shrink_inv_def shrinker_current_pick)
  have prev: "\<exists>i. sh_prev s = Some i" if "\<not> fails (shrinker_current s)"
    using assms(1) that cur by (cases "sh_prev s") (auto simp: shrink_inv_def kept_def)
  show "go_on \<Longrightarrow> shrink_inv n fails s' \<and> sh_shrink s' = Suc (sh_shrink s) \<and> sh_shrink s < n"
  proof (cases "fails (shrinker_current s)")
    case True
    moreover assume go_on
    ultimately show ?thesis using assms simplify_more [of s s' n fails] cur by simp
  next
    case False
    moreover assume go_on
    moreover obtain i where i: "sh_prev s = Some i" using prev False by blast
    moreover have "fails (pick n (kept s))" using assms(1) by (simp add: shrink_inv_def)
    ultimately show ?thesis
      using assms restored_inv [OF i assms(1)] simplify_more [of "restored s i" s' n fails] complicate_restored [OF i]
      by simp
  qed
  show "\<not> go_on \<Longrightarrow> sh_len s' = n \<and> fset (sh_included s') \<subseteq> {..<n} \<and> fails (pick n (fset (sh_included s')))"
  proof (cases "fails (shrinker_current s)")
    case True
    moreover assume "\<not> go_on"
    ultimately have "s' = s" using assms simplify_stop [of s s'] by simp
    then show ?thesis using True cur len assms(1) by (auto simp: shrink_inv_def kept_def)
  next
    case False
    moreover assume "\<not> go_on"
    moreover obtain i where i: "sh_prev s = Some i" using prev False by blast
    ultimately have "s' = restored s i"
      using assms(2) complicate_restored [OF i] simplify_stop [of "restored s i" s'] by simp
    then show ?thesis using restored_inv [OF i assms(1)] assms(1) by (simp add: shrink_inv_def)
  qed
qed

lemma shrink_loop_step:
  assumes "checks n chk fails" "sh_len s = n"
    and "(if fails (shrinker_current s) then simplify_calls s else complicate_calls s) = (go_on, s')"
  shows "shrink_loop (Suc k) chk s = (if go_on then shrink_loop k chk s' else Some s')"
proof -
  obtain b where "chk (shrinker_current s) = Some (Inr (\<not> fails (shrinker_current s), b))"
    using checksD [OF assms(1)] assms(2) by (metis shrinker_current_pick)
  then show ?thesis using assms(3) by (simp split: if_splits)
qed

lemma shrink_loop_fails:
  assumes "checks n chk fails" "shrink_inv n fails s" "n - sh_shrink s < k"
  shows "\<exists>s'. shrink_loop k chk s = Some s' \<and> sh_len s' = n \<and> fset (sh_included s') \<subseteq> {..<n} \<and>
              fails (pick n (fset (sh_included s')))"
  using assms(2,3)
proof (induction k arbitrary: s)
  case (Suc k)
  obtain go_on s' where m: "(if fails (shrinker_current s) then simplify_calls s else complicate_calls s) = (go_on, s')"
    by fastforce
  have len: "sh_len s = n" using Suc.prems(1) by (simp add: shrink_inv_def)
  note it = shrink_iteration [OF Suc.prems(1) m]
  show ?case
  proof (cases go_on)
    case True
    then show ?thesis
      using it(1) Suc.IH [of s'] Suc.prems(2) shrink_loop_step [OF assms(1) len m] by auto
  qed (use it(2) shrink_loop_step [OF assms(1) len m] in auto)
qed simp

text \<open>The selection that is known to fail after the check of the current candidate.\<close>

definition narrowed :: "(nat list \<Rightarrow> bool) \<Rightarrow> call_sequence_shrinker \<Rightarrow> nat set" where
  "narrowed fails s = (if fails (shrinker_current s) then fset (sh_included s) else kept s)"

lemma narrowed_min:
  assumes "monotone_failure n fails" "shrink_inv n fails s" "shrink_min n fails s"
    and "j \<in> narrowed fails s" "j < sh_shrink s"
  shows "\<not> fails (pick n (narrowed fails s - {j}))"
proof (cases "j < decided s")
  case True
  have "j \<in> kept s" "narrowed fails s \<subseteq> kept s"
    using assms(4) by (auto simp: narrowed_def kept_def split: if_splits)
  then have "\<not> fails (pick n (kept s - {j}))" "narrowed fails s - {j} \<subseteq> kept s - {j}"
    using assms(3) True by (auto simp: shrink_min_def)
  then show ?thesis using assms(1) by (auto simp: monotone_failure_def)
next
  case False
  then obtain i where i: "sh_prev s = Some i"
    using assms(5) by (cases "sh_prev s") (auto simp: decided_def)
  then have j: "j = i" using False assms(2,5) by (auto simp: decided_def shrink_inv_def)
  have out: "i |\<notin>| sh_included s" using assms(3) i by (simp add: shrink_min_def)
  then have "\<not> fails (shrinker_current s)" using assms(4) j by (auto simp: narrowed_def)
  moreover have "kept s - {i} = fset (sh_included s)" using i out by (auto simp: kept_def)
  ultimately show ?thesis
    using assms(2) j by (simp add: narrowed_def shrinker_current_pick shrink_inv_def)
qed

lemma narrowed_next:
  assumes "shrink_inv n fails s"
    and "(if fails (shrinker_current s) then simplify_calls s else complicate_calls s) = (go_on, s')"
  shows "go_on \<Longrightarrow> kept s' = narrowed fails s \<and> decided s' = sh_shrink s \<and>
           (\<forall>i. sh_prev s' = Some i \<longrightarrow> i |\<notin>| sh_included s')"
    and "\<not> go_on \<Longrightarrow> fset (sh_included s') = narrowed fails s \<and> n \<le> sh_shrink s"
proof -
  have cur: "shrinker_current s = pick n (fset (sh_included s))" and len: "sh_len s = n"
    and f: "fails (pick n (kept s))"
    using assms(1) by (simp_all add: shrink_inv_def shrinker_current_pick)
  have prev: "\<exists>i. sh_prev s = Some i" if "\<not> fails (shrinker_current s)"
    using that cur f by (cases "sh_prev s") (auto simp: kept_def)
  have out: "simplify_calls t = (True, t') \<Longrightarrow> \<forall>i. sh_prev t' = Some i \<longrightarrow> i |\<notin>| sh_included t'" for t t'
    by (auto simp: simplify_calls_def split: if_splits)
  show "go_on \<Longrightarrow> kept s' = narrowed fails s \<and> decided s' = sh_shrink s \<and>
           (\<forall>i. sh_prev s' = Some i \<longrightarrow> i |\<notin>| sh_included s')"
  proof (cases "fails (shrinker_current s)")
    case True
    moreover assume go_on
    ultimately show ?thesis
      using assms simplify_more [of s s' n fails] cur out [of s s'] by (simp add: narrowed_def)
  next
    case False
    moreover assume go_on
    moreover obtain i where i: "sh_prev s = Some i" using prev False by blast
    ultimately show ?thesis
      using assms restored_inv [OF i assms(1)] simplify_more [of "restored s i" s' n fails]
        complicate_restored [OF i] out [of "restored s i" s'] f
      by (simp add: narrowed_def)
  qed
  show "\<not> go_on \<Longrightarrow> fset (sh_included s') = narrowed fails s \<and> n \<le> sh_shrink s"
  proof (cases "fails (shrinker_current s)")
    case True
    moreover assume "\<not> go_on"
    ultimately show ?thesis using assms simplify_stop [of s s'] len by (simp add: narrowed_def)
  next
    case False
    moreover assume "\<not> go_on"
    moreover obtain i where i: "sh_prev s = Some i" using prev False by blast
    ultimately show ?thesis
      using assms(2) complicate_restored [OF i] simplify_stop [of "restored s i" s']
        restored_inv [OF i assms(1)]
      by (simp add: narrowed_def)
  qed
qed

lemma shrink_loop_minimal:
  assumes "checks n chk fails" "monotone_failure n fails" "shrink_inv n fails s" "shrink_min n fails s"
    and "n - sh_shrink s < k" "shrink_loop k chk s = Some s'" "j |\<in>| sh_included s'"
  shows "\<not> fails (pick n (fset (sh_included s') - {j}))"
  using assms(3-6)
proof (induction k arbitrary: s)
  case (Suc k)
  obtain go_on t where m: "(if fails (shrinker_current s) then simplify_calls s else complicate_calls s) = (go_on, t)"
    by fastforce
  have len: "sh_len s = n" using Suc.prems(1) by (simp add: shrink_inv_def)
  note it = shrink_iteration [OF Suc.prems(1) m]
  note nx = narrowed_next [OF Suc.prems(1) m]
  note mn = narrowed_min [OF assms(2) Suc.prems(1,2)]
  show ?case
  proof (cases go_on)
    case True
    then have "shrink_min n fails t" using nx(1) mn by (simp add: shrink_min_def)
    moreover have "shrink_loop k chk t = Some s'" "n - sh_shrink t < k"
      using True it(1) Suc.prems(3,4) shrink_loop_step [OF assms(1) len m] by auto
    ultimately show ?thesis using it(1) Suc.IH [of t] True by simp
  next
    case False
    then have t: "t = s'" using Suc.prems(4) shrink_loop_step [OF assms(1) len m] by simp
    have "j < n" using it(2) False assms(7) t by auto
    then show ?thesis using nx(2) False mn [of j] assms(7) t by simp
  qed
qed simp

section \<open>Selections of calls\<close>

text \<open>Checking a selection of indices is checking the selected calls.\<close>

lemma check_sequence_map:
  assumes "set is \<subseteq> {..<length calls}"
  shows "check_sequence vm e calls is addr cd fr ca =
         check_sequence vm e (ps @ map (nth calls) is) [length ps..<length ps + length is] addr cd fr ca"
  using assms
proof (induction "is" arbitrary: e ps)
  case (Cons i "is")
  let ?xs = "ps @ map (nth calls) (i # is)"
  have upt: "[length ps..<length ps + length (i # is)] = length ps # [Suc (length ps)..<Suc (length ps) + length is]"
    using upt_conv_Cons [of "length ps" "length ps + length (i # is)"] by (simp del: upt_Suc)
  have IH: "check_sequence vm e' calls is addr cd fr ca =
        check_sequence vm e' ?xs [Suc (length ps)..<Suc (length ps) + length is] addr cd fr ca" for e'
    using Cons.IH [of e' "ps @ [calls ! i]"] Cons.prems by simp
  show ?case
    unfolding upt check_sequence.simps IH using Cons.prems by (simp add: nth_append)
qed simp

text \<open>The verdict on a whole sequence of calls: \<open>Some (Inr False)\<close> when it breaks the invariant.\<close>

definition verdict ::
  "('b, 'c, 'v, 'cs) vm \<Rightarrow> failed_case \<Rightarrow> ('b, 'c) executor \<Rightarrow> bool \<Rightarrow> basic_tx_details list \<Rightarrow>
   (string, bool) result option" where
  "verdict vm fc e call_after calls =
     map_option (map_sum id fst)
       (check_sequence vm e calls [0..<length calls] (fc_addr fc) (fc_calldata fc)
          (fc_fail_on_revert fc) call_after)"

definition breaks where
  "breaks vm fc e call_after calls \<longleftrightarrow> verdict vm fc e call_after calls = Some (Inr False)"

lemma set_pick: "set (pick n K) = {i. i < n \<and> i \<in> K}"
  by (auto simp: pick_def)

lemma pick_all: "{..<n} \<subseteq> K \<Longrightarrow> pick n K = [0..<n]"
  by (auto simp: pick_def filter_id_conv)

lemma subseq_pick: "subseq (map (nth calls) (pick (length calls) K)) calls"
proof -
  have "subseq (map (nth calls) (pick (length calls) K)) (map (nth calls) [0..<length calls])"
    unfolding pick_def by (intro subseq_map subseq_filter_left)
  then show ?thesis by (simp add: map_nth)
qed

lemma check_pick:
  "check_sequence vm e calls (pick (length calls) K) addr cd fr ca =
   check_sequence vm e (map (nth calls) (pick (length calls) K)) [0..<length (pick (length calls) K)] addr cd fr ca"
  using check_sequence_map [of "pick (length calls) K" calls vm e addr cd fr ca "[]"] set_pick [of "length calls" K]
  by auto

text \<open>The call of \<^verbatim>\<open>check_sequence\<close> in the loop decides \<open>breaks\<close> as long as no call errs.\<close>

lemma checks_sequence:
  assumes "\<And>xs. subseq xs calls \<Longrightarrow> \<exists>ok. verdict vm fc e call_after xs = Some (Inr ok)"
  shows "checks (length calls)
           (\<lambda>candidate. check_sequence vm e calls candidate (fc_addr fc) (fc_calldata fc)
                          (fc_fail_on_revert fc) call_after)
           (\<lambda>is. breaks vm fc e call_after (map (nth calls) is))"
  unfolding checks_def
proof
  fix K
  let ?xs = "map (nth calls) (pick (length calls) K)"
  let ?c = "check_sequence vm e ?xs [0..<length ?xs] (fc_addr fc) (fc_calldata fc) (fc_fail_on_revert fc) call_after"
  obtain ok where ok: "verdict vm fc e call_after ?xs = Some (Inr ok)"
    using assms subseq_pick by blast
  then obtain b where "?c = Some (Inr (ok, b))"
    by (cases ?c) (auto simp: verdict_def map_sum_def split: sum.splits)
  moreover have "ok = (\<not> breaks vm fc e call_after ?xs)" using ok by (simp add: breaks_def)
  ultimately show "\<exists>b. check_sequence vm e calls (pick (length calls) K) (fc_addr fc) (fc_calldata fc)
         (fc_fail_on_revert fc) call_after = Some (Inr (\<not> breaks vm fc e call_after ?xs, b))"
    by (auto simp: check_pick)
qed

lemma shrinker_new_inv:
  assumes "fails [0..<n]"
  shows "shrink_inv n fails (shrinker_new n)" "shrink_min n fails (shrinker_new n)"
    "sh_shrink (shrinker_new n) = 0"
  using assms pick_all [of n "{0..<n}"]
  by (auto simp: shrink_inv_def shrink_min_def shrinker_new_def kept_def decided_def fset_of_list.rep_eq lessThan_atLeast0)

lemma pick_mono: "K \<subseteq> L \<Longrightarrow> subseq (pick n K) (pick n L)"
proof -
  assume "K \<subseteq> L"
  then have "pick n K = filter (\<lambda>i. i \<in> K) (pick n L)"
    by (auto simp: pick_def intro: filter_cong)
  then show ?thesis by (metis subseq_filter_left)
qed

lemma pick_remove:
  assumes "k < length (pick n K)"
  shows "pick n (K - {pick n K ! k}) = take k (pick n K) @ drop (Suc k) (pick n K)"
proof -
  let ?p = "pick n K"
  have d: "distinct ?p" by (simp add: pick_def)
  have split: "?p = take k ?p @ ?p ! k # drop (Suc k) ?p" using assms by (rule id_take_nth_drop)
  have "pick n (K - {?p ! k}) = filter (\<lambda>i. i \<noteq> ?p ! k) ?p"
    by (auto simp: pick_def intro: filter_cong)
  also have "\<dots> = filter (\<lambda>i. i \<noteq> ?p ! k) (take k ?p @ ?p ! k # drop (Suc k) ?p)"
    using split by (rule arg_cong)
  also have "\<dots> = take k ?p @ drop (Suc k) ?p"
  proof -
    have "distinct (take k ?p @ ?p ! k # drop (Suc k) ?p)" using d split by metis
    then have "?p ! k \<notin> set (take k ?p)" "?p ! k \<notin> set (drop (Suc k) ?p)" by auto
    then have "filter (\<lambda>i. i \<noteq> ?p ! k) (take k ?p) = take k ?p"
      "filter (\<lambda>i. i \<noteq> ?p ! k) (drop (Suc k) ?p) = drop (Suc k) ?p"
      by (metis (mono_tags, lifting) filter_id_conv)+
    then show ?thesis by simp
  qed
  finally show ?thesis .
qed

lemma monotone_breaks:
  assumes "\<And>xs ys. subseq xs ys \<Longrightarrow> subseq ys calls \<Longrightarrow> breaks vm fc e ca xs \<Longrightarrow> breaks vm fc e ca ys"
  shows "monotone_failure (length calls) (\<lambda>is. breaks vm fc e ca (map (nth calls) is))"
  unfolding monotone_failure_def
proof (intro allI impI)
  fix K L :: "nat set"
  assume "K \<subseteq> L" "breaks vm fc e ca (map (nth calls) (pick (length calls) K))"
  then show "breaks vm fc e ca (map (nth calls) (pick (length calls) L))"
    by (intro assms [OF _ subseq_pick]) (auto intro: subseq_map pick_mono)
qed

lemma verdict_empty:
  assumes "verdict vm fc e ca [] = Some (Inr ok)"
  obtains r success where "call_invariant_function vm e (fc_addr fc) (fc_calldata fc) = Inr (r, success)"
    "\<not> success \<Longrightarrow> \<not> ok"
proof -
  have c: "check_invariant vm e (fc_addr fc) (fc_calldata fc) ca = Inr ok"
    using assms
    by (cases "check_invariant vm e (fc_addr fc) (fc_calldata fc) ca") (simp_all add: verdict_def)
  show ?thesis
  proof (cases "call_invariant_function vm e (fc_addr fc) (fc_calldata fc)")
    case (Inl err)
    then show ?thesis using c by (simp add: check_invariant_def)
  next
    case (Inr rs)
    then show ?thesis using that [of "fst rs" "snd rs"] c by (cases rs) (simp add: check_invariant_def split: if_splits)
  qed
qed

lemma shrink_sequence_loop:
  assumes "call_invariant_function vm e (fc_addr fc) (fc_calldata fc) = Inr (r, True)"
    and "shrink_loop (unat (fc_shrink_run_limit fc))
           (\<lambda>candidate. check_sequence vm e calls candidate (fc_addr fc) (fc_calldata fc)
                          (fc_fail_on_revert fc) call_after)
           (shrinker_new (length calls)) = Some s" "sh_len s = length calls"
  shows "shrink_sequence vm fc calls e call_after =
           Some (Inr (map (nth calls) (pick (length calls) (fset (sh_included s)))))"
  using assms by (simp add: shrink_sequence_def shrinker_current_pick)

section \<open>A limit equal to the number of calls\<close>

text \<open>The state after the removal of call \<open>k\<close> when every earlier call was put back.\<close>

definition trying :: "nat \<Rightarrow> nat \<Rightarrow> call_sequence_shrinker" where
  "trying n k = \<lparr>sh_len = n, sh_included = fset_of_list [0..<n] |-| {|k|}, sh_shrink = Suc k, sh_prev = Some k\<rparr>"

lemma complicate_trying:
  "Suc k < n \<Longrightarrow> complicate_calls (trying n k) = (True, trying n (Suc k))"
  by (auto simp: complicate_calls_def simplify_calls_def trying_def fset_eq_iff fset_of_list.rep_eq)

lemma trying_current: "k < n \<Longrightarrow> shrinker_current (trying n k) = pick n ({..<n} - {k})"
  by (auto simp: shrinker_current_pick trying_def fset_of_list.rep_eq lessThan_atLeast0)

lemma shrink_loop_trying:
  assumes "checks n chk fails" "\<And>k. k < n \<Longrightarrow> \<not> fails (pick n ({..<n} - {k}))" "k + m < n"
  shows "shrink_loop m chk (trying n k) = Some (trying n (k + m))"
  using assms(3)
proof (induction m arbitrary: k)
  case (Suc m)
  have len: "sh_len (trying n k) = n" by (simp add: trying_def)
  have "(if fails (shrinker_current (trying n k)) then simplify_calls (trying n k)
         else complicate_calls (trying n k)) = (True, trying n (Suc k))"
    using assms(2) [of k] complicate_trying [of k n] Suc.prems by (simp add: trying_current)
  from shrink_loop_step [OF assms(1) len this] show ?case using Suc.IH [of "Suc k"] Suc.prems by simp
qed simp

lemma shrink_loop_short:
  assumes "checks n chk fails" "\<And>k. k < n \<Longrightarrow> \<not> fails (pick n ({..<n} - {k}))" "fails [0..<n]" "0 < n"
  shows "shrink_loop n chk (shrinker_new n) = Some (trying n (n - 1))"
proof -
  have len: "sh_len (shrinker_new n) = n" by (simp add: shrinker_new_def)
  have "shrinker_current (shrinker_new n) = [0..<n]"
    by (simp add: shrinker_current_pick shrinker_new_def pick_all fset_of_list.rep_eq lessThan_atLeast0)
  then have "(if fails (shrinker_current (shrinker_new n)) then simplify_calls (shrinker_new n)
         else complicate_calls (shrinker_new n)) = (True, trying n 0)"
    using assms(3,4) by (simp add: simplify_calls_def shrinker_new_def trying_def)
  from shrink_loop_step [OF assms(1) len this, of "n - 1"] show ?thesis
    using shrink_loop_trying [OF assms(1,2), of 0 "n - 1"] assms(4) by simp
qed

lemma pick_butlast: "0 < n \<Longrightarrow> pick n ({..<n} - {n - 1}) = [0..<n - 1]"
proof -
  assume "0 < n"
  then have "[0..<n] = [0..<n - 1] @ [n - 1]" by (metis Suc_diff_1 upt_Suc_append le0)
  then show ?thesis by (auto simp: pick_def filter_id_conv)
qed

lemma shrink_outcome:
  assumes "\<And>xs. subseq xs calls \<Longrightarrow> \<exists>ok. verdict vm fc e call_after xs = Some (Inr ok)"
    and "breaks vm fc e call_after calls"
    and "length calls < unat (fc_shrink_run_limit fc)"
  shows "\<exists>ys. shrink_sequence vm fc calls e call_after = Some (Inr ys) \<and> subseq ys calls \<and>
           breaks vm fc e call_after ys \<and>
           ((\<forall>xs zs. subseq xs zs \<longrightarrow> subseq zs calls \<longrightarrow> breaks vm fc e call_after xs \<longrightarrow>
               breaks vm fc e call_after zs) \<longrightarrow>
            (\<forall>k < length ys. \<not> breaks vm fc e call_after (take k ys @ drop (Suc k) ys)))"
proof -
  let ?n = "length calls" and ?fails = "\<lambda>is. breaks vm fc e call_after (map (nth calls) is)"
  let ?chk = "\<lambda>candidate. check_sequence vm e calls candidate (fc_addr fc) (fc_calldata fc)
                (fc_fail_on_revert fc) call_after"
  obtain ok where "verdict vm fc e call_after [] = Some (Inr ok)" using assms(1) [of "[]"] by auto
  then obtain r success where c: "call_invariant_function vm e (fc_addr fc) (fc_calldata fc) = Inr (r, success)"
    and empty: "\<not> success \<Longrightarrow> breaks vm fc e call_after []"
    using verdict_empty by (metis breaks_def)
  show ?thesis
  proof (cases success)
    case False
    then show ?thesis using c empty by (auto simp: shrink_sequence_def)
  next
    case True
    note chk = checks_sequence [OF assms(1)]
    have "?fails [0..<?n]" using assms(2) by (simp add: map_nth)
    note new = shrinker_new_inv [of ?fails, OF this]
    obtain s where s: "shrink_loop (unat (fc_shrink_run_limit fc)) ?chk (shrinker_new ?n) = Some s"
      "sh_len s = ?n" "?fails (pick ?n (fset (sh_included s)))"
      using shrink_loop_fails [OF chk new(1)] new(3) assms(3) by auto
    let ?p = "pick ?n (fset (sh_included s))"
    have min: "\<not> breaks vm fc e call_after (take k (map (nth calls) ?p) @ drop (Suc k) (map (nth calls) ?p))"
      if mono: "\<forall>xs zs. subseq xs zs \<longrightarrow> subseq zs calls \<longrightarrow> breaks vm fc e call_after xs \<longrightarrow>
               breaks vm fc e call_after zs" and k: "k < length ?p" for k
    proof -
      have "?p ! k |\<in>| sh_included s" using nth_mem [OF k] by (simp add: set_pick)
      then have "\<not> ?fails (pick ?n (fset (sh_included s) - {?p ! k}))"
        using shrink_loop_minimal [OF chk monotone_breaks new(1,2) _ s(1)] mono new(3) assms(3) by auto
      then show ?thesis using pick_remove [OF k] by (simp add: take_map drop_map)
    qed
    have "shrink_sequence vm fc calls e call_after = Some (Inr (map (nth calls) ?p))"
      using shrink_sequence_loop [OF _ s(1,2)] c True by simp
    then show ?thesis using s(3) subseq_pick min by (metis length_map)
  qed
qed

section \<open>Shrunk sequences\<close>

text \<open>A machine with a counter: calldata \<open>1\<close> increments it, calldata \<open>2\<close> is the invariant and reverts
  once the counter has reached two.\<close>

definition counter_vm :: "(nat, unit, unit, nat) vm" where
  "counter_vm =
     \<lparr>vm_inspect = (\<lambda>e from to cd.
        Inr (\<lparr>rc_reverted = (cd = [2] \<and> 2 \<le> ex_backend e), rc_snapshot_failure = False, rc_result = [],
              rc_gas_used = 0, rc_stipend = 0,
              rc_changeset = (if cd = [1] then ex_backend e + 1 else ex_backend e),
              rc_env = (), rc_cheatcodes = None\<rparr>, ex_backend e)),
      vm_has_snapshot_failure = (\<lambda>b. False), vm_commit = (\<lambda>b cs. cs),
      vm_clear_broadcastable = id, vm_set_env = (\<lambda>c v. c), vm_basic_ok = (\<lambda>b a. True),
      vm_failed = (\<lambda>e a cs. Some False), vm_changed = (\<lambda>cs. []), vm_empty_changeset = 0,
      vm_after_selector = [3]\<rparr>"

definition counter_call :: "u8 \<Rightarrow> basic_tx_details" where
  "counter_call x = \<lparr>bt_sender = 7, bt_call_details = \<lparr>cd_target = 8, cd_calldata = [x]\<rparr>\<rparr>"

definition counter_case :: "basic_tx_details list \<Rightarrow> u32 \<Rightarrow> failed_case" where
  "counter_case calls limit =
     \<lparr>fc_calls = calls, fc_addr = 9, fc_calldata = [2], fc_shrink_run_limit = limit, fc_fail_on_revert = False\<rparr>"

definition counter_start :: "(nat, unit) executor" where
  "counter_start = \<lparr>ex_backend = 0, ex_cheatcodes = None\<rparr>"

lemma counter_inspect: "\<exists>r. vm_inspect counter_vm e a b c = Inr (r, ex_backend e)"
  by (simp add: counter_vm_def)

lemma counter_check_invariant: "\<exists>ok. check_invariant counter_vm e a c False = Inr ok"
  using counter_inspect [of e CALLER a c]
  by (auto simp: check_invariant_def call_invariant_function_def call_raw_def Let_def split_beta)

lemma counter_check:
  "set is \<subseteq> {..<length calls} \<Longrightarrow> \<exists>p. check_sequence counter_vm e calls is a c fr False = Some (Inr p)"
proof (induction "is" arbitrary: e)
  case Nil
  then show ?case using counter_check_invariant [of e a c] by auto
next
  case (Cons i "is")
  obtain r e' where "send_call counter_vm e (calls ! i) = Inr (r, e')"
    using counter_inspect [of e "bt_sender (calls ! i)" "cd_target (bt_call_details (calls ! i))"
        "cd_calldata (bt_call_details (calls ! i))"]
    by (auto simp: send_call_def transact_raw_def commit_def)
  then show ?case using Cons.IH [of e'] Cons.prems by auto
qed

lemma counter_verdict: "\<exists>ok. verdict counter_vm fc e False xs = Some (Inr ok)"
  using counter_check [of "[0..<length xs]" xs e "fc_addr fc" "fc_calldata fc" "fc_fail_on_revert fc"]
  by (auto simp: verdict_def lessThan_atLeast0)

text \<open>
  C6. Shrinking reproduces the failure. When no replay errs, the sequence of calls breaks the
  invariant and \<^verbatim>\<open>shrink_run_limit\<close> exceeds the number of calls, \<^verbatim>\<open>shrink_sequence\<close> returns a
  subsequence of the calls, in their order, that breaks the invariant as well; and when every
  extension of a breaking subsequence breaks the invariant, dropping any single call of the result
  makes it pass.
\<close>

theorem shrink_reproduces:
  assumes "\<And>xs. subseq xs calls \<Longrightarrow> \<exists>ok. verdict vm fc e call_after xs = Some (Inr ok)"
    and "breaks vm fc e call_after calls"
    and "length calls < unat (fc_shrink_run_limit fc)"
  shows "\<exists>ys. shrink_sequence vm fc calls e call_after = Some (Inr ys) \<and> subseq ys calls \<and>
           breaks vm fc e call_after ys \<and>
           ((\<forall>xs zs. subseq xs zs \<longrightarrow> subseq zs calls \<longrightarrow> breaks vm fc e call_after xs \<longrightarrow>
               breaks vm fc e call_after zs) \<longrightarrow>
            (\<forall>k < length ys. \<not> breaks vm fc e call_after (take k ys @ drop (Suc k) ys)))"
  by (rule shrink_outcome [OF assms])

theorem shrink_reproduces_witness:
  "shrink_sequence counter_vm (counter_case [] 6) (map counter_call [1, 0, 1, 1, 0]) counter_start False =
     Some (Inr (map counter_call [1, 1])) \<and>
   breaks counter_vm (counter_case [] 6) counter_start False (map counter_call [1, 1])"
proof -
  let ?calls = "map counter_call [1, 0, 1, 1, 0]" and ?fc = "counter_case [] 6"
  have b: "breaks counter_vm ?fc counter_start False ?calls" by code_simp
  have l: "length ?calls < unat (fc_shrink_run_limit ?fc)" by (simp add: counter_case_def)
  have r: "shrink_sequence counter_vm ?fc ?calls counter_start False = Some (Inr (map counter_call [1, 1]))"
    by code_simp
  show ?thesis
    using shrink_reproduces [of ?calls counter_vm ?fc counter_start False, OF counter_verdict b l] r by auto
qed

text \<open>
  C35. One iteration too few. The documentation of \<^verbatim>\<open>shrink_sequence\<close> promises maximal shrinkage for a
  \<^verbatim>\<open>shrink_run_limit\<close> not lower than the length of the sequence. With a limit equal to the length,
  and a failure that needs every call, the loop ends right after it removed the last call and
  before it checked the removal: the returned sequence lacks the last call and does not break the
  invariant.
\<close>

theorem shrink_limit_untested:
  assumes "\<And>xs. subseq xs calls \<Longrightarrow> \<exists>ok. verdict vm fc e call_after xs = Some (Inr ok)"
    and "breaks vm fc e call_after calls"
    and "\<And>xs. subseq xs calls \<Longrightarrow> xs \<noteq> calls \<Longrightarrow> \<not> breaks vm fc e call_after xs"
    and "unat (fc_shrink_run_limit fc) = length calls" "calls \<noteq> []"
  shows "shrink_sequence vm fc calls e call_after = Some (Inr (butlast calls)) \<and>
         \<not> breaks vm fc e call_after (butlast calls)"
proof -
  let ?n = "length calls" and ?fails = "\<lambda>is. breaks vm fc e call_after (map (nth calls) is)"
  have n: "0 < ?n" using assms(5) by simp
  obtain ok where ok: "verdict vm fc e call_after [] = Some (Inr ok)" using assms(1) [of "[]"] by auto
  moreover have "\<not> breaks vm fc e call_after []" using assms(3) [of "[]"] assms(5) by auto
  ultimately obtain r where c: "call_invariant_function vm e (fc_addr fc) (fc_calldata fc) = Inr (r, True)"
    using verdict_empty by (metis breaks_def)
  have "\<not> ?fails (pick ?n ({..<?n} - {k}))" if "k < ?n" for k
  proof (rule assms(3) [OF subseq_pick])
    have "length (pick ?n ({..<?n} - {k})) < length [0..<?n]"
      unfolding pick_def using that by (intro length_filter_less [of k]) auto
    then show "map (nth calls) (pick ?n ({..<?n} - {k})) \<noteq> calls" by (metis length_map length_upt minus_nat.diff_0 nat_neq_iff)
  qed
  moreover have "?fails [0..<?n]" using assms(2) by (simp add: map_nth)
  ultimately have s: "shrink_loop (unat (fc_shrink_run_limit fc))
      (\<lambda>candidate. check_sequence vm e calls candidate (fc_addr fc) (fc_calldata fc) (fc_fail_on_revert fc) call_after)
      (shrinker_new ?n) = Some (trying ?n (?n - 1))"
    using shrink_loop_short [OF checks_sequence [OF assms(1)]] n assms(4) by simp
  have "pick ?n (fset (sh_included (trying ?n (?n - 1)))) = [0..<?n - 1]"
    using trying_current [of "?n - 1" ?n] pick_butlast [OF n] n by (simp add: shrinker_current_pick trying_def)
  moreover have "map (nth calls) [0..<?n - 1] = butlast calls"
    by (rule nth_equalityI) (simp_all add: nth_butlast)
  ultimately have "shrink_sequence vm fc calls e call_after = Some (Inr (butlast calls))"
    using shrink_sequence_loop [OF c s] by (simp add: trying_def)
  moreover have "subseq (butlast calls) calls"
    by (auto simp: butlast_conv_take intro: prefix_imp_subseq take_is_prefix)
  moreover have "butlast calls \<noteq> calls"
    using n by (metis diff_less length_butlast less_irrefl zero_less_one)
  ultimately show ?thesis using assms(3) by blast
qed

theorem shrink_limit_untested_witness:
  "shrink_sequence counter_vm (counter_case [] 2) (map counter_call [1, 1]) counter_start False =
     Some (Inr [counter_call 1]) \<and>
   \<not> breaks counter_vm (counter_case [] 2) counter_start False [counter_call 1]"
proof -
  let ?calls = "map counter_call [1, 1]" and ?fc = "counter_case [] 2"
  have b: "breaks counter_vm ?fc counter_start False ?calls" by code_simp
  have p: "\<not> breaks counter_vm ?fc counter_start False []"
    "\<not> breaks counter_vm ?fc counter_start False [counter_call 1]"
    by code_simp+
  have "\<not> breaks counter_vm ?fc counter_start False xs" if "subseq xs ?calls" "xs \<noteq> ?calls" for xs
    using that p in_set_subseqs [of xs ?calls] by (auto simp: Let_def)
  then show ?thesis
    using shrink_limit_untested [of ?calls counter_vm ?fc counter_start False, OF counter_verdict b]
    by (simp add: counter_case_def)
qed

end
