(* ===== verification/Invariant_Targets.thy ===== *)
theory Invariant_Targets
  imports Contracts Invariant_Shrink
begin

text \<open>
  Choice of the contracts, functions and senders an invariant test fuzzes:
  \<^verbatim>\<open>crates/evm/fuzz/src/invariant/{mod,filters}.rs\<close> and the selection part of
  \<^verbatim>\<open>crates/evm/evm/src/executors/invariant/mod.rs\<close>.

  \<^item> \<open>artifact_filters\<close>, \<open>sender_filters\<close>, \<open>targeted_contract\<close> and \<open>fuzz_run_contracts\<close> are the structs;
    the \<^verbatim>\<open>BTreeMap\<close>s are finite maps, iterated in the order of their keys.
  \<^item> The answers of the test contract to \<^verbatim>\<open>targetContracts()\<close>, \<^verbatim>\<open>excludeSenders()\<close> and the other
    functions of \<^verbatim>\<open>IInvariantTest\<close>, empty when the call fails, are the record \<open>answers\<close>.
  \<^item> \<open>collect_created_contracts\<close> and \<open>clear_created_contracts\<close> extend the targets during a run and take
    the additions back at its end.

  The lemmas show where a target can come from, that the end of a run restores the targets of a
  campaign without interface targets, and two defects of interface targets.
\<close>

section \<open>Filters\<close>

record artifact_filters =
  af_targeted :: "(string, u32 list) fmap"
  af_excluded :: "string list"

definition matches :: "artifact_filters \<Rightarrow> string \<Rightarrow> bool" where
  "matches f identifier =
     ((af_targeted f = fmempty \<or> fmlookup (af_targeted f) identifier \<noteq> None) \<and>
      (af_excluded f = [] \<or> \<not> list_ex (\<lambda>x. x = identifier) (af_excluded f)))"

text \<open>\<^verbatim>\<open>collect::<Result<Vec<_>>>\<close>: the first error, or all values.\<close>

fun collect_results :: "('e, 'a) result list \<Rightarrow> ('e, 'a list) result" where
  "collect_results [] = Inr []"
| "collect_results (Inl e # xs) = Inl e"
| "collect_results (Inr x # xs) = map_sum id (\<lambda>ys. x # ys) (collect_results xs)"

definition get_targeted_functions ::
  "artifact_filters \<Rightarrow> artifact_id \<Rightarrow> json_abi \<Rightarrow> (string, abi_function list option) result" where
  "get_targeted_functions f a abi =
     (case fmlookup (af_targeted f) (ai_identifier a) of
        Some selectors \<Rightarrow>
          (case collect_results (map (\<lambda>s. get_function (ai_name a) s abi) selectors) of
             Inl e \<Rightarrow> Inl e
           | Inr functions \<Rightarrow>
               if functions = [] \<and> ai_identifier a \<in> set (af_excluded f) then Inr None
               else Inr (Some functions))
      | None \<Rightarrow>
          if af_targeted f = fmempty \<and> ai_identifier a \<notin> set (af_excluded f) then Inr (Some [])
          else Inr None)"

record sender_filters =
  sf_targeted :: "address list"
  sf_excluded :: "address list"

definition sender_filters_new :: "address list \<Rightarrow> address list \<Rightarrow> sender_filters" where
  "sender_filters_new targeted excluded =
     (let excluded = (if 0 \<in> set excluded then excluded else excluded @ [0])
      in \<lparr>sf_targeted = filter (\<lambda>a. a \<notin> set excluded) targeted, sf_excluded = excluded\<rparr>)"

section \<open>Targeted contracts\<close>

record targeted_contract =
  tc_identifier :: string
  tc_abi :: json_abi
  tc_targeted_functions :: "abi_function list"
  tc_excluded_functions :: "abi_function list"

type_synonym targeted_contracts = "(address, targeted_contract) fmap"

definition targeted_contract_new :: "string \<Rightarrow> json_abi \<Rightarrow> targeted_contract" where
  "targeted_contract_new identifier abi =
     \<lparr>tc_identifier = identifier, tc_abi = abi, tc_targeted_functions = [], tc_excluded_functions = []\<rparr>"

definition mutable_function :: "abi_function \<Rightarrow> bool" where
  "mutable_function f = (\<not> (fn_mutability f = Pure \<or> fn_mutability f = View))"

definition abi_fuzzed_functions :: "targeted_contract \<Rightarrow> abi_function list" where
  "abi_fuzzed_functions c =
     (if tc_targeted_functions c \<noteq> [] then tc_targeted_functions c
      else filter (\<lambda>f. mutable_function f \<and> f \<notin> set (tc_excluded_functions c)) (abi_functions (tc_abi c)))"

definition fuzzed_functions :: "targeted_contracts \<Rightarrow> (address \<times> abi_function) list" where
  "fuzzed_functions ts =
     concat (map (\<lambda>a. case fmlookup ts a of
         Some c \<Rightarrow> if ja_functions (tc_abi c) = fmempty then [] else map (\<lambda>f. (a, f)) (abi_fuzzed_functions c)
       | None \<Rightarrow> []) (sorted_list_of_fset (fmdom ts)))"

fun add_selectors :: "targeted_contract \<Rightarrow> u32 list \<Rightarrow> bool \<Rightarrow> (string, targeted_contract) result" where
  "add_selectors c [] should_exclude = Inr c"
| "add_selectors c (s # ss) should_exclude =
     (case get_function (tc_identifier c) s (tc_abi c) of
        Inl e \<Rightarrow> Inl e
      | Inr f \<Rightarrow>
          add_selectors
            (if should_exclude then c\<lparr>tc_excluded_functions := tc_excluded_functions c @ [f]\<rparr>
             else c\<lparr>tc_targeted_functions := tc_targeted_functions c @ [f]\<rparr>) ss should_exclude)"

section \<open>Contracts created during a run\<close>

record fuzz_run_contracts =
  fr_targets :: targeted_contracts
  fr_is_updatable :: bool

text \<open>One account of the changeset: \<open>None\<close> skips it, \<open>Some (Inl e)\<close> ends the loop with the error.\<close>

definition created_contract ::
  "contracts_by_artifact \<Rightarrow> contracts_by_address \<Rightarrow> artifact_filters \<Rightarrow> address \<times> bool \<times> u8 list option \<Rightarrow>
   (string, targeted_contract) result option" where
  "created_contract project setup_cs filters acc =
     (case acc of (addr, touched, code) \<Rightarrow>
       if fmlookup setup_cs addr \<noteq> None then None
       else if \<not> touched then None
       else (case code of
               None \<Rightarrow> None
             | Some code \<Rightarrow>
                 if code = [] then None
                 else (case find_by_deployed_code project code of
                         None \<Rightarrow> None
                       | Some (a, c) \<Rightarrow>
                           (case get_targeted_functions filters a (co_abi c) of
                              Inl e \<Rightarrow> Some (Inl e)
                            | Inr None \<Rightarrow> None
                            | Inr (Some functions) \<Rightarrow>
                                Some (Inr \<lparr>tc_identifier = ai_name a, tc_abi = co_abi c,
                                           tc_targeted_functions = functions, tc_excluded_functions = []\<rparr>)))))"

text \<open>The loop keeps the insertions made before an error.\<close>

fun collect_created ::
  "contracts_by_artifact \<Rightarrow> contracts_by_address \<Rightarrow> artifact_filters \<Rightarrow> (address \<times> bool \<times> u8 list option) list \<Rightarrow>
   targeted_contracts \<Rightarrow> address list \<Rightarrow> (string, unit) result \<times> targeted_contracts \<times> address list" where
  "collect_created project setup_cs filters [] targets created = (Inr (), targets, created)"
| "collect_created project setup_cs filters (acc # accs) targets created =
     (case created_contract project setup_cs filters acc of
        None \<Rightarrow> collect_created project setup_cs filters accs targets created
      | Some (Inl e) \<Rightarrow> (Inl e, targets, created)
      | Some (Inr c) \<Rightarrow>
          collect_created project setup_cs filters accs (fmupd (fst acc) c targets) (created @ [fst acc]))"

definition collect_created_contracts ::
  "fuzz_run_contracts \<Rightarrow> (address \<times> bool \<times> u8 list option) list \<Rightarrow> contracts_by_artifact \<Rightarrow>
   contracts_by_address \<Rightarrow> artifact_filters \<Rightarrow> address list \<Rightarrow>
   (string, unit) result \<times> fuzz_run_contracts \<times> address list" where
  "collect_created_contracts fr changeset project setup_cs filters created =
     (if \<not> fr_is_updatable fr then (Inr (), fr, created)
      else (let (r, ts, created') = collect_created project setup_cs filters changeset (fr_targets fr) created
            in (r, fr\<lparr>fr_targets := ts\<rparr>, created')))"

definition clear_created_contracts :: "fuzz_run_contracts \<Rightarrow> address list \<Rightarrow> fuzz_run_contracts" where
  "clear_created_contracts fr created = fr\<lparr>fr_targets := fold fmdrop created (fr_targets fr)\<rparr>"

section \<open>Selection\<close>

definition HARDHAT_CONSOLE_ADDRESS :: address where
  "HARDHAT_CONSOLE_ADDRESS = 0x000000000000000000636F6e736F6c652e6c6f67"

definition DEFAULT_CREATE2_DEPLOYER :: address where
  "DEFAULT_CREATE2_DEPLOYER = 0x4e59b44847b379578588920ca78fbf26c0b4956c"

record answers =
  an_target_artifact_selectors :: "(string \<times> u32 list) list"
  an_target_artifacts :: "string list"
  an_exclude_artifacts :: "string list"
  an_target_senders :: "address list"
  an_exclude_senders :: "address list"
  an_target_contracts :: "address list"
  an_exclude_contracts :: "address list"
  an_target_interfaces :: "(address \<times> string list) list"
  an_target_selectors :: "(address \<times> u32 list) list"
  an_exclude_selectors :: "(address \<times> u32 list) list"

fun check_selectors :: "string \<Rightarrow> json_abi \<Rightarrow> u32 list \<Rightarrow> (string, unit) result" where
  "check_selectors contract abi [] = Inr ()"
| "check_selectors contract abi (s # ss) =
     (if list_ex (\<lambda>f. fn_selector f = s) (abi_functions abi) then check_selectors contract abi ss
      else Inl (contract @ '' does not have the selector''))"

definition validate_selected_contract ::
  "contracts_by_artifact \<Rightarrow> string \<Rightarrow> u32 list \<Rightarrow> (string, string) result" where
  "validate_selected_contract project contract selectors =
     (case find_by_name_or_identifier project contract of
        Inl e \<Rightarrow> Inl e
      | Inr None \<Rightarrow> Inl (contract @ '' not found in the project.'')
      | Inr (Some (a, c)) \<Rightarrow>
          map_sum id (\<lambda>_. ai_identifier a) (check_selectors contract (co_abi c) selectors))"

text \<open>A loop whose body may end it with an error (\<^verbatim>\<open>?\<close>).\<close>

fun try_fold :: "('s \<Rightarrow> 'x \<Rightarrow> ('e, 's) result) \<Rightarrow> 'x list \<Rightarrow> 's \<Rightarrow> ('e, 's) result" where
  "try_fold f [] s = Inr s"
| "try_fold f (x # xs) s = (case f s x of Inl e \<Rightarrow> Inl e | Inr s' \<Rightarrow> try_fold f xs s')"

definition push_new :: "'a \<Rightarrow> 'a list \<Rightarrow> 'a list" where
  "push_new x xs = (if x \<in> set xs then xs else xs @ [x])"

definition target_selectors_of :: "contracts_by_artifact \<Rightarrow> artifact_filters \<Rightarrow> string \<times> u32 list \<Rightarrow>
    (string, artifact_filters) result" where
  "target_selectors_of project f sel =
     (case validate_selected_contract project (fst sel) (snd sel) of
        Inl e \<Rightarrow> Inl e
      | Inr identifier \<Rightarrow>
          Inr (f\<lparr>af_targeted := fmupd identifier
                  ((case fmlookup (af_targeted f) identifier of Some ss \<Rightarrow> ss | None \<Rightarrow> []) @ snd sel)
                  (af_targeted f)\<rparr>))"

definition exclude_artifact :: "contracts_by_artifact \<Rightarrow> artifact_filters \<Rightarrow> string \<Rightarrow>
    (string, artifact_filters) result" where
  "exclude_artifact project f contract =
     (case validate_selected_contract project contract [] of
        Inl e \<Rightarrow> Inl e
      | Inr identifier \<Rightarrow> Inr (f\<lparr>af_excluded := push_new identifier (af_excluded f)\<rparr>))"

definition exclude_immutable :: "artifact_id \<times> contract_data \<Rightarrow> artifact_filters \<Rightarrow> artifact_filters" where
  "exclude_immutable ac f =
     (if length (filter mutable_function (abi_functions (co_abi (snd ac)))) = 0
      then f\<lparr>af_excluded := push_new (ai_identifier (fst ac)) (af_excluded f)\<rparr> else f)"

definition target_artifact :: "contracts_by_artifact \<Rightarrow> artifact_filters \<Rightarrow> string \<Rightarrow>
    (string, artifact_filters) result" where
  "target_artifact project f contract =
     (case validate_selected_contract project contract [] of
        Inl e \<Rightarrow> Inl e
      | Inr identifier \<Rightarrow>
          if fmlookup (af_targeted f) identifier = None \<and> identifier \<notin> set (af_excluded f)
          then Inr (f\<lparr>af_targeted := fmupd identifier [] (af_targeted f)\<rparr>) else Inr f)"

definition select_contract_artifacts ::
  "contracts_by_artifact \<Rightarrow> answers \<Rightarrow> artifact_filters \<Rightarrow> (string, artifact_filters) result" where
  "select_contract_artifacts project an f =
     (case try_fold (target_selectors_of project) (an_target_artifact_selectors an) f of
        Inl e \<Rightarrow> Inl e
      | Inr f1 \<Rightarrow>
          (case try_fold (exclude_artifact project) (an_exclude_artifacts an) f1 of
             Inl e \<Rightarrow> Inl e
           | Inr f2 \<Rightarrow>
               try_fold (target_artifact project) (an_target_artifacts an) (fold exclude_immutable project f2)))"

definition extend_abi :: "json_abi \<Rightarrow> json_abi \<Rightarrow> json_abi" where
  "extend_abi abi other = abi\<lparr>ja_functions := ja_functions abi ++\<^sub>f ja_functions other\<rparr>"

text \<open>One identifier of \<^verbatim>\<open>targetInterfaces\<close> for an address.\<close>

definition add_interface ::
  "contracts_by_artifact \<Rightarrow> targeted_contracts \<Rightarrow> address \<times> string \<Rightarrow> (string, targeted_contracts) result" where
  "add_interface project combined ai =
     (case find_by_name_or_identifier project (snd ai) of
        Inl e \<Rightarrow> Inl e
      | Inr None \<Rightarrow> Inr combined
      | Inr (Some (_, c)) \<Rightarrow>
          Inr (case fmlookup combined (fst ai) of
                 Some entry \<Rightarrow> fmupd (fst ai) (entry\<lparr>tc_abi := extend_abi (tc_abi entry) (co_abi c)\<rparr>) combined
               | None \<Rightarrow> fmupd (fst ai) (targeted_contract_new (snd ai) (co_abi c)) combined))"

definition target_interfaces ::
  "contracts_by_artifact \<Rightarrow> answers \<Rightarrow> targeted_contracts \<Rightarrow> (string, targeted_contracts) result" where
  "target_interfaces project an ts =
     map_sum id (\<lambda>combined. ts ++\<^sub>f combined)
       (try_fold (add_interface project)
          (concat (map (\<lambda>(addr, ids). map (\<lambda>i. (addr, i)) ids) (an_target_interfaces an))) fmempty)"

definition add_address_with_functions ::
  "contracts_by_address \<Rightarrow> bool \<Rightarrow> targeted_contracts \<Rightarrow> address \<times> u32 list \<Rightarrow> (string, targeted_contracts) result" where
  "add_address_with_functions setup_cs should_exclude ts sel =
     (case (case fmlookup ts (fst sel) of
              Some c \<Rightarrow> Inr c
            | None \<Rightarrow> (case fmlookup setup_cs (fst sel) of
                         None \<Rightarrow> Inl ''address does not have an associated contract''
                       | Some (identifier, abi) \<Rightarrow> Inr (targeted_contract_new identifier abi))) of
        Inl e \<Rightarrow> Inl e
      | Inr c \<Rightarrow> map_sum id (\<lambda>c'. fmupd (fst sel) c' ts) (add_selectors c (snd sel) should_exclude))"

text \<open>The selectors that \<^verbatim>\<open>targetArtifactSelectors\<close> gives to the set-up contracts, in address order.\<close>

definition artifact_selections :: "contracts_by_address \<Rightarrow> artifact_filters \<Rightarrow> (address \<times> u32 list) list" where
  "artifact_selections setup_cs filters =
     List.map_filter (\<lambda>addr.
       case fmlookup setup_cs addr of
         Some (identifier, _) \<Rightarrow>
           (case fmlookup (af_targeted filters) identifier of
              Some selectors \<Rightarrow> if selectors = [] then None else Some (addr, selectors)
            | None \<Rightarrow> None)
       | None \<Rightarrow> None) (sorted_list_of_fset (fmdom setup_cs))"

definition select_selectors ::
  "contracts_by_address \<Rightarrow> artifact_filters \<Rightarrow> answers \<Rightarrow> targeted_contracts \<Rightarrow> (string, targeted_contracts) result" where
  "select_selectors setup_cs filters an ts =
     (case try_fold (add_address_with_functions setup_cs False)
             (artifact_selections setup_cs filters @ an_target_selectors an) ts of
        Inl e \<Rightarrow> Inl e
      | Inr ts' \<Rightarrow> try_fold (add_address_with_functions setup_cs True) (an_exclude_selectors an) ts')"

definition selected_setup_contract :: "artifact_filters \<Rightarrow> answers \<Rightarrow> address \<Rightarrow> address \<Rightarrow> string \<Rightarrow> bool" where
  "selected_setup_contract filters an to addr identifier =
     (addr \<noteq> to \<and> addr \<noteq> CHEATCODE_ADDRESS \<and> addr \<noteq> HARDHAT_CONSOLE_ADDRESS \<and>
      (an_target_contracts an = [] \<or> addr \<in> set (an_target_contracts an)) \<and>
      (an_exclude_contracts an = [] \<or> addr \<notin> set (an_exclude_contracts an)) \<and>
      matches filters identifier)"

definition setup_targets ::
  "contracts_by_address \<Rightarrow> artifact_filters \<Rightarrow> answers \<Rightarrow> address \<Rightarrow> targeted_contracts" where
  "setup_targets setup_cs filters an to =
     fmmap (\<lambda>(identifier, abi). targeted_contract_new identifier abi)
       (fmfilter (\<lambda>addr. case fmlookup setup_cs addr of
            Some (identifier, _) \<Rightarrow> selected_setup_contract filters an to addr identifier
          | None \<Rightarrow> False) setup_cs)"

definition select_contracts_and_senders ::
  "contracts_by_artifact \<Rightarrow> contracts_by_address \<Rightarrow> artifact_filters \<Rightarrow> answers \<Rightarrow> address \<Rightarrow>
   (string, sender_filters \<times> fuzz_run_contracts) result" where
  "select_contracts_and_senders project setup_cs filters an to =
     (let senders = sender_filters_new (an_target_senders an)
            (an_exclude_senders an @ [CHEATCODE_ADDRESS, HARDHAT_CONSOLE_ADDRESS, DEFAULT_CREATE2_DEPLOYER])
      in case target_interfaces project an (setup_targets setup_cs filters an to) of
           Inl e \<Rightarrow> Inl e
         | Inr ts \<Rightarrow>
             (case select_selectors setup_cs filters an ts of
                Inl e \<Rightarrow> Inl e
              | Inr ts' \<Rightarrow>
                  if ts' = fmempty then Inl ''No contracts to fuzz.''
                  else Inr (senders, \<lparr>fr_targets = ts', fr_is_updatable = (an_target_contracts an = [])\<rparr>)))"


section \<open>Domains of the selections\<close>

lemma add_address_dom:
  assumes "add_address_with_functions setup_cs b ts sel = Inr ts'"
  shows "fmdom ts' = finsert (fst sel) (fmdom ts)"
  using assms
  by (auto simp: add_address_with_functions_def map_sum_def split: option.splits sum.splits)

lemma try_fold_add_address_dom:
  "try_fold (add_address_with_functions setup_cs b) sels ts = Inr ts' \<Longrightarrow>
   fmdom ts' = fset_of_list (map fst sels) |\<union>| fmdom ts"
  by (induction sels arbitrary: ts) (auto dest: add_address_dom split: sum.splits)

lemma add_interface_dom:
  assumes "add_interface project combined ai = Inr combined'"
  shows "fmdom combined' =
    (if \<exists>x. find_by_name_or_identifier project (snd ai) = Inr (Some x) then finsert (fst ai) (fmdom combined)
     else fmdom combined)"
  using assms by (auto simp: add_interface_def split: sum.splits option.splits)

lemma try_fold_add_interface_dom:
  "try_fold (add_interface project) ais combined = Inr combined' \<Longrightarrow>
   fset (fmdom combined') =
     {fst ai | ai. ai \<in> set ais \<and> (\<exists>x. find_by_name_or_identifier project (snd ai) = Inr (Some x))} \<union> fset (fmdom combined)"
proof (induction ais arbitrary: combined)
  case (Cons ai ais)
  then obtain mid where m: "add_interface project combined ai = Inr mid"
    "try_fold (add_interface project) ais mid = Inr combined'"
    by (auto split: sum.splits)
  show ?case using Cons.IH [OF m(2)] add_interface_dom [OF m(1)] by (cases ai) (auto split: if_splits)
qed auto

lemma setup_targets_dom:
  "a |\<in>| fmdom (setup_targets setup_cs filters an to) \<longleftrightarrow>
   (\<exists>identifier abi. fmlookup setup_cs a = Some (identifier, abi) \<and> selected_setup_contract filters an to a identifier)"
  by (auto simp: setup_targets_def fmlookup_dom_iff split: option.splits)

lemma target_interfaces_dom:
  assumes "target_interfaces project an ts = Inr ts'"
  shows "fset (fmdom ts') =
    {a. \<exists>ids i x. (a, ids) \<in> set (an_target_interfaces an) \<and> i \<in> set ids \<and>
          find_by_name_or_identifier project i = Inr (Some x)} \<union> fset (fmdom ts)"
proof -
  let ?ais = "concat (map (\<lambda>(addr, ids). map (\<lambda>i. (addr, i)) ids) (an_target_interfaces an))"
  obtain combined where c: "try_fold (add_interface project) ?ais fmempty = Inr combined" "ts' = ts ++\<^sub>f combined"
    using assms by (auto simp: target_interfaces_def map_sum_def split: sum.splits)
  have mem: "(a, i) \<in> set ?ais \<longleftrightarrow> (\<exists>ids. (a, ids) \<in> set (an_target_interfaces an) \<and> i \<in> set ids)" for a i
    by auto
  have "fset (fmdom combined) = {fst ai | ai. ai \<in> set ?ais \<and> (\<exists>x. find_by_name_or_identifier project (snd ai) = Inr (Some x))}"
    using try_fold_add_interface_dom [OF c(1)] by simp
  also have "\<dots> = {a. \<exists>i x. (a, i) \<in> set ?ais \<and> find_by_name_or_identifier project i = Inr (Some x)}"
    by (auto simp del: set_concat set_map)
  finally show ?thesis unfolding c(2) mem by (simp only: fmdom_add union_fset Un_commute) blast
qed

lemma sender_filters_excluded:
  "set (sf_excluded (sender_filters_new t e)) = insert 0 (set e)"
  "set (sf_targeted (sender_filters_new t e)) = set t - insert 0 (set e)"
  by (auto simp: sender_filters_new_def Let_def)

section \<open>Taking created contracts back\<close>

text \<open>\<open>same_but created\<close> relates the targets before and after collecting the addresses \<open>created\<close>.\<close>

definition same_but :: "address list \<Rightarrow> targeted_contracts \<Rightarrow> targeted_contracts \<Rightarrow> bool" where
  "same_but created ts ts' \<longleftrightarrow> (\<forall>a. a \<notin> set created \<longrightarrow> fmlookup ts' a = fmlookup ts a)"

lemma collect_created_same:
  assumes "collect_created project setup_cs filters accs ts created = (r, ts', created')" "same_but created ts0 ts"
  shows "same_but created' ts0 ts' \<and> set created \<subseteq> set created' \<and>
         (\<forall>a \<in> set created' - set created. fmlookup setup_cs a = None)"
  using assms
proof (induction accs arbitrary: ts created)
  case (Cons acc accs)
  show ?case
  proof (cases "created_contract project setup_cs filters acc")
    case None
    then show ?thesis using Cons by simp
  next
    case (Some res)
    show ?thesis
    proof (cases res)
      case (Inl e)
      then show ?thesis using Cons.prems Some by simp
    next
      case (Inr c)
      have new: "fmlookup setup_cs (fst acc) = None"
        using Some Inr by (cases acc; cases "fmlookup setup_cs (fst acc)") (auto simp: created_contract_def)
      have "same_but (created @ [fst acc]) ts0 (fmupd (fst acc) c ts)"
        using Cons.prems(2) by (auto simp: same_but_def)
      then show ?thesis
        using Cons.IH [of "fmupd (fst acc) c ts" "created @ [fst acc]"] Cons.prems(1) Some Inr new by auto
    qed
  qed
qed auto

lemma collect_created_contracts_same:
  assumes "collect_created_contracts fr cs project setup_cs filters created = (r, fr', created')"
    "same_but created ts0 (fr_targets fr)"
  shows "same_but created' ts0 (fr_targets fr') \<and> set created \<subseteq> set created' \<and>
         (\<forall>a \<in> set created' - set created. fmlookup setup_cs a = None) \<and> fr_is_updatable fr' = fr_is_updatable fr"
proof (cases "fr_is_updatable fr")
  case True
  obtain r1 ts' c' where c: "collect_created project setup_cs filters cs (fr_targets fr) created = (r1, ts', c')"
    using prod_cases3 by blast
  then have "fr' = fr\<lparr>fr_targets := ts'\<rparr>" "created' = c'"
    using assms(1) True by (auto simp: collect_created_contracts_def)
  then show ?thesis using collect_created_same [OF c assms(2)] by simp
qed (use assms in \<open>auto simp: collect_created_contracts_def\<close>)

lemma fold_fmdrop_lookup: "fmlookup (fold fmdrop xs m) a = (if a \<in> set xs then None else fmlookup m a)"
  by (induction xs arbitrary: m) auto

lemma clear_created_lookup:
  "fmlookup (fr_targets (clear_created_contracts fr created)) a =
     (if a \<in> set created then None else fmlookup (fr_targets fr) a)"
  by (simp add: clear_created_contracts_def fold_fmdrop_lookup)

lemma clear_created_same:
  assumes "same_but created ts0 (fr_targets fr)" "\<And>a. a \<in> set created \<Longrightarrow> fmlookup ts0 a = None"
  shows "fr_targets (clear_created_contracts fr created) = ts0"
  using assms by (auto intro!: fmap_ext simp: clear_created_lookup same_but_def)

text \<open>The changesets of the calls of one run, collected one after the other.\<close>

fun collect_run ::
  "contracts_by_artifact \<Rightarrow> contracts_by_address \<Rightarrow> artifact_filters \<Rightarrow>
   (address \<times> bool \<times> u8 list option) list list \<Rightarrow> fuzz_run_contracts \<Rightarrow> address list \<Rightarrow>
   fuzz_run_contracts \<times> address list" where
  "collect_run project setup_cs filters [] fr created = (fr, created)"
| "collect_run project setup_cs filters (cs # css) fr created =
     (let (_, fr', created') = collect_created_contracts fr cs project setup_cs filters created
      in collect_run project setup_cs filters css fr' created')"

lemma collect_run_same:
  assumes "collect_run project setup_cs filters css fr created = (fr', created')"
    "same_but created ts0 (fr_targets fr)"
  shows "same_but created' ts0 (fr_targets fr') \<and> set created \<subseteq> set created' \<and>
         (\<forall>a \<in> set created' - set created. fmlookup setup_cs a = None) \<and> fr_is_updatable fr' = fr_is_updatable fr"
  using assms
proof (induction css arbitrary: fr created)
  case (Cons cs css)
  obtain r fr1 c1 where c: "collect_created_contracts fr cs project setup_cs filters created = (r, fr1, c1)"
    using prod_cases3 by blast
  note s = collect_created_contracts_same [OF c Cons.prems(2)]
  have "collect_run project setup_cs filters css fr1 c1 = (fr', created')" using Cons.prems(1) c by simp
  from Cons.IH [OF this] s show ?case by (auto simp: subset_iff)
qed auto


section \<open>Selected targets\<close>

text \<open>
  C13. The targets of a campaign. When \<^verbatim>\<open>select_contracts_and_senders\<close> succeeds, the targeted addresses
  are exactly: the contracts deployed by the set-up that pass the filters and are neither the test
  contract, the cheatcode nor the console address; the addresses of \<^verbatim>\<open>targetInterfaces\<close> for which some
  named artifact exists; and every address for which selectors are given, by artifact, by
  \<^verbatim>\<open>targetSelectors\<close> or by \<^verbatim>\<open>excludeSelectors\<close> (excluding a function of a contract that was not
  targeted makes the contract a target). There is at least one target, the zero address and the
  cheatcode address are excluded senders, and no excluded sender is targeted.
\<close>

theorem targets_exact:
  assumes "select_contracts_and_senders project setup_cs filters an to = Inr (senders, fr)"
  shows "fset (fmdom (fr_targets fr)) =
           {a. \<exists>identifier abi. fmlookup setup_cs a = Some (identifier, abi) \<and>
                 selected_setup_contract filters an to a identifier} \<union>
           {a. \<exists>ids i x. (a, ids) \<in> set (an_target_interfaces an) \<and> i \<in> set ids \<and>
                 find_by_name_or_identifier project i = Inr (Some x)} \<union>
           fst ` set (artifact_selections setup_cs filters) \<union> fst ` set (an_target_selectors an) \<union>
           fst ` set (an_exclude_selectors an) \<and>
         fr_targets fr \<noteq> fmempty \<and> {0, CHEATCODE_ADDRESS} \<subseteq> set (sf_excluded senders) \<and>
         set (sf_targeted senders) \<inter> set (sf_excluded senders) = {}"
proof -
  obtain ts ts' where i: "target_interfaces project an (setup_targets setup_cs filters an to) = Inr ts"
    and sel: "select_selectors setup_cs filters an ts = Inr ts'" "ts' \<noteq> fmempty" "fr_targets fr = ts'"
    and sf: "senders = sender_filters_new (an_target_senders an)
            (an_exclude_senders an @ [CHEATCODE_ADDRESS, HARDHAT_CONSOLE_ADDRESS, DEFAULT_CREATE2_DEPLOYER])"
    using assms by (auto simp: select_contracts_and_senders_def Let_def split: sum.splits if_splits)
  obtain mid where m: "try_fold (add_address_with_functions setup_cs False)
        (artifact_selections setup_cs filters @ an_target_selectors an) ts = Inr mid"
    "try_fold (add_address_with_functions setup_cs True) (an_exclude_selectors an) mid = Inr ts'"
    using sel(1) by (auto simp: select_selectors_def split: sum.splits)
  have "fset (fmdom ts') = fst ` set (an_exclude_selectors an) \<union> fst ` set (artifact_selections setup_cs filters) \<union>
      fst ` set (an_target_selectors an) \<union> fset (fmdom ts)"
    using try_fold_add_address_dom [OF m(1)] try_fold_add_address_dom [OF m(2)]
    by (auto simp: fset_of_list.rep_eq)
  moreover have "fset (fmdom (setup_targets setup_cs filters an to)) =
      {a. \<exists>identifier abi. fmlookup setup_cs a = Some (identifier, abi) \<and> selected_setup_contract filters an to a identifier}"
    using setup_targets_dom by blast
  moreover have "{0, CHEATCODE_ADDRESS} \<subseteq> set (sf_excluded senders)"
    "set (sf_targeted senders) \<inter> set (sf_excluded senders) = {}"
    unfolding sf by (auto simp: sender_filters_excluded)
  ultimately show ?thesis using target_interfaces_dom [OF i] sel(2,3) by auto
qed

text \<open>
  C27. The end of a run takes back exactly the collected addresses. After any number of calls whose
  changesets are collected, \<^verbatim>\<open>clear_created_contracts\<close> leaves every target that was not collected as it
  was before the run, so a campaign whose targets are all set-up contracts gets its targets back;
  but an address that was a target before the run (through \<^verbatim>\<open>targetInterfaces\<close>) and was collected
  during it is no target any more.
\<close>

theorem run_restores_targets:
  assumes "collect_run project setup_cs filters css fr [] = (fr', created)"
  shows "(\<forall>a. fmlookup (fr_targets (clear_created_contracts fr' created)) a =
              (if a \<in> set created then None else fmlookup (fr_targets fr) a)) \<and>
         ((\<forall>a. fmlookup (fr_targets fr) a \<noteq> None \<longrightarrow> fmlookup setup_cs a \<noteq> None) \<longrightarrow>
            fr_targets (clear_created_contracts fr' created) = fr_targets fr)"
proof -
  have "same_but [] (fr_targets fr) (fr_targets fr)" by (simp add: same_but_def)
  note s = collect_run_same [OF assms this]
  have l: "fmlookup (fr_targets (clear_created_contracts fr' created)) a =
              (if a \<in> set created then None else fmlookup (fr_targets fr) a)" for a
    using s by (auto simp: clear_created_lookup same_but_def)
  have "fr_targets (clear_created_contracts fr' created) = fr_targets fr"
    if "\<forall>a. fmlookup (fr_targets fr) a \<noteq> None \<longrightarrow> fmlookup setup_cs a \<noteq> None"
    using that s by (intro clear_created_same) auto
  then show ?thesis using l by blast
qed

text \<open>A fork test: the token at address 5 is no set-up contract and is targeted by its interface.\<close>

definition token_function :: "string \<Rightarrow> u32 \<Rightarrow> abi_function" where
  "token_function nm sel = \<lparr>fn_name = nm, fn_inputs = [], fn_selector = sel, fn_mutability = NonPayable\<rparr>"

definition token_abi :: "(string \<times> u32 list) list \<Rightarrow> json_abi" where
  "token_abi fs = \<lparr>ja_functions = fmap_of_list (map (\<lambda>(nm, sels). (nm, map (token_function nm) sels)) fs)\<rparr>"

definition token :: "(artifact_id \<times> contract_data) list" where
  "token = [(\<lparr>ai_name = ''Token'', ai_identifier = ''t.sol:Token''\<rparr>,
             (plain_contract ''Token'' [1, 2, 3])\<lparr>co_abi := token_abi [(''burn'', [1])]\<rparr>)]"

definition no_answers :: answers where
  "no_answers =
     \<lparr>an_target_artifact_selectors = [], an_target_artifacts = [], an_exclude_artifacts = [], an_target_senders = [],
      an_exclude_senders = [], an_target_contracts = [], an_exclude_contracts = [], an_target_interfaces = [],
      an_target_selectors = [], an_exclude_selectors = []\<rparr>"

definition no_filters :: artifact_filters where
  "no_filters = \<lparr>af_targeted = fmempty, af_excluded = []\<rparr>"

lemma token_found: "find_by_deployed_code token [1, 2, 3] = Some (hd token)"
  by (simp add: find_by_deployed_code_def find_by_code_def scored_def token_def List.map_filter_def
      contract_deployed_bytecode_def plain_contract_def bd_bytes_def present_def Let_def bytecode_diff_score_def
      score_close_def)

lemma token_named: "find_by_name_or_identifier token ''Token'' = Inr (Some (hd token))"
  by (simp add: find_by_name_or_identifier_def token_def)

theorem run_restores_targets_witness:
  "\<exists>fr. select_contracts_and_senders token fmempty no_filters
          (no_answers\<lparr>an_target_interfaces := [(5, [''Token''])]\<rparr>) 9 = Inr fr \<and>
        fmlookup (fr_targets (snd fr)) 5 \<noteq> None \<and>
        (let (fr', created) = collect_run token fmempty no_filters [[(5, True, Some [1, 2, 3])]] (snd fr) []
         in fmlookup (fr_targets (clear_created_contracts fr' created)) 5 = None)"
proof -
  let ?c = "targeted_contract_new ''Token'' (co_abi (snd (hd token)))"
  let ?fr = "\<lparr>fr_targets = fmupd 5 ?c fmempty, fr_is_updatable = True\<rparr>"
  let ?an = "no_answers\<lparr>an_target_interfaces := [(5, [''Token''])]\<rparr>"
  have an: "an_target_interfaces ?an = [(5, [''Token''])]" "an_target_contracts ?an = []" "an_target_selectors ?an = []"
    "an_exclude_selectors ?an = []"
    by (simp_all add: no_answers_def)
  have none: "setup_targets fmempty no_filters ?an 9 = fmempty" by (rule fmap_ext) (simp add: setup_targets_def)
  have ti: "target_interfaces token ?an fmempty = Inr (fmupd 5 ?c fmempty)"
    unfolding target_interfaces_def an using token_named by (cases "hd token") (simp add: add_interface_def)
  have "artifact_selections fmempty no_filters = []"
    by (simp add: artifact_selections_def List.map_filter_def sorted_list_of_fset_def)
  then have ss: "select_selectors fmempty no_filters ?an ts = Inr ts" for ts
    unfolding select_selectors_def an by simp
  have ne: "fmupd 5 ?c fmempty \<noteq> fmempty" by (metis fmdom_empty fmdom_fmupd finsert_not_fempty)
  have sel: "\<exists>sf. select_contracts_and_senders token fmempty no_filters ?an 9 = Inr (sf, ?fr)"
    unfolding select_contracts_and_senders_def none ti Let_def using ss ne an(2) by simp
  obtain fr' created where run: "collect_run token fmempty no_filters [[(5, True, Some [1, 2, 3])]] ?fr [] = (fr', created)"
    using prod.exhaust by blast
  have "5 \<in> set created"
    using run token_found
    by (auto simp: collect_created_contracts_def created_contract_def get_targeted_functions_def no_filters_def
        token_def split: if_splits)
  then have lost: "fmlookup (fr_targets (clear_created_contracts fr' created)) 5 = None"
    using run_restores_targets [OF run] by metis
  obtain sf where sf: "select_contracts_and_senders token fmempty no_filters ?an 9 = Inr (sf, ?fr)" using sel by blast
  show ?thesis
    by (intro exI [of _ "(sf, ?fr)"]) (simp add: sf run lost del: collect_run.simps)
qed


definition two_contracts :: contracts_by_address where
  "two_contracts =
     fmap_of_list [(1, (''a.sol:A'', token_abi [(''f'', [7])])), (2, (''b.sol:B'', token_abi [(''g'', [8])]))]"

definition one_target :: answers where
  "one_target = no_answers\<lparr>an_target_contracts := [1], an_exclude_selectors := [(2, [8])]\<rparr>"

lemma two_contracts_lookup:
  "fmlookup two_contracts 1 = Some (''a.sol:A'', token_abi [(''f'', [7])])"
  "fmlookup two_contracts 2 = Some (''b.sol:B'', token_abi [(''g'', [8])])"
  "fmlookup two_contracts a = Some x \<Longrightarrow> a = 1 \<or> a = 2"
  by (auto simp: two_contracts_def split: if_splits)

lemma one_target_answers:
  "an_target_interfaces one_target = []" "an_target_contracts one_target = [1]" "an_target_selectors one_target = []"
  "an_exclude_selectors one_target = [(2, [8])]" "an_exclude_contracts one_target = []"
  by (simp_all add: one_target_def no_answers_def)

lemma one_target_selected:
  "selected_setup_contract no_filters one_target 9 a x \<longleftrightarrow> a = 1"
  by (auto simp: selected_setup_contract_def one_target_answers matches_def no_filters_def
      CHEATCODE_ADDRESS_def HARDHAT_CONSOLE_ADDRESS_def)

lemma no_artifact_selections: "artifact_selections setup_cs no_filters = []"
  by (auto simp: artifact_selections_def no_filters_def List.map_filter_def filter_empty_conv split: option.splits)

theorem targets_exact_witness:
  "\<exists>senders fr. select_contracts_and_senders token two_contracts no_filters one_target 9 = Inr (senders, fr) \<and>
      fset (fmdom (fr_targets fr)) = {1, 2}"
proof -
  have ti: "target_interfaces token one_target ts = Inr ts" for ts
    unfolding target_interfaces_def one_target_answers by simp
  let ?ts = "setup_targets two_contracts no_filters one_target 9"
  have l2: "fmlookup ?ts 2 = None"
    by (simp add: setup_targets_def one_target_selected two_contracts_lookup)
  have g: "get_function ''b.sol:B'' 8 (token_abi [(''g'', [8])]) = Inr (token_function ''g'' 8)"
    by (simp add: get_function_def abi_functions_def token_abi_def token_function_def sorted_list_of_fset_def)
  obtain c where c: "add_address_with_functions two_contracts True ?ts (2, [8]) = Inr (fmupd 2 c ?ts)"
    using g by (simp add: add_address_with_functions_def l2 two_contracts_lookup targeted_contract_new_def)
  have ss: "select_selectors two_contracts no_filters one_target ?ts = Inr (fmupd 2 c ?ts)"
    unfolding select_selectors_def one_target_answers no_artifact_selections by (simp add: c)
  have "fmupd 2 c ?ts \<noteq> fmempty" by (metis fmdom_empty fmdom_fmupd finsert_not_fempty)
  then obtain sf fr where ok: "select_contracts_and_senders token two_contracts no_filters one_target 9 = Inr (sf, fr)"
    unfolding select_contracts_and_senders_def ti Let_def by (simp add: ss)
  have "fset (fmdom (fr_targets fr)) = {1, 2}"
    using targets_exact [OF ok] two_contracts_lookup
    unfolding one_target_answers no_artifact_selections one_target_selected by auto
  then show ?thesis using ok by blast
qed

text \<open>
  C37. Interfaces with the same function name. \<^verbatim>\<open>targetInterfaces\<close> promises that the functions of the
  interfaces named for one address are merged. When two interfaces declare a function of the same
  name, only the overloads of the later one remain: a function that only the earlier interface
  declares is not among the functions of the target, and is never fuzzed.
\<close>

theorem interface_overloads_lost:
  assumes "an_target_interfaces an = [(addr, [i, j])]"
    and "find_by_name_or_identifier project i = Inr (Some (a, c))"
    and "find_by_name_or_identifier project j = Inr (Some (b, d))"
    and "fmlookup (ja_functions (co_abi c)) nm = Some fs" "fmlookup (ja_functions (co_abi d)) nm = Some gs"
    and "f \<in> set fs" "f \<notin> set gs"
    and "\<And>n hs. fmlookup (ja_functions (co_abi c)) n = Some hs \<Longrightarrow> \<forall>h\<in>set hs. fn_name h = n"
    and "\<And>n hs. fmlookup (ja_functions (co_abi d)) n = Some hs \<Longrightarrow> \<forall>h\<in>set hs. fn_name h = n"
  shows "\<exists>t ts'. target_interfaces project an ts = Inr ts' \<and> fmlookup ts' addr = Some t \<and>
           f \<in> set (abi_functions (co_abi c)) \<and> f \<notin> set (abi_functions (tc_abi t))"
proof -
  let ?abi = "extend_abi (co_abi c) (co_abi d)"
  let ?t = "(targeted_contract_new i (co_abi c))\<lparr>tc_abi := ?abi\<rparr>"
  have ti: "target_interfaces project an ts = Inr (ts ++\<^sub>f fmupd addr ?t (fmupd addr (targeted_contract_new i (co_abi c)) fmempty))"
    unfolding target_interfaces_def assms(1)
    using assms(2,3) by (simp add: add_interface_def targeted_contract_new_def)
  have mem: "g \<in> set (abi_functions abi) \<longleftrightarrow> (\<exists>n hs. fmlookup (ja_functions abi) n = Some hs \<and> g \<in> set hs)" for g abi
    by (force simp: abi_functions_def fmlookup_dom_iff sorted_list_of_fset.rep_eq)
  have "f \<notin> set (abi_functions ?abi)"
  proof
    assume "f \<in> set (abi_functions ?abi)"
    then obtain n hs where n: "fmlookup (ja_functions ?abi) n = Some hs" "f \<in> set hs" using mem by blast
    have fn: "fn_name f = nm" using assms(4,6,8) by blast
    have "n = nm" using n fn assms(8,9) by (auto simp: extend_abi_def split: if_splits)
    then show False using n assms(5,7) by (auto simp: extend_abi_def fmdom_notD split: if_splits)
  qed
  moreover have "f \<in> set (abi_functions (co_abi c))" using mem assms(4,6) by blast
  ultimately show ?thesis using ti by simp
qed

definition two_interfaces :: "(artifact_id \<times> contract_data) list" where
  "two_interfaces =
     [(\<lparr>ai_name = ''I'', ai_identifier = ''i.sol:I''\<rparr>, (plain_contract ''I'' [])\<lparr>co_abi := token_abi [(''send'', [1])]\<rparr>),
      (\<lparr>ai_name = ''J'', ai_identifier = ''j.sol:J''\<rparr>, (plain_contract ''J'' [])\<lparr>co_abi := token_abi [(''send'', [2])]\<rparr>)]"

theorem interface_overloads_lost_witness:
  "\<exists>t ts. target_interfaces two_interfaces (no_answers\<lparr>an_target_interfaces := [(5, [''I'', ''J''])]\<rparr>) fmempty = Inr ts \<and>
     fmlookup ts 5 = Some t \<and> token_function ''send'' 1 \<in> set (abi_functions (token_abi [(''send'', [1])])) \<and>
     token_function ''send'' 1 \<notin> set (abi_functions (tc_abi t))"
proof -
  let ?c = "snd (two_interfaces ! 0)" and ?d = "snd (two_interfaces ! 1)"
  have abi: "co_abi ?c = token_abi [(''send'', [1])]" "co_abi ?d = token_abi [(''send'', [2])]"
    by (simp_all add: two_interfaces_def)
  have names: "fmlookup (ja_functions (token_abi [(''send'', [k])])) n = Some hs \<Longrightarrow> \<forall>h\<in>set hs. fn_name h = n" for k :: u32 and n hs
    by (auto simp: token_abi_def token_function_def split: if_splits)
  have f: "find_by_name_or_identifier two_interfaces ''I'' = Inr (Some (fst (two_interfaces ! 0), ?c))"
    "find_by_name_or_identifier two_interfaces ''J'' = Inr (Some (fst (two_interfaces ! 1), ?d))"
    by (simp_all add: find_by_name_or_identifier_def two_interfaces_def)
  have an: "an_target_interfaces (no_answers\<lparr>an_target_interfaces := [(5, [''I'', ''J''])]\<rparr>) = [(5, [''I'', ''J''])]" by simp
  have l: "fmlookup (ja_functions (token_abi [(''send'', [k])])) ''send'' = Some [token_function ''send'' k]" for k
    by (simp add: token_abi_def)
  have m: "token_function ''send'' 1 \<in> set [token_function ''send'' 1]"
    "token_function ''send'' 1 \<notin> set [token_function ''send'' 2]"
    by (simp_all add: token_function_def)
  show ?thesis
    using interface_overloads_lost [where ts = fmempty, OF an f, unfolded abi, OF l l m names [of 1] names [of 2]] by blast
qed

end
