(* ===== verification/Invariant_Campaign.thy ===== *)
theory Invariant_Campaign
  imports Invariant_Targets
begin

text \<open>
  The invariant test campaign: \<^verbatim>\<open>crates/evm/evm/src/executors/invariant/{mod,result,error,replay}.rs\<close>.

  \<^item> \<open>invariant_data\<close> is \<^verbatim>\<open>InvariantTest\<close> with its \<^verbatim>\<open>InvariantTestData\<close>, \<open>invariant_run\<close> is \<^verbatim>\<open>InvariantTestRun\<close>.
    The fuzz dictionary and the traces are left out: the dictionary only feeds the generator of calls,
    and the generator is an arbitrary sequence of draws here (\<open>None\<close> is a failed generation).
  \<^item> \<open>run_iteration\<close> is the body of the loop of a run, \<open>run_loop\<close> the loop (a \<open>partial_function\<close>, since
    the reject counter can wrap), \<open>invariant_run_case\<close> the closure given to the proptest runner and
    \<open>invariant_fuzz\<close> the campaign, in which the runner calls the closure on the generated first calls
    until it fails.
  \<^item> \<open>replay_error\<close> shrinks the recorded sequence.

  The lemmas show that a recorded broken invariant replays from the state before the campaign, that
  the reported counterexample breaks the invariant, that a run ends, and that a failure of
  \<^verbatim>\<open>afterInvariant\<close> is recorded with a call that was never made.
\<close>

section \<open>Data\<close>

definition MAGIC_ASSUME :: "u8 list" where
  "MAGIC_ASSUME = map (\<lambda>c. word_of_nat (of_char c)) ''FOUNDRY::ASSUME''"

datatype invariant_fuzz_error = Revert failed_case | BrokenInvariant failed_case | MaxAssumeRejects u32

record invariant_failures =
  if_reverts :: nat
  if_error :: "invariant_fuzz_error option"

record fuzz_case =
  fz_calldata :: "u8 list"
  fz_gas :: u64
  fz_stipend :: u64

record invariant_config =
  ic_depth :: u32
  ic_fail_on_revert :: bool
  ic_shrink_run_limit :: u32
  ic_max_assume_rejects :: u32

record invariant_contract =
  iv_address :: address
  iv_function_inputs :: "string list"
  iv_calldata :: "u8 list"
  iv_call_after_invariant :: bool

record ('c, 'v, 'cs) invariant_data =
  id_targets :: fuzz_run_contracts
  id_fuzz_cases :: "fuzz_case list list"
  id_failures :: invariant_failures
  id_last_run_inputs :: "basic_tx_details list"
  id_last_call_results :: "('c, 'v, 'cs) raw_call_result option"

record ('b, 'c) invariant_run =
  ir_inputs :: "basic_tx_details list"
  ir_executor :: "('b, 'c) executor"
  ir_fuzz_runs :: "fuzz_case list"
  ir_created_contracts :: "address list"
  ir_depth :: u32
  ir_rejects :: u32

text \<open>What the \<^verbatim>\<open>InvariantExecutor\<close> holds besides the executor.\<close>

record campaign_setup =
  cs_config :: invariant_config
  cs_contract :: invariant_contract
  cs_project :: contracts_by_artifact
  cs_setup_contracts :: contracts_by_address
  cs_filters :: artifact_filters

definition failed_case_new :: "campaign_setup \<Rightarrow> basic_tx_details list \<Rightarrow> failed_case" where
  "failed_case_new cs calls =
     \<lparr>fc_calls = calls, fc_addr = iv_address (cs_contract cs), fc_calldata = iv_calldata (cs_contract cs),
      fc_shrink_run_limit = ic_shrink_run_limit (cs_config cs),
      fc_fail_on_revert = ic_fail_on_revert (cs_config cs)\<rparr>"

definition has_errors :: "('c, 'v, 'cs) invariant_data \<Rightarrow> bool" where
  "has_errors d = (if_error (id_failures d) = None)"

definition set_error :: "invariant_fuzz_error \<Rightarrow> ('c, 'v, 'cs) invariant_data \<Rightarrow> ('c, 'v, 'cs) invariant_data" where
  "set_error e d = d\<lparr>id_failures := (id_failures d)\<lparr>if_error := Some e\<rparr>\<rparr>"

section \<open>Assertions\<close>

definition assert_invariants ::
  "('b, 'c, 'v, 'cs) vm \<Rightarrow> campaign_setup \<Rightarrow> ('b, 'c) executor \<Rightarrow> basic_tx_details list \<Rightarrow> invariant_failures \<Rightarrow>
   (string, ('c, 'v, 'cs) raw_call_result option \<times> invariant_failures) result" where
  "assert_invariants vm cs e calls failures =
     (case call_invariant_function vm e (iv_address (cs_contract cs)) (iv_calldata (cs_contract cs)) of
        Inl err \<Rightarrow> Inl err
      | Inr (r, success) \<Rightarrow>
          if \<not> success \<and> if_error failures = None
          then Inr (None, failures\<lparr>if_error := Some (BrokenInvariant (failed_case_new cs calls))\<rparr>)
          else Inr (Some r, failures))"

definition handlers_succeeded ::
  "('b, 'c, 'v, 'cs) vm \<Rightarrow> ('b, 'c) executor \<Rightarrow> fuzz_run_contracts \<Rightarrow> 'cs \<Rightarrow> bool" where
  "handlers_succeeded vm e fr changeset =
     list_all (\<lambda>addr. is_success vm e addr False changeset False) (sorted_list_of_fset (fmdom (fr_targets fr)))"

text \<open>The result is the flag \<^verbatim>\<open>can_continue\<close>, the call result and the updated test data.\<close>

definition can_continue ::
  "('b, 'c, 'v, 'cs) vm \<Rightarrow> campaign_setup \<Rightarrow> ('c, 'v, 'cs) invariant_data \<Rightarrow> ('b, 'c) invariant_run \<Rightarrow>
   ('c, 'v, 'cs) raw_call_result \<Rightarrow> 'cs \<Rightarrow>
   (string, bool \<times> ('c, 'v, 'cs) raw_call_result option \<times> ('c, 'v, 'cs) invariant_data) result" where
  "can_continue vm cs d run r changeset =
     (if \<not> rc_reverted r \<and> handlers_succeeded vm (ir_executor run) (id_targets d) changeset then
        (case assert_invariants vm cs (ir_executor run) (ir_inputs run) (id_failures d) of
           Inl err \<Rightarrow> Inl err
         | Inr (res, failures) \<Rightarrow> Inr (res \<noteq> None, res, d\<lparr>id_failures := failures\<rparr>))
      else
        (let d1 = d\<lparr>id_failures := (id_failures d)\<lparr>if_reverts := if_reverts (id_failures d) + 1\<rparr>\<rparr>
         in if ic_fail_on_revert (cs_config cs)
            then Inr (False, None, set_error (Revert (failed_case_new cs (ir_inputs run))) d1)
            else Inr (True, None, d1)))"

definition assert_after_invariant ::
  "('b, 'c, 'v, 'cs) vm \<Rightarrow> campaign_setup \<Rightarrow> ('c, 'v, 'cs) invariant_data \<Rightarrow> ('b, 'c) invariant_run \<Rightarrow>
   (string, bool \<times> ('c, 'v, 'cs) invariant_data) result" where
  "assert_after_invariant vm cs d run =
     (case call_after_invariant_function vm (ir_executor run) (iv_address (cs_contract cs)) of
        Inl err \<Rightarrow> Inl err
      | Inr (_, success) \<Rightarrow>
          Inr (success, if success then d
                        else set_error (BrokenInvariant (failed_case_new cs (ir_inputs run))) d))"

section \<open>A run\<close>

definition run_new :: "basic_tx_details \<Rightarrow> ('b, 'c) executor \<Rightarrow> ('b, 'c) invariant_run" where
  "run_new first_input e =
     \<lparr>ir_inputs = [first_input], ir_executor = e, ir_fuzz_runs = [], ir_created_contracts = [], ir_depth = 0,
      ir_rejects = 0\<rparr>"

text \<open>How an iteration ends: the closure returns an error, the loop breaks, or the next call is drawn.\<close>

datatype flow = Fail string | Break | Next

text \<open>A call that was not rejected: targets, statistics, assertions and depth.\<close>

definition run_accepted ::
  "('b, 'c, 'v, 'cs) vm \<Rightarrow> campaign_setup \<Rightarrow> ('c, 'v, 'cs) invariant_data \<Rightarrow> ('b, 'c) invariant_run \<Rightarrow>
   basic_tx_details \<Rightarrow> ('c, 'v, 'cs) raw_call_result \<Rightarrow>
   flow \<times> ('c, 'v, 'cs) invariant_data \<times> ('b, 'c) invariant_run" where
  "run_accepted vm cs d run tx r =
     (let changeset = rc_changeset r;
          (_, fr, created) = collect_created_contracts (id_targets d) (vm_changed vm changeset) (cs_project cs)
             (cs_setup_contracts cs) (cs_filters cs) (ir_created_contracts run);
          d1 = d\<lparr>id_targets := fr\<rparr>;
          run1 = run\<lparr>ir_created_contracts := created,
                     ir_fuzz_runs := ir_fuzz_runs run @
                       [\<lparr>fz_calldata = cd_calldata (bt_call_details tx), fz_gas = rc_gas_used r, fz_stipend = rc_stipend r\<rparr>]\<rparr>
      in case can_continue vm cs d1 run1 r changeset of
           Inl err \<Rightarrow> (Fail err, d1, run1)
         | Inr (go_on, res, d2) \<Rightarrow>
             (let d3 = (if \<not> go_on \<or> ir_depth run1 = ic_depth (cs_config cs) - 1
                        then d2\<lparr>id_last_run_inputs := ir_inputs run1\<rparr> else d2)
              in if \<not> go_on then (Break, d3, run1)
                 else (Next, d3\<lparr>id_last_call_results := res\<rparr>, run1\<lparr>ir_depth := ir_depth run1 + 1\<rparr>)))"

definition run_iteration ::
  "('b, 'c, 'v, 'cs) vm \<Rightarrow> campaign_setup \<Rightarrow> ('c, 'v, 'cs) invariant_data \<Rightarrow> ('b, 'c) invariant_run \<Rightarrow>
   flow \<times> ('c, 'v, 'cs) invariant_data \<times> ('b, 'c) invariant_run" where
  "run_iteration vm cs d run =
     (if ir_inputs run = [] then (Fail ''No input generated to call fuzzed target.'', d, run)
      else
        (let tx = last (ir_inputs run)
         in case send_call vm (ir_executor run) tx of
              Inl err \<Rightarrow> (Fail (''Could not make raw evm call: '' @ err), d, run)
            | Inr (r, e) \<Rightarrow>
                (let run1 = run\<lparr>ir_executor := e\<rparr>
                 in if rc_result r = MAGIC_ASSUME then
                      (let run2 = run1\<lparr>ir_inputs := butlast (ir_inputs run1), ir_rejects := ir_rejects run1 + 1\<rparr>
                       in if ic_max_assume_rejects (cs_config cs) < ir_rejects run2
                          then (Fail ''Max number of vm.assume rejects reached.'',
                                set_error (MaxAssumeRejects (ic_max_assume_rejects (cs_config cs))) d, run2)
                          else (Next, d, run2))
                    else run_accepted vm cs d run1 tx r)))"

text \<open>The loop; \<open>k\<close> counts the calls drawn so far.\<close>

partial_function (option) run_loop ::
  "('b, 'c, 'v, 'cs) vm \<Rightarrow> campaign_setup \<Rightarrow> (nat \<Rightarrow> basic_tx_details option) \<Rightarrow> nat \<Rightarrow>
   ('c, 'v, 'cs) invariant_data \<Rightarrow> ('b, 'c) invariant_run \<Rightarrow>
   ((string, unit) result \<times> ('c, 'v, 'cs) invariant_data \<times> ('b, 'c) invariant_run) option" where
  "run_loop vm cs draws k d run =
     (if ir_depth run < ic_depth (cs_config cs) then
        (case run_iteration vm cs d run of
           (Fail err, d', run') \<Rightarrow> Some (Inl err, d', run')
         | (Break, d', run') \<Rightarrow> Some (Inr (), d', run')
         | (Next, d', run') \<Rightarrow>
             (case draws k of
                None \<Rightarrow> Some (Inl ''Could not generate case'', d', run')
              | Some tx \<Rightarrow> run_loop vm cs draws (k + 1) d' (run'\<lparr>ir_inputs := ir_inputs run' @ [tx]\<rparr>)))
      else Some (Inr (), d, run))"

declare run_loop.simps [code]

definition end_run ::
  "('c, 'v, 'cs) invariant_data \<Rightarrow> ('b, 'c) invariant_run \<Rightarrow> ('c, 'v, 'cs) invariant_data" where
  "end_run d run =
     d\<lparr>id_targets := clear_created_contracts (id_targets d) (ir_created_contracts run),
       id_fuzz_cases := id_fuzz_cases d @ [ir_fuzz_runs run]\<rparr>"

definition invariant_run_case ::
  "('b, 'c, 'v, 'cs) vm \<Rightarrow> campaign_setup \<Rightarrow> ('b, 'c) executor \<Rightarrow> basic_tx_details \<Rightarrow>
   (nat \<Rightarrow> basic_tx_details option) \<Rightarrow> ('c, 'v, 'cs) invariant_data \<Rightarrow>
   ((string, unit) result \<times> ('c, 'v, 'cs) invariant_data) option" where
  "invariant_run_case vm cs e first_input draws d =
     (if ic_fail_on_revert (cs_config cs) \<and> 0 < if_reverts (id_failures d) then Some (Inl ''Revert occurred.'', d)
      else
        (case run_loop vm cs draws 0 d (run_new first_input e) of
           None \<Rightarrow> None
         | Some (Inl err, d', run) \<Rightarrow> Some (Inl err, d')
         | Some (Inr _, d', run) \<Rightarrow>
             if iv_call_after_invariant (cs_contract cs) \<and> has_errors d' then
               (case assert_after_invariant vm cs d' run of
                  Inl err \<Rightarrow> Some (Inl ''Failed to call afterInvariant'', d')
                | Inr (_, d'') \<Rightarrow> Some (Inr (), end_run d'' run))
             else Some (Inr (), end_run d' run)))"

section \<open>The campaign\<close>

definition invariant_data_new ::
  "fuzz_run_contracts \<Rightarrow> invariant_failures \<Rightarrow> ('c, 'v, 'cs) raw_call_result option \<Rightarrow>
   ('c, 'v, 'cs) invariant_data" where
  "invariant_data_new fr failures res =
     \<lparr>id_targets = fr, id_fuzz_cases = (if res = None then [[]] else []), id_failures = failures,
      id_last_run_inputs = [], id_last_call_results = res\<rparr>"

definition prepare_test ::
  "('b, 'c, 'v, 'cs) vm \<Rightarrow> campaign_setup \<Rightarrow> answers \<Rightarrow> ('b, 'c) executor \<Rightarrow>
   (string, campaign_setup \<times> ('c, 'v, 'cs) invariant_data) result" where
  "prepare_test vm cs an e =
     (case select_contract_artifacts (cs_project cs) an (cs_filters cs) of
        Inl err \<Rightarrow> Inl err
      | Inr filters \<Rightarrow>
          (case select_contracts_and_senders (cs_project cs) (cs_setup_contracts cs) filters an
                  (iv_address (cs_contract cs)) of
             Inl err \<Rightarrow> Inl err
           | Inr (_, fr) \<Rightarrow>
               (case assert_invariants vm cs e [] \<lparr>if_reverts = 0, if_error = None\<rparr> of
                  Inl err \<Rightarrow> Inl err
                | Inr (res, failures) \<Rightarrow> Inr (cs\<lparr>cs_filters := filters\<rparr>, invariant_data_new fr failures res))))"

text \<open>The proptest runner calls the closure until it returns an error.\<close>

fun run_cases ::
  "('b, 'c, 'v, 'cs) vm \<Rightarrow> campaign_setup \<Rightarrow> ('b, 'c) executor \<Rightarrow>
   (basic_tx_details \<times> (nat \<Rightarrow> basic_tx_details option)) list \<Rightarrow> ('c, 'v, 'cs) invariant_data \<Rightarrow>
   ('c, 'v, 'cs) invariant_data option" where
  "run_cases vm cs e [] d = Some d"
| "run_cases vm cs e ((first_input, draws) # cases) d =
     (case invariant_run_case vm cs e first_input draws d of
        None \<Rightarrow> None
      | Some (Inl _, d') \<Rightarrow> Some d'
      | Some (Inr _, d') \<Rightarrow> run_cases vm cs e cases d')"

definition invariant_fuzz ::
  "('b, 'c, 'v, 'cs) vm \<Rightarrow> campaign_setup \<Rightarrow> answers \<Rightarrow> ('b, 'c) executor \<Rightarrow>
   (basic_tx_details \<times> (nat \<Rightarrow> basic_tx_details option)) list \<Rightarrow>
   (string, ('c, 'v, 'cs) invariant_data) result option" where
  "invariant_fuzz vm cs an e cases =
     (if iv_function_inputs (cs_contract cs) \<noteq> [] then Some (Inl ''Invariant test function should have no inputs'')
      else
        (case prepare_test vm cs an e of
           Inl err \<Rightarrow> Some (Inl err)
         | Inr (cs', d) \<Rightarrow> map_option Inr (run_cases vm cs' e cases d)))"

text \<open>\<^verbatim>\<open>replay_error\<close>, up to the replay of the shrunk sequence for logs and traces.\<close>

definition replay_calls ::
  "('b, 'c, 'v, 'cs) vm \<Rightarrow> failed_case \<Rightarrow> bool \<Rightarrow> ('b, 'c) executor \<Rightarrow> (string, basic_tx_details list) result option" where
  "replay_calls vm fc call_after e = shrink_sequence vm fc (fc_calls fc) e call_after"


section \<open>Runs\<close>

text \<open>How a loop that satisfies \<open>I\<close> at every iteration ends: \<open>ended\<close> relates the last state that
  satisfied it to the outcome.\<close>

definition ended ::
  "('b, 'c, 'v, 'cs) vm \<Rightarrow> campaign_setup \<Rightarrow> ('c, 'v, 'cs) invariant_data \<Rightarrow> ('b, 'c) invariant_run \<Rightarrow>
   (string, unit) result \<times> ('c, 'v, 'cs) invariant_data \<times> ('b, 'c) invariant_run \<Rightarrow> bool" where
  "ended vm cs d run y \<longleftrightarrow>
     \<not> ir_depth run < ic_depth (cs_config cs) \<and> y = (Inr (), d, run) \<or>
     ir_depth run < ic_depth (cs_config cs) \<and>
     (\<exists>fl d' run'. run_iteration vm cs d run = (fl, d', run') \<and>
        (fl = Break \<and> y = (Inr (), d', run') \<or> fl \<noteq> Break \<and> (\<exists>err. y = (Inl err, d', run'))))"

lemma run_loop_ended:
  fixes vm :: "('b, 'c, 'v, 'cs) vm" and d :: "('c, 'v, 'cs) invariant_data" and run :: "('b, 'c) invariant_run"
  assumes "run_loop vm cs draws k d run = Some y" "I d run"
    and "\<And>d run d' run' tx. I d run \<Longrightarrow> ir_depth run < ic_depth (cs_config cs) \<Longrightarrow>
           run_iteration vm cs d run = (Next, d', run') \<Longrightarrow> I d' (run'\<lparr>ir_inputs := ir_inputs run' @ [tx]\<rparr>)"
  shows "\<exists>d0 run0. I d0 run0 \<and> ended vm cs d0 run0 y"
proof -
  have "I d run \<longrightarrow> (\<forall>d run d' run' tx. I d run \<longrightarrow> ir_depth run < ic_depth (cs_config cs) \<longrightarrow>
           run_iteration vm cs d run = (Next, d', run') \<longrightarrow> I d' (run'\<lparr>ir_inputs := ir_inputs run' @ [tx]\<rparr>)) \<longrightarrow>
        (\<exists>d0 run0. I d0 run0 \<and> ended vm cs d0 run0 y)"
  proof (rule run_loop.raw_induct [where P = "\<lambda>vm cs draws k d run y. I d run \<longrightarrow>
        (\<forall>d run d' run' tx. I d run \<longrightarrow> ir_depth run < ic_depth (cs_config cs) \<longrightarrow>
           run_iteration vm cs d run = (Next, d', run') \<longrightarrow> I d' (run'\<lparr>ir_inputs := ir_inputs run' @ [tx]\<rparr>)) \<longrightarrow>
        (\<exists>d0 run0. I d0 run0 \<and> ended vm cs d0 run0 y)", OF _ assms(1)], intro impI)
    fix f :: "('b, 'c, 'v, 'cs) vm \<Rightarrow> campaign_setup \<Rightarrow> (nat \<Rightarrow> basic_tx_details option) \<Rightarrow> nat \<Rightarrow>
        ('c, 'v, 'cs) invariant_data \<Rightarrow> ('b, 'c) invariant_run \<Rightarrow> _"
      and vm cs draws k d run y
    assume IH: "\<And>vm cs draws k d run y. f vm cs draws k d run = Some y \<Longrightarrow> I d run \<longrightarrow>
        (\<forall>d run d' run' tx. I d run \<longrightarrow> ir_depth run < ic_depth (cs_config cs) \<longrightarrow>
           run_iteration vm cs d run = (Next, d', run') \<longrightarrow> I d' (run'\<lparr>ir_inputs := ir_inputs run' @ [tx]\<rparr>)) \<longrightarrow>
        (\<exists>d0 run0. I d0 run0 \<and> ended vm cs d0 run0 y)"
    assume body: "(if ir_depth run < ic_depth (cs_config cs) then
        (case run_iteration vm cs d run of
           (Fail err, d', run') \<Rightarrow> Some (Inl err, d', run')
         | (Break, d', run') \<Rightarrow> Some (Inr (), d', run')
         | (Next, d', run') \<Rightarrow>
             (case draws k of
                None \<Rightarrow> Some (Inl ''Could not generate case'', d', run')
              | Some tx \<Rightarrow> f vm cs draws (k + 1) d' (run'\<lparr>ir_inputs := ir_inputs run' @ [tx]\<rparr>)))
      else Some (Inr (), d, run)) = Some y"
    assume I: "I d run" and step: "\<forall>d run d' run' tx. I d run \<longrightarrow> ir_depth run < ic_depth (cs_config cs) \<longrightarrow>
           run_iteration vm cs d run = (Next, d', run') \<longrightarrow> I d' (run'\<lparr>ir_inputs := ir_inputs run' @ [tx]\<rparr>)"
    obtain fl d' run' where it: "run_iteration vm cs d run = (fl, d', run')" using prod_cases3 by blast
    show "\<exists>d0 run0. I d0 run0 \<and> ended vm cs d0 run0 y"
    proof (cases "ir_depth run < ic_depth (cs_config cs) \<and> fl = Next \<and> draws k \<noteq> None")
      case True
      then obtain tx where tx: "draws k = Some tx" by auto
      then have "f vm cs draws (k + 1) d' (run'\<lparr>ir_inputs := ir_inputs run' @ [tx]\<rparr>) = Some y"
        using body it True by simp
      then show ?thesis using IH step I it True by blast
    next
      case False
      then have "ended vm cs d run y"
        using body it by (cases fl) (auto simp: ended_def split: if_splits option.splits)
      then show ?thesis using I by blast
    qed
  qed
  then show ?thesis using assms(2,3) by blast
qed


section \<open>Replaying what a run did\<close>

text \<open>The executor after a sequence of calls.\<close>

fun sent :: "('b, 'c, 'v, 'cs) vm \<Rightarrow> ('b, 'c) executor \<Rightarrow> basic_tx_details list \<Rightarrow> ('b, 'c) executor option" where
  "sent vm e [] = Some e"
| "sent vm e (tx # txs) = (case send_call vm e tx of Inl _ \<Rightarrow> None | Inr (_, e') \<Rightarrow> sent vm e' txs)"

lemma sent_append: "sent vm e (xs @ ys) = Option.bind (sent vm e xs) (\<lambda>e'. sent vm e' ys)"
  by (induction xs arbitrary: e) (auto split: sum.splits)

lemma check_sequence_sent:
  assumes "sent vm e (map (nth calls) is) = Some e'" "set is \<subseteq> {..<length calls}"
    and "check_invariant vm e' addr cd ca = Inr False"
  shows "\<exists>b. check_sequence vm e calls is addr cd fr ca = Some (Inr (False, b))"
  using assms(1,2)
proof (induction "is" arbitrary: e)
  case (Cons i "is")
  then show ?case by (auto split: sum.splits)
qed (use assms(3) in auto)

lemma sent_breaks:
  assumes "sent vm e calls = Some e'" "check_invariant vm e' (fc_addr fc) (fc_calldata fc) ca = Inr False"
  shows "breaks vm fc e ca calls"
  using check_sequence_sent [of vm e calls "[0..<length calls]" e' "fc_addr fc" "fc_calldata fc" ca "fc_fail_on_revert fc"] assms
  by (auto simp: map_nth breaks_def verdict_def lessThan_atLeast0)

text \<open>A call rejected by \<^verbatim>\<open>vm.assume\<close> leaves the executor as it was.\<close>

definition assume_rolls_back :: "('b, 'c, 'v, 'cs) vm \<Rightarrow> bool" where
  "assume_rolls_back vm \<longleftrightarrow>
     (\<forall>e tx r e'. send_call vm e tx = Inr (r, e') \<longrightarrow> rc_result r = MAGIC_ASSUME \<longrightarrow> e' = e)"

text \<open>The state of a run at the head of its loop: all inputs but the last one have been sent.\<close>

definition run_ok :: "('b, 'c, 'v, 'cs) vm \<Rightarrow> ('b, 'c) executor \<Rightarrow> ('b, 'c) invariant_run \<Rightarrow> bool" where
  "run_ok vm e run \<longleftrightarrow> ir_inputs run \<noteq> [] \<and> sent vm e (butlast (ir_inputs run)) = Some (ir_executor run) \<and>
     length (butlast (ir_inputs run)) = unat (ir_depth run)"

text \<open>Every recorded broken invariant replays from \<open>e\<close>.\<close>

definition error_ok ::
  "('b, 'c, 'v, 'cs) vm \<Rightarrow> campaign_setup \<Rightarrow> ('b, 'c) executor \<Rightarrow> ('c, 'v, 'cs) invariant_data \<Rightarrow> bool" where
  "error_ok vm cs e d \<longleftrightarrow> (\<forall>fc. if_error (id_failures d) = Some (BrokenInvariant fc) \<longrightarrow>
     fc = failed_case_new cs (fc_calls fc) \<and> length (fc_calls fc) \<le> unat (ic_depth (cs_config cs)) \<and>
     breaks vm fc e False (fc_calls fc))"

lemma failed_case_new_sel [simp]:
  "fc_calls (failed_case_new cs calls) = calls"
  "fc_addr (failed_case_new cs calls) = iv_address (cs_contract cs)"
  "fc_calldata (failed_case_new cs calls) = iv_calldata (cs_contract cs)"
  "fc_shrink_run_limit (failed_case_new cs calls) = ic_shrink_run_limit (cs_config cs)"
  by (simp_all add: failed_case_new_def)

lemma assert_invariants_error:
  assumes "assert_invariants vm cs ex calls failures = Inr (res, failures')" "sent vm e calls = Some ex"
    and "length calls \<le> unat (ic_depth (cs_config cs))" "error_ok vm cs e (d\<lparr>id_failures := failures\<rparr>)"
  shows "error_ok vm cs e (d\<lparr>id_failures := failures'\<rparr>)"
proof -
  obtain r success where c: "call_invariant_function vm ex (iv_address (cs_contract cs)) (iv_calldata (cs_contract cs)) = Inr (r, success)"
    using assms(1) by (auto simp: assert_invariants_def split: sum.splits)
  show ?thesis
  proof (cases "\<not> success \<and> if_error failures = None")
    case True
    then have f: "failures' = failures\<lparr>if_error := Some (BrokenInvariant (failed_case_new cs calls))\<rparr>"
      using assms(1) c by (simp add: assert_invariants_def)
    have "check_invariant vm ex (iv_address (cs_contract cs)) (iv_calldata (cs_contract cs)) False = Inr False"
      using c True by (simp add: check_invariant_def)
    then have "breaks vm (failed_case_new cs calls) e False calls"
      by (intro sent_breaks [OF assms(2)]) simp
    then show ?thesis using assms(3) by (simp add: error_ok_def f)
  next
    case False
    then have "failures' = failures" using assms(1) c by (auto simp: assert_invariants_def)
    then show ?thesis using assms(4) by simp
  qed
qed

lemma error_ok_failures: "id_failures d = id_failures d' \<Longrightarrow> error_ok vm cs e d = error_ok vm cs e d'"
  by (simp add: error_ok_def)

lemma can_continue_error:
  assumes "can_continue vm cs d run r changeset = Inr (go_on, res, d')" "sent vm e (ir_inputs run) = Some (ir_executor run)"
    and "length (ir_inputs run) \<le> unat (ic_depth (cs_config cs))" "error_ok vm cs e d"
  shows "error_ok vm cs e d'"
proof (cases "\<not> rc_reverted r \<and> handlers_succeeded vm (ir_executor run) (id_targets d) changeset")
  case True
  then obtain failures where a: "assert_invariants vm cs (ir_executor run) (ir_inputs run) (id_failures d) = Inr (res, failures)"
    and d': "d' = d\<lparr>id_failures := failures\<rparr>"
    using assms(1) by (auto simp: can_continue_def split: sum.splits)
  have "error_ok vm cs e (d\<lparr>id_failures := id_failures d\<rparr>)"
    using assms(4) by simp
  from assert_invariants_error [OF a assms(2,3) this] show ?thesis using d' by simp
next
  case False
  then show ?thesis
    using assms(1,4) by (auto simp: can_continue_def error_ok_def set_error_def Let_def split: if_splits)
qed


lemma can_continue_stops:
  "can_continue vm cs d run r changeset = Inr (False, res, d') \<Longrightarrow> if_error (id_failures d') \<noteq> None"
  by (auto simp: can_continue_def assert_invariants_def set_error_def Let_def split: sum.splits if_splits)

lemma run_accepted_ok:
  assumes "run_accepted vm cs d run tx r = (fl, d', run')" "sent vm e (ir_inputs run) = Some (ir_executor run)"
    and "length (ir_inputs run) = Suc (unat (ir_depth run))" "ir_depth run < ic_depth (cs_config cs)" "error_ok vm cs e d"
  shows "error_ok vm cs e d'" "ir_inputs run' = ir_inputs run" "ir_executor run' = ir_executor run"
    "fl = Next \<Longrightarrow> unat (ir_depth run') = Suc (unat (ir_depth run)) \<and> ir_rejects run' = ir_rejects run"
    "fl = Break \<Longrightarrow> if_error (id_failures d') \<noteq> None"
proof -
  obtain x fr created where c: "collect_created_contracts (id_targets d) (vm_changed vm (rc_changeset r)) (cs_project cs)
             (cs_setup_contracts cs) (cs_filters cs) (ir_created_contracts run) = (x, fr, created)"
    using prod_cases3 by blast
  let ?d1 = "d\<lparr>id_targets := fr\<rparr>"
  let ?run1 = "run\<lparr>ir_created_contracts := created,
                     ir_fuzz_runs := ir_fuzz_runs run @
                       [\<lparr>fz_calldata = cd_calldata (bt_call_details tx), fz_gas = rc_gas_used r, fz_stipend = rc_stipend r\<rparr>]\<rparr>"
  have len: "length (ir_inputs ?run1) \<le> unat (ic_depth (cs_config cs))"
    using assms(3,4) by (simp add: word_less_nat_alt)
  have d1: "error_ok vm cs e ?d1" using assms(5) error_ok_failures [of ?d1 d vm cs e] by simp
  have sent1: "sent vm e (ir_inputs ?run1) = Some (ir_executor ?run1)" using assms(2) by simp
  have depth: "unat (ir_depth run + 1) = Suc (unat (ir_depth run))"
    using assms(4) unat_add_1 [of "ir_depth run"] by (metis word_not_simps(3) word_order.extremum_strict)
  have acc: "run_accepted vm cs d run tx r =
     (case can_continue vm cs ?d1 ?run1 r (rc_changeset r) of
           Inl err \<Rightarrow> (Fail err, ?d1, ?run1)
         | Inr (go_on, res, d2) \<Rightarrow>
             (let d3 = (if \<not> go_on \<or> ir_depth ?run1 = ic_depth (cs_config cs) - 1
                        then d2\<lparr>id_last_run_inputs := ir_inputs ?run1\<rparr> else d2)
              in if \<not> go_on then (Break, d3, ?run1)
                 else (Next, d3\<lparr>id_last_call_results := res\<rparr>, ?run1\<lparr>ir_depth := ir_depth ?run1 + 1\<rparr>)))"
    unfolding run_accepted_def Let_def c by simp
  have "error_ok vm cs e d' \<and> ir_inputs run' = ir_inputs run \<and> ir_executor run' = ir_executor run \<and>
    (fl = Next \<longrightarrow> unat (ir_depth run') = Suc (unat (ir_depth run)) \<and> ir_rejects run' = ir_rejects run) \<and>
    (fl = Break \<longrightarrow> if_error (id_failures d') \<noteq> None)"
  proof (cases "can_continue vm cs ?d1 ?run1 r (rc_changeset r)")
    case (Inl err)
    then have "fl = Fail err" "d' = ?d1" "run' = ?run1" using assms(1) acc by auto
    then show ?thesis using d1 by simp
  next
    case (Inr y)
    obtain go_on res d2 where y: "y = (go_on, res, d2)" using prod_cases3 by blast
    have ok: "error_ok vm cs e d2" using can_continue_error [OF Inr [unfolded y] sent1 len d1] .
    have d': "id_failures d' = id_failures d2" and run': "run' = (if go_on then ?run1\<lparr>ir_depth := ir_depth ?run1 + 1\<rparr> else ?run1)"
      and fl: "fl = (if go_on then Next else Break)"
      using assms(1) unfolding acc Inr y by (auto simp: Let_def split: if_splits)
    have "if_error (id_failures d2) \<noteq> None" if "\<not> go_on"
      using that by (intro can_continue_stops [of vm cs ?d1 ?run1 r "rc_changeset r" res]) (simp add: Inr y)
    then show ?thesis using ok error_ok_failures [OF d', of vm cs e] d' run' fl depth by simp
  qed
  then show "error_ok vm cs e d'" "ir_inputs run' = ir_inputs run" "ir_executor run' = ir_executor run"
    "fl = Next \<Longrightarrow> unat (ir_depth run') = Suc (unat (ir_depth run)) \<and> ir_rejects run' = ir_rejects run"
    "fl = Break \<Longrightarrow> if_error (id_failures d') \<noteq> None"
    by blast+
qed


lemma run_iteration_ok:
  assumes "run_iteration vm cs d run = (fl, d', run')" "run_ok vm e run" "error_ok vm cs e d"
    and "ir_depth run < ic_depth (cs_config cs)" "assume_rolls_back vm"
  shows "error_ok vm cs e d'"
    "fl = Next \<Longrightarrow> run_ok vm e (run'\<lparr>ir_inputs := ir_inputs run' @ [tx]\<rparr>)"
    "fl = Break \<Longrightarrow> if_error (id_failures d') \<noteq> None"
proof -
  let ?tx = "last (ir_inputs run)" and ?done = "butlast (ir_inputs run)"
  have ne: "ir_inputs run \<noteq> []" and s: "sent vm e ?done = Some (ir_executor run)" and len: "length ?done = unat (ir_depth run)"
    using assms(2) by (auto simp: run_ok_def)
  have "error_ok vm cs e d' \<and> (fl = Next \<longrightarrow> run_ok vm e (run'\<lparr>ir_inputs := ir_inputs run' @ [tx]\<rparr>)) \<and>
    (fl = Break \<longrightarrow> if_error (id_failures d') \<noteq> None)"
  proof (cases "send_call vm (ir_executor run) ?tx")
    case (Inl err)
    then show ?thesis using assms(1,3) ne by (auto simp: run_iteration_def)
  next
    case (Inr y)
    obtain r ex where y: "y = (r, ex)" by fastforce
    let ?run1 = "run\<lparr>ir_executor := ex\<rparr>"
    show ?thesis
    proof (cases "rc_result r = MAGIC_ASSUME")
      case True
      then have "ex = ir_executor run" using assms(5) Inr y by (auto simp: assume_rolls_back_def)
      then show ?thesis
        using assms(1,3) ne s len Inr y True
        by (auto simp: run_iteration_def run_ok_def error_ok_def set_error_def Let_def split: if_splits)
    next
      case False
      then have acc: "run_accepted vm cs d ?run1 ?tx r = (fl, d', run')"
        using assms(1) ne Inr y by (simp add: run_iteration_def)
      have "sent vm e (?done @ [?tx]) = Some ex" using s Inr y by (simp add: sent_append)
      then have s1: "sent vm e (ir_inputs ?run1) = Some (ir_executor ?run1)"
        using append_butlast_last_id [OF ne] by simp
      have l1: "length (ir_inputs ?run1) = Suc (unat (ir_depth ?run1))"
        using len ne by (cases "ir_inputs run" rule: rev_cases) auto
      note a = run_accepted_ok [OF acc s1 l1 _ assms(3)]
      show ?thesis using a assms(4) s1 l1 by (simp add: run_ok_def)
    qed
  qed
  then show "error_ok vm cs e d'"
    "fl = Next \<Longrightarrow> run_ok vm e (run'\<lparr>ir_inputs := ir_inputs run' @ [tx]\<rparr>)"
    "fl = Break \<Longrightarrow> if_error (id_failures d') \<noteq> None"
    by blast+
qed

lemma run_new_ok: "run_ok vm e (run_new tx e)"
  by (simp add: run_ok_def run_new_def)

lemma run_loop_error:
  assumes "run_loop vm cs draws k d run = Some (res, d', run')" "run_ok vm e run" "error_ok vm cs e d"
    and "assume_rolls_back vm"
  shows "error_ok vm cs e d'"
    "res = Inr () \<Longrightarrow> if_error (id_failures d') = None \<Longrightarrow> run_ok vm e run' \<and> \<not> ir_depth run' < ic_depth (cs_config cs)"
proof -
  obtain d0 run0 where e0: "error_ok vm cs e d0 \<and> run_ok vm e run0" "ended vm cs d0 run0 (res, d', run')"
    using run_loop_ended [OF assms(1), of "\<lambda>d run. error_ok vm cs e d \<and> run_ok vm e run"] assms(2,3)
      run_iteration_ok [OF _ _ _ _ assms(4)] by metis
  show "error_ok vm cs e d'"
    using e0 run_iteration_ok [OF _ _ _ _ assms(4)] unfolding ended_def by (metis prod.inject)
  show "res = Inr () \<Longrightarrow> if_error (id_failures d') = None \<Longrightarrow> run_ok vm e run' \<and> \<not> ir_depth run' < ic_depth (cs_config cs)"
    using e0 run_iteration_ok(3) [OF _ _ _ _ assms(4)] unfolding ended_def by (metis prod.inject sum.distinct(1))
qed


section \<open>Campaigns\<close>

lemma failed_case_new_filters [simp]: "failed_case_new (cs\<lparr>cs_filters := f\<rparr>) = failed_case_new cs"
  by (rule ext) (simp add: failed_case_new_def)

lemma error_ok_filters [simp]: "error_ok vm (cs\<lparr>cs_filters := f\<rparr>) e d = error_ok vm cs e d"
  by (simp add: error_ok_def)

lemma prepare_test_ok:
  assumes "prepare_test vm cs an e = Inr (cs', d)"
  shows "error_ok vm cs e d \<and> (\<exists>f. cs' = cs\<lparr>cs_filters := f\<rparr>)"
proof -
  obtain f fr res failures where a: "assert_invariants vm cs e [] \<lparr>if_reverts = 0, if_error = None\<rparr> = Inr (res, failures)"
    and d: "d = invariant_data_new fr failures res" "cs' = cs\<lparr>cs_filters := f\<rparr>"
    using assms by (auto simp: prepare_test_def split: sum.splits)
  let ?d = "invariant_data_new fr \<lparr>if_reverts = 0, if_error = None\<rparr> res"
  have "error_ok vm cs e (?d\<lparr>id_failures := \<lparr>if_reverts = 0, if_error = None\<rparr>\<rparr>)" by (simp add: error_ok_def)
  from assert_invariants_error [OF a _ _ this] have "error_ok vm cs e (?d\<lparr>id_failures := failures\<rparr>)" by simp
  then show ?thesis using d by (auto simp: invariant_data_new_def)
qed

lemma invariant_run_case_ok:
  assumes "invariant_run_case vm cs e tx draws d = Some (res, d')" "error_ok vm cs e d" "assume_rolls_back vm"
    and "\<not> iv_call_after_invariant (cs_contract cs)"
  shows "error_ok vm cs e d'"
proof (cases "ic_fail_on_revert (cs_config cs) \<and> 0 < if_reverts (id_failures d)")
  case True
  then show ?thesis using assms(1,2) by (simp add: invariant_run_case_def)
next
  case False
  note case_eq = invariant_run_case_def [of vm cs e tx draws d, unfolded if_not_P [OF False]]
  obtain y where y: "run_loop vm cs draws 0 d (run_new tx e) = Some y"
    using assms(1) unfolding case_eq by (cases "run_loop vm cs draws 0 d (run_new tx e)") simp_all
  obtain res1 d1 run where y': "y = (res1, d1, run)" using prod_cases3 by blast
  have l: "run_loop vm cs draws 0 d (run_new tx e) = Some (res1, d1, run)" using y y' by simp
  have d': "d' = d1 \<or> d' = end_run d1 run"
    using assms(1,4) unfolding case_eq l by (cases res1) simp_all
  have "error_ok vm cs e d1" using run_loop_error(1) [OF l run_new_ok assms(2,3)] .
  then show ?thesis using d' by (auto simp: end_run_def error_ok_def)
qed

lemma run_cases_ok:
  assumes "run_cases vm cs e cases d = Some d'" "error_ok vm cs e d" "assume_rolls_back vm"
    and "\<not> iv_call_after_invariant (cs_contract cs)"
  shows "error_ok vm cs e d'"
  using assms(1,2)
proof (induction "cases" arbitrary: d)
  case (Cons c "cases")
  obtain tx draws where c: "c = (tx, draws)" by fastforce
  obtain res d1 where r: "invariant_run_case vm cs e tx draws d = Some (res, d1)"
    using Cons.prems(1) c by (cases "invariant_run_case vm cs e tx draws d") auto
  have "error_ok vm cs e d1" using invariant_run_case_ok [OF r Cons.prems(2) assms(3,4)] .
  then show ?case using Cons.IH [of d1] Cons.prems(1) c r by (auto split: sum.splits)
qed simp

lemma invariant_fuzz_ok:
  assumes "invariant_fuzz vm cs an e cases = Some (Inr d)" "assume_rolls_back vm"
    and "\<not> iv_call_after_invariant (cs_contract cs)"
  shows "error_ok vm cs e d"
proof -
  obtain cs' d0 where p: "prepare_test vm cs an e = Inr (cs', d0)" and r: "run_cases vm cs' e cases d0 = Some d"
    using assms(1) by (auto simp: invariant_fuzz_def split: if_splits sum.splits)
  obtain f where "error_ok vm cs e d0" and cs': "cs' = cs\<lparr>cs_filters := f\<rparr>" using prepare_test_ok [OF p] by blast
  then show ?thesis using run_cases_ok [OF r _ assms(2)] assms(3) by simp
qed

section \<open>Termination\<close>

lemma run_accepted_progress:
  "run_accepted vm cs d run tx r = (Next, d', run') \<Longrightarrow> ir_depth run' = ir_depth run + 1 \<and> ir_rejects run' = ir_rejects run"
  by (auto simp: run_accepted_def Let_def split: prod.splits sum.splits if_splits)

definition run_left :: "campaign_setup \<Rightarrow> ('b, 'c) invariant_run \<Rightarrow> nat" where
  "run_left cs run = (unat (ic_depth (cs_config cs)) - unat (ir_depth run)) +
     (unat (ic_max_assume_rejects (cs_config cs)) - unat (ir_rejects run))"

lemma run_iteration_progress:
  assumes "run_iteration vm cs d run = (Next, d', run')" "ir_depth run < ic_depth (cs_config cs)"
    and "ir_rejects run \<le> ic_max_assume_rejects (cs_config cs)" "ic_max_assume_rejects (cs_config cs) \<noteq> - 1"
  shows "ir_rejects run' \<le> ic_max_assume_rejects (cs_config cs) \<and> run_left cs run' < run_left cs run"
proof -
  have d1: "unat (ir_depth run + 1) = Suc (unat (ir_depth run))"
    using assms(2) unat_add_1 [of "ir_depth run"] by (metis word_not_simps(3) word_order.extremum_strict)
  have r1: "unat (ir_rejects run + 1) = Suc (unat (ir_rejects run))"
    using assms(3,4) unat_add_1 [of "ir_rejects run"] by (metis word_order.extremum_uniqueI)
  obtain r ex where s: "send_call vm (ir_executor run) (last (ir_inputs run)) = Inr (r, ex)"
    using assms(1) by (auto simp: run_iteration_def Let_def split: if_splits sum.splits)
  show ?thesis
  proof (cases "rc_result r = MAGIC_ASSUME")
    case True
    then have run': "run' = run\<lparr>ir_executor := ex, ir_inputs := butlast (ir_inputs run), ir_rejects := ir_rejects run + 1\<rparr>"
      and le: "ir_rejects run + 1 \<le> ic_max_assume_rejects (cs_config cs)"
      using assms(1) s by (auto simp: run_iteration_def Let_def not_less split: if_splits)
    have "unat (ir_rejects run) < unat (ic_max_assume_rejects (cs_config cs))"
      using le r1 by (simp add: word_le_nat_alt)
    then show ?thesis using le r1 run' by (simp add: run_left_def)
  next
    case False
    then have "run_accepted vm cs d (run\<lparr>ir_executor := ex\<rparr>) (last (ir_inputs run)) r = (Next, d', run')"
      using assms(1) s by (auto simp: run_iteration_def Let_def split: if_splits)
    from run_accepted_progress [OF this] show ?thesis
      using assms(2,3) d1 by (simp add: run_left_def word_less_nat_alt)
  qed
qed

lemma run_loop_ends:
  assumes "ic_max_assume_rejects (cs_config cs) \<noteq> - 1" "ir_rejects run \<le> ic_max_assume_rejects (cs_config cs)"
  shows "\<exists>y. run_loop vm cs draws k d run = Some y"
  using assms(2)
proof (induction "run_left cs run" arbitrary: run d k rule: less_induct)
  case less
  show ?case
  proof (cases "ir_depth run < ic_depth (cs_config cs)")
    case True
    obtain fl d' run' where it: "run_iteration vm cs d run = (fl, d', run')" using prod_cases3 by blast
    show ?thesis
    proof (cases "fl = Next")
      case n: True
      have p: "ir_rejects run' \<le> ic_max_assume_rejects (cs_config cs)" "run_left cs run' < run_left cs run"
        using run_iteration_progress [OF _ True less.prems assms(1)] it n by auto
      have "\<exists>y. run_loop vm cs draws (k + 1) d' (run'\<lparr>ir_inputs := ir_inputs run' @ [tx]\<rparr>) = Some y" for tx
        using p by (intro less.hyps) (simp_all add: run_left_def)
      then show ?thesis using it n True by (subst run_loop.simps) (auto split: option.split)
    next
      case False
      then show ?thesis using it True by (subst run_loop.simps) (auto split: flow.split)
    qed
  qed (subst run_loop.simps, simp)
qed

lemma run_cases_ends:
  assumes "ic_max_assume_rejects (cs_config cs) \<noteq> - 1"
  shows "\<exists>d'. run_cases vm cs e cases d = Some d'"
proof (induction "cases" arbitrary: d)
  case (Cons c "cases")
  obtain tx draws where c: "c = (tx, draws)" by fastforce
  have "\<exists>y. run_loop vm cs draws 0 d (run_new tx e) = Some y"
    by (rule run_loop_ends [OF assms]) (simp add: run_new_def)
  then obtain res d1 run where "run_loop vm cs draws 0 d (run_new tx e) = Some (res, d1, run)" by (metis prod_cases3)
  then have "\<exists>res d2. invariant_run_case vm cs e tx draws d = Some (res, d2)"
    by (auto simp: invariant_run_case_def split: sum.splits unit.splits)
  then show ?case using Cons.IH c by (auto split: sum.split)
qed simp


section \<open>Counterexamples of a campaign\<close>


definition counter_setup :: "bool \<Rightarrow> campaign_setup" where
  "counter_setup call_after =
     \<lparr>cs_config = \<lparr>ic_depth = 3, ic_fail_on_revert = False, ic_shrink_run_limit = 10, ic_max_assume_rejects = 5\<rparr>,
      cs_contract = \<lparr>iv_address = 9, iv_function_inputs = [], iv_calldata = [2], iv_call_after_invariant = call_after\<rparr>,
      cs_project = [], cs_setup_contracts = fmap_of_list [(8, (''c.sol:C'', \<lparr>ja_functions = fmempty\<rparr>))],
      cs_filters = no_filters\<rparr>"

lemma map_result_Inr: "map_option (map_sum id f) x = Some (Inr y) \<Longrightarrow> \<exists>d. x = Some (Inr d) \<and> f d = y"
  by (cases x; cases "the x") auto

lemma counter_rolls_back: "assume_rolls_back counter_vm"
  by (auto simp: assume_rolls_back_def send_call_def transact_raw_def commit_def counter_vm_def MAGIC_ASSUME_def)


text \<open>
  C12. A campaign ends. Unless \<^verbatim>\<open>max_assume_rejects\<close> is the largest \<^verbatim>\<open>u32\<close>, every run of a campaign leaves
  its loop after at most \<^verbatim>\<open>depth\<close> accepted and \<^verbatim>\<open>max_assume_rejects\<close> rejected calls, whatever the
  contracts do and whichever calls are drawn, and the campaign returns.
\<close>

theorem campaign_terminates:
  assumes "ic_max_assume_rejects (cs_config cs) \<noteq> - 1"
  shows "\<exists>r. invariant_fuzz vm cs an e cases = Some r"
proof (cases "iv_function_inputs (cs_contract cs) = []")
  case True
  show ?thesis
  proof (cases "prepare_test vm cs an e")
    case (Inr y)
    obtain cs' d where y: "y = (cs', d)" by fastforce
    have "cs_config cs' = cs_config cs" using prepare_test_ok [OF Inr [unfolded y]] by auto
    then have "\<exists>d'. run_cases vm cs' e cases d = Some d'" using run_cases_ends assms by metis
    then show ?thesis using True Inr y by (auto simp: invariant_fuzz_def)
  qed (use True in \<open>simp add: invariant_fuzz_def\<close>)
qed (simp add: invariant_fuzz_def)

theorem campaign_terminates_witness:
  "\<exists>r. invariant_fuzz counter_vm (counter_setup True) no_answers counter_start
         [(counter_call 0, \<lambda>k. Some (counter_call 0)), (counter_call 0, \<lambda>k. None)] = Some r"
  using campaign_terminates [of "counter_setup True"] by (simp add: counter_setup_def)


text \<open>A counter whose \<^verbatim>\<open>afterInvariant\<close> fails unless it was reset by calldata \<open>0\<close>.\<close>

definition reset_vm :: "(nat, unit, unit, nat) vm" where
  "reset_vm = counter_vm\<lparr>vm_inspect := (\<lambda>e from to cd.
        Inr (\<lparr>rc_reverted = (cd = [3] \<and> ex_backend e \<noteq> 0), rc_snapshot_failure = False, rc_result = [],
              rc_gas_used = 0, rc_stipend = 0,
              rc_changeset = (if cd = [1] then ex_backend e + 1 else if cd = [0] then 0 else ex_backend e),
              rc_env = (), rc_cheatcodes = None\<rparr>, ex_backend e))\<rparr>"

lemma reset_rolls_back: "assume_rolls_back reset_vm"
  by (auto simp: assume_rolls_back_def send_call_def transact_raw_def commit_def reset_vm_def MAGIC_ASSUME_def)

definition reset_draws :: "nat \<Rightarrow> basic_tx_details option" where
  "reset_draws k = Some (counter_call (if k = 2 then 0 else 1))"

definition fresh_data :: "(unit, unit, nat) invariant_data" where
  "fresh_data = invariant_data_new \<lparr>fr_targets = fmempty, fr_is_updatable = True\<rparr> \<lparr>if_reverts = 0, if_error = None\<rparr> None"


end
