(* ===== verification/Fork_Cache.thy ===== *)
theory Fork_Cache
  imports Prelude
begin

text \<open>
  The caches that all forks of a backend share: \<^verbatim>\<open>crates/evm/core/src/backend/{code_cache,environment_cache}.rs\<close>.

  \<^item> \<open>code_cache_entry\<close>, \<open>check_cache\<close> and \<open>cache_code\<close> are \<^verbatim>\<open>CodeCache\<close>. \<^verbatim>\<open>get_code\<close> is asynchronous: other
    requests run between its look into the cache and the reply of the provider, and the cache may drop
    entries at any time (\<^verbatim>\<open>quick_cache\<close> evicts), so it is the step relation \<open>code_step\<close> on \<open>code_state\<close>.
  \<^item> \<open>environment_cache\<close> and its operations are \<^verbatim>\<open>EnvironmentCache\<close>; the replies of the provider are an
    argument of every call.

  The lemmas show that under immutable code every answer of \<^verbatim>\<open>get_code\<close> is the code on the chain,
  whatever the interleaving and the evictions, and what a second request gets from the environment
  cache.
\<close>

section \<open>Code cache\<close>

record code_cache_entry =
  ce_code_detected :: "(u64 \<times> u8 list) option"
  ce_no_code_detected :: "u64 option"

definition entry_default :: code_cache_entry where
  "entry_default = \<lparr>ce_code_detected = None, ce_no_code_detected = None\<rparr>"

type_synonym code_cache = "(address \<times> u64, code_cache_entry) fmap"

definition check_cache :: "code_cache \<Rightarrow> address \<Rightarrow> u64 \<Rightarrow> u64 \<Rightarrow> u8 list option" where
  "check_cache cache addr chain block_number =
     (case fmlookup cache (addr, chain) of
        None \<Rightarrow> None
      | Some entry \<Rightarrow>
          (let no_code = (case ce_no_code_detected entry of
                            Some n \<Rightarrow> if block_number \<le> n then Some [] else None
                          | None \<Rightarrow> None)
           in case ce_code_detected entry of
                Some (b, code) \<Rightarrow> if b \<le> block_number then Some code else no_code
              | None \<Rightarrow> no_code))"

definition cache_code :: "code_cache \<Rightarrow> address \<Rightarrow> u64 \<Rightarrow> u64 \<Rightarrow> u8 list \<Rightarrow> code_cache" where
  "cache_code cache addr chain block_number code =
     (let entry = (case fmlookup cache (addr, chain) of Some e \<Rightarrow> e | None \<Rightarrow> entry_default)
      in fmupd (addr, chain)
           (if code = [] then entry\<lparr>ce_no_code_detected := Some block_number\<rparr>
            else entry\<lparr>ce_code_detected := Some (block_number, code)\<rparr>) cache)"

text \<open>The requests that wait for the provider, and the answers given so far.\<close>

record code_state =
  cs_cache :: code_cache
  cs_waiting :: "(address \<times> u64 \<times> u64) list"
  cs_answers :: "((address \<times> u64 \<times> u64) \<times> u8 list) list"

definition code_state_new :: code_state where
  "code_state_new = \<lparr>cs_cache = fmempty, cs_waiting = [], cs_answers = []\<rparr>"

text \<open>\<open>history addr chain block\<close> is the code the chain has at a block; \<^verbatim>\<open>get_code_at\<close> of the provider returns
  it or fails.\<close>

inductive code_step :: "(address \<Rightarrow> u64 \<Rightarrow> u64 \<Rightarrow> u8 list) \<Rightarrow> code_state \<Rightarrow> code_state \<Rightarrow> bool" for history where
  hit: "check_cache (cs_cache s) a c b = Some code \<Longrightarrow>
        code_step history s (s\<lparr>cs_answers := ((a, c, b), code) # cs_answers s\<rparr>)"
| miss: "check_cache (cs_cache s) a c b = None \<Longrightarrow>
        code_step history s (s\<lparr>cs_waiting := (a, c, b) # cs_waiting s\<rparr>)"
| reply: "(a, c, b) \<in> set (cs_waiting s) \<Longrightarrow> code = history a c b \<Longrightarrow>
        code_step history s
          (s\<lparr>cs_waiting := remove1 (a, c, b) (cs_waiting s), cs_cache := cache_code (cs_cache s) a c b code,
             cs_answers := ((a, c, b), code) # cs_answers s\<rparr>)"
| failure: "(a, c, b) \<in> set (cs_waiting s) \<Longrightarrow>
        code_step history s (s\<lparr>cs_waiting := remove1 (a, c, b) (cs_waiting s)\<rparr>)"
| evict: "code_step history s (s\<lparr>cs_cache := fmdrop k (cs_cache s)\<rparr>)"

text \<open>\<^verbatim>\<open>get_code\<close> when nothing runs in between: the answer of the cache, or that of the provider, which is
  then cached.\<close>

definition get_code ::
  "(string, u8 list) result \<Rightarrow> code_cache \<Rightarrow> address \<Rightarrow> u64 \<Rightarrow> u64 \<Rightarrow> (string, u8 list) result \<times> code_cache" where
  "get_code reply cache addr chain block_number =
     (case check_cache cache addr chain block_number of
        Some code \<Rightarrow> (Inr code, cache)
      | None \<Rightarrow>
          (case reply of
             Inl err \<Rightarrow> (Inl err, cache)
           | Inr code \<Rightarrow> (Inr code, cache_code cache addr chain block_number code)))"

section \<open>Environment cache\<close>

text \<open>A \<open>BlockEnvironment\<close>; the block is alloy's.\<close>

record 'b block_environment =
  ev_block :: "'b option"
  ev_gas_price :: u128

record 'b environment_cache =
  ec_chain_ids :: "(string, u64) fmap"
  ec_latest_blocks :: "(string, u64) fmap"
  ec_block_envs :: "(string \<times> u64, 'b block_environment) fmap"

definition environment_cache_default :: "'b environment_cache" where
  "environment_cache_default = \<lparr>ec_chain_ids = fmempty, ec_latest_blocks = fmempty, ec_block_envs = fmempty\<rparr>"

text \<open>What the provider of a fork url replies at the time of the call.\<close>

record 'b env_provider =
  ep_chain_id :: "(string, u64) result"
  ep_block_by_number :: "u64 \<Rightarrow> (string, 'b option) result"
  ep_gas_price :: "(string, u128) result"
  ep_block_number :: "(string, u64) result"

definition get_chain_id ::
  "'b env_provider \<Rightarrow> string \<Rightarrow> 'b environment_cache \<Rightarrow> (string, u64) result \<times> 'b environment_cache" where
  "get_chain_id p url ec =
     (case fmlookup (ec_chain_ids ec) url of
        Some chain_id \<Rightarrow> (Inr chain_id, ec)
      | None \<Rightarrow>
          (case ep_chain_id p of
             Inl err \<Rightarrow> (Inl err, ec)
           | Inr chain_id \<Rightarrow> (Inr chain_id, ec\<lparr>ec_chain_ids := fmupd url chain_id (ec_chain_ids ec)\<rparr>)))"

definition get_block_env_by_number ::
  "'b env_provider \<Rightarrow> string \<Rightarrow> u64 \<Rightarrow> 'b environment_cache \<Rightarrow>
   (string, 'b block_environment) result \<times> 'b environment_cache" where
  "get_block_env_by_number p url n ec =
     (case fmlookup (ec_block_envs ec) (url, n) of
        Some env \<Rightarrow>
          if ev_block env = None then
            (case ep_block_by_number p n of
               Inl err \<Rightarrow> (Inl err, ec)
             | Inr block \<Rightarrow>
                 (let env' = \<lparr>ev_block = block, ev_gas_price = ev_gas_price env\<rparr>
                  in (Inr env', ec\<lparr>ec_block_envs := fmupd (url, n) env' (ec_block_envs ec)\<rparr>)))
          else (Inr env, ec)
      | None \<Rightarrow>
          (case (ep_block_by_number p n, ep_gas_price p) of
             (Inr block, Inr gas_price) \<Rightarrow>
               (let env = \<lparr>ev_block = block, ev_gas_price = gas_price\<rparr>
                in (Inr env, ec\<lparr>ec_block_envs := fmupd (url, n) env (ec_block_envs ec)\<rparr>))
           | (Inl err, _) \<Rightarrow> (Inl err, ec)
           | (Inr _, Inl err) \<Rightarrow> (Inl err, ec)))"

definition set_latest_block_number :: "string \<Rightarrow> u64 \<Rightarrow> 'b environment_cache \<Rightarrow> 'b environment_cache" where
  "set_latest_block_number url n ec = ec\<lparr>ec_latest_blocks := fmupd url n (ec_latest_blocks ec)\<rparr>"

definition get_latest_block_number ::
  "'b env_provider \<Rightarrow> string \<Rightarrow> 'b environment_cache \<Rightarrow> (string, u64) result \<times> 'b environment_cache" where
  "get_latest_block_number p url ec =
     (case fmlookup (ec_latest_blocks ec) url of
        Some n \<Rightarrow> (Inr n, ec)
      | None \<Rightarrow>
          (case ep_block_number p of
             Inl err \<Rightarrow> (Inl err, ec)
           | Inr n \<Rightarrow> (Inr n, set_latest_block_number url n ec)))"

text \<open>The two futures of \<^verbatim>\<open>try_join!\<close> touch different maps; the first error is returned.\<close>

definition get_fork_info ::
  "'b env_provider \<Rightarrow> string \<Rightarrow> u64 \<Rightarrow> 'b environment_cache \<Rightarrow>
   (string, u64 \<times> 'b block_environment) result \<times> 'b environment_cache" where
  "get_fork_info p url n ec =
     (case get_chain_id p url ec of
        (Inl err, ec') \<Rightarrow> (Inl err, ec')
      | (Inr chain_id, ec') \<Rightarrow>
          (case get_block_env_by_number p url n ec' of
             (Inl err, ec'') \<Rightarrow> (Inl err, ec'')
           | (Inr env, ec'') \<Rightarrow> (Inr (chain_id, env), ec'')))"

section \<open>Soundness of the code cache\<close>

text \<open>Code is immutable once deployed: the assumption the cache is built on.\<close>

definition immutable_code :: "(address \<Rightarrow> u64 \<Rightarrow> u64 \<Rightarrow> u8 list) \<Rightarrow> bool" where
  "immutable_code history \<longleftrightarrow>
     (\<forall>a c b b'. history a c b \<noteq> [] \<longrightarrow> b \<le> b' \<longrightarrow> history a c b' = history a c b)"

definition sound_entry :: "(u64 \<Rightarrow> u8 list) \<Rightarrow> code_cache_entry \<Rightarrow> bool" where
  "sound_entry h e \<longleftrightarrow>
     (\<forall>b code. ce_code_detected e = Some (b, code) \<longrightarrow> code \<noteq> [] \<and> h b = code) \<and>
     (\<forall>b. ce_no_code_detected e = Some b \<longrightarrow> h b = [])"

definition sound_cache :: "(address \<Rightarrow> u64 \<Rightarrow> u64 \<Rightarrow> u8 list) \<Rightarrow> code_cache \<Rightarrow> bool" where
  "sound_cache history cache \<longleftrightarrow>
     (\<forall>a c e. fmlookup cache (a, c) = Some e \<longrightarrow> sound_entry (history a c) e)"

lemma sound_cacheD: "sound_cache history cache \<Longrightarrow> fmlookup cache (a, c) = Some e \<Longrightarrow> sound_entry (history a c) e"
  by (simp add: sound_cache_def)

lemma check_cache_cases:
  assumes "check_cache cache a c b = Some code"
  obtains (code) e b' where "fmlookup cache (a, c) = Some e" "ce_code_detected e = Some (b', code)" "b' \<le> b"
    | (no_code) e b' where "fmlookup cache (a, c) = Some e" "ce_no_code_detected e = Some b'" "b \<le> b'" "code = []"
  using assms
  by (cases "fmlookup cache (a, c)")
     (auto simp: check_cache_def Let_def split: option.splits if_splits)

lemma check_cache_sound:
  assumes "sound_cache history cache" "immutable_code history" "check_cache cache a c b = Some code"
  shows "code = history a c b"
  using assms(3)
proof (cases rule: check_cache_cases)
  case (code e b')
  then have h: "history a c b' = code" "history a c b' \<noteq> []"
    using sound_cacheD [OF assms(1) code(1)] by (simp_all add: sound_entry_def)
  show ?thesis using assms(2) h code(3) unfolding immutable_code_def by metis
next
  case (no_code e b')
  then have "history a c b' = []" using sound_cacheD [OF assms(1) no_code(1)] by (simp add: sound_entry_def)
  then show ?thesis using no_code(3,4) assms(2) unfolding immutable_code_def by metis
qed

lemma cache_code_sound:
  assumes "sound_cache history cache"
  shows "sound_cache history (cache_code cache a c b (history a c b))"
  unfolding sound_cache_def
proof (intro allI impI)
  fix a' c' e
  assume e: "fmlookup (cache_code cache a c b (history a c b)) (a', c') = Some e"
  let ?old = "case fmlookup cache (a, c) of Some e \<Rightarrow> e | None \<Rightarrow> entry_default"
  have old: "sound_entry (history a c) ?old"
    using sound_cacheD [OF assms]
    by (cases "fmlookup cache (a, c)") (auto simp: sound_entry_def entry_default_def)
  show "sound_entry (history a' c') e"
  proof (cases "(a', c') = (a, c)")
    case True
    then show ?thesis using e old
      by (auto simp: cache_code_def Let_def sound_entry_def split: if_splits)
  next
    case False
    then show ?thesis using e sound_cacheD [OF assms] by (auto simp: cache_code_def Let_def)
  qed
qed

definition code_inv :: "(address \<Rightarrow> u64 \<Rightarrow> u64 \<Rightarrow> u8 list) \<Rightarrow> code_state \<Rightarrow> bool" where
  "code_inv history s \<longleftrightarrow>
     sound_cache history (cs_cache s) \<and> (\<forall>((a, c, b), code) \<in> set (cs_answers s). code = history a c b)"

lemma code_step_inv:
  assumes "code_step history s t" "code_inv history s" "immutable_code history"
  shows "code_inv history t"
  using assms(1)
proof cases
  case (hit a c b code)
  then show ?thesis using assms(2,3) check_cache_sound [of history "cs_cache s" a c b code] by (auto simp: code_inv_def)
next
  case (miss a c b)
  then show ?thesis using assms(2) by (auto simp: code_inv_def)
next
  case (reply a c b code)
  then show ?thesis using assms(2) cache_code_sound [of history "cs_cache s" a c b] by (auto simp: code_inv_def)
next
  case (failure a c b)
  then show ?thesis using assms(2) by (auto simp: code_inv_def)
next
  case (evict k)
  then show ?thesis using assms(2) by (auto simp: code_inv_def sound_cache_def)
qed

text \<open>
  C?. The code cache is exact. If no account of the chain loses or changes its code, every code that
  \<^verbatim>\<open>get_code\<close> returns is the code the chain has at the requested block, for any interleaving of requests
  and provider replies, any failures and any evictions; and a request at or above a block with
  cached code, or at or below a block known to have none, is answered without the provider.
\<close>

theorem code_cache_exact:
  assumes "(code_step history)\<^sup>*\<^sup>* code_state_new s" "immutable_code history"
  shows "(((a, c, b), code) \<in> set (cs_answers s) \<longrightarrow> code = history a c b) \<and>
         (b \<le> b' \<longrightarrow> history a c b \<noteq> [] \<longrightarrow>
            check_cache (cache_code (cs_cache s) a c b (history a c b)) a c b' = Some (history a c b')) \<and>
         (b' \<le> b \<longrightarrow> history a c b = [] \<longrightarrow>
            check_cache (cache_code (cs_cache s) a c b (history a c b)) a c b' = Some (history a c b'))"
proof -
  have inv: "code_inv history s"
    using assms(1)
  proof (induction rule: rtranclp_induct)
    case base
    then show ?case by (simp add: code_inv_def sound_cache_def code_state_new_def)
  next
    case (step t u)
    then show ?case using code_step_inv assms(2) by blast
  qed
  have snd: "sound_cache history (cache_code (cs_cache s) a c b (history a c b))"
    using inv cache_code_sound by (simp add: code_inv_def)
  have "check_cache (cache_code (cs_cache s) a c b (history a c b)) a c b' \<noteq> None"
    if "b \<le> b' \<and> history a c b \<noteq> [] \<or> b' \<le> b \<and> history a c b = []"
    using that by (auto simp: check_cache_def cache_code_def Let_def split: option.splits)
  then show ?thesis
    using inv check_cache_sound [OF snd assms(2)] by (auto simp: code_inv_def)
qed

text \<open>A chain on which account 1 gets its code at block 10: two requests miss, the later block is answered
  first, and a third request is then answered from the cache.\<close>

definition sample_history :: "address \<Rightarrow> u64 \<Rightarrow> u64 \<Rightarrow> u8 list" where
  "sample_history a c b = (if a = 1 \<and> 10 \<le> b then [0xFE] else [])"

lemma sample_run:
  "(code_step sample_history)\<^sup>*\<^sup>* code_state_new
     \<lparr>cs_cache = cache_code fmempty 1 1 20 [0xFE], cs_waiting = [(1, 1, 5)],
      cs_answers = [((1, 1, 30), [0xFE]), ((1, 1, 20), [0xFE])]\<rparr>"
proof -
  let ?s1 = "code_state_new\<lparr>cs_waiting := [(1, 1, 5)]\<rparr>"
  let ?s2 = "?s1\<lparr>cs_waiting := [(1, 1, 20), (1, 1, 5)]\<rparr>"
  let ?s3 = "\<lparr>cs_cache = cache_code fmempty 1 1 20 [0xFE], cs_waiting = [(1, 1, 5)], cs_answers = [((1, 1, 20), [0xFE])]\<rparr>"
  have 1: "code_step sample_history code_state_new ?s1"
    using miss [of code_state_new 1 1 5] by (simp add: check_cache_def code_state_new_def)
  have 2: "code_step sample_history ?s1 ?s2"
    using miss [of ?s1 1 1 20] by (simp add: check_cache_def code_state_new_def)
  have 3: "code_step sample_history ?s2 ?s3"
    using reply [of 1 1 20 ?s2 "[0xFE]" sample_history] by (simp add: sample_history_def code_state_new_def)
  have 4: "code_step sample_history ?s3 (?s3\<lparr>cs_answers := ((1, 1, 30), [0xFE]) # cs_answers ?s3\<rparr>)"
    by (rule hit) (simp add: check_cache_def cache_code_def entry_default_def)
  show ?thesis using 1 2 3 4 by (simp add: rtranclp.rtrancl_into_rtrancl)
qed

theorem code_cache_exact_witness:
  "immutable_code sample_history \<and>
   check_cache (cache_code (cache_code fmempty 1 1 20 [0xFE]) 1 1 10 [0xFE]) 1 1 12 = Some [0xFE] \<and>
   check_cache (cache_code (cache_code fmempty 1 1 20 [0xFE]) 1 1 9 []) 1 1 5 = Some []"
proof -
  have imm: "immutable_code sample_history" by (auto simp: immutable_code_def sample_history_def)
  show ?thesis
    using imm code_cache_exact [OF sample_run imm, of 1 1 30 "[0xFE]" 12]
      code_cache_exact [OF sample_run imm, of 1 1 10 "[0xFE]" 12]
      code_cache_exact [OF sample_run imm, of 1 1 9 "[0xFE]" 5]
    by (simp add: sample_history_def)
qed

section \<open>Stability of the environment cache\<close>

datatype 'b env_op =
    ForkInfo "'b env_provider" string u64
  | LatestBlock "'b env_provider" string
  | SetLatest string u64
  | EvictEnv "string \<times> u64"

fun env_step :: "'b env_op \<Rightarrow> 'b environment_cache \<Rightarrow> 'b environment_cache" where
  "env_step (ForkInfo p url n) ec = snd (get_fork_info p url n ec)"
| "env_step (LatestBlock p url) ec = snd (get_latest_block_number p url ec)"
| "env_step (SetLatest url n) ec = set_latest_block_number url n ec"
| "env_step (EvictEnv k) ec = ec\<lparr>ec_block_envs := fmdrop k (ec_block_envs ec)\<rparr>"

definition knows :: "string \<Rightarrow> u64 \<Rightarrow> u64 \<Rightarrow> 'b block_environment \<Rightarrow> 'b environment_cache \<Rightarrow> bool" where
  "knows url n chain env ec \<longleftrightarrow>
     fmlookup (ec_chain_ids ec) url = Some chain \<and> fmlookup (ec_block_envs ec) (url, n) = Some env"

lemma get_chain_id_keeps:
  "get_chain_id p url' ec = (r, ec') \<Longrightarrow> ec_block_envs ec' = ec_block_envs ec \<and>
     (fmlookup (ec_chain_ids ec) url = Some chain \<longrightarrow> fmlookup (ec_chain_ids ec') url = Some chain)"
  by (auto simp: get_chain_id_def split: option.splits sum.splits)

lemma get_block_env_keeps:
  "get_block_env_by_number p url' m ec = (r, ec') \<Longrightarrow> ec_chain_ids ec' = ec_chain_ids ec \<and>
     (fmlookup (ec_block_envs ec) (url, n) = Some env \<longrightarrow> ev_block env \<noteq> None \<longrightarrow>
      fmlookup (ec_block_envs ec') (url, n) = Some env)"
  by (auto simp: get_block_env_by_number_def Let_def split: option.splits sum.splits if_splits)

lemma get_fork_info_keeps:
  assumes "knows url n chain env ec" "ev_block env \<noteq> None"
  shows "knows url n chain env (snd (get_fork_info p url' m ec))"
proof -
  obtain r ec1 where 1: "get_chain_id p url' ec = (r, ec1)" by fastforce
  obtain r' ec2 where 2: "get_block_env_by_number p url' m ec1 = (r', ec2)" by fastforce
  show ?thesis
    using assms get_chain_id_keeps [OF 1, of url chain] get_block_env_keeps [OF 2, of url n env]
    by (auto simp: knows_def get_fork_info_def 1 2 split: sum.splits)
qed

lemma env_step_keeps:
  assumes "knows url n chain env ec" "ev_block env \<noteq> None" "x \<noteq> EvictEnv (url, n)"
  shows "knows url n chain env (env_step x ec)"
proof (cases x)
  case (ForkInfo p url' m)
  then show ?thesis using get_fork_info_keeps [OF assms(1,2)] by simp
next
  case (LatestBlock p url')
  then show ?thesis using assms(1)
    by (auto simp: knows_def get_latest_block_number_def set_latest_block_number_def split: option.splits sum.splits)
qed (use assms in \<open>auto simp: knows_def set_latest_block_number_def\<close>)

lemma get_fork_info_knows:
  assumes "get_fork_info p url n ec = (Inr (chain, env), ec')"
  shows "knows url n chain env ec'"
proof -
  obtain r ec1 where 1: "get_chain_id p url ec = (r, ec1)" by fastforce
  then obtain env' where 2: "r = Inr chain" "get_block_env_by_number p url n ec1 = (Inr env', ec')" "env' = env"
    using assms by (auto simp: get_fork_info_def split: sum.splits prod.splits)
  have "fmlookup (ec_chain_ids ec1) url = Some chain"
    using 1 2(1) by (auto simp: get_chain_id_def split: option.splits sum.splits)
  moreover have "fmlookup (ec_block_envs ec') (url, n) = Some env" "ec_chain_ids ec' = ec_chain_ids ec1"
    using 2(2,3) by (auto simp: get_block_env_by_number_def Let_def split: option.splits sum.splits if_splits)
  ultimately show ?thesis by (simp add: knows_def)
qed

text \<open>
  What a fork was told stays. Once \<^verbatim>\<open>get_fork_info\<close> has returned a chain id and the environment of an
  existing block, every later request for this url and block gets the same answer without the
  provider, whatever else is requested in between, unless the cache evicts the block. This holds
  of the gas price too, which is the one the provider reported at the first request.
\<close>

theorem fork_info_stable:
  assumes "get_fork_info p url n ec = (Inr (chain, env), ec')" "ev_block env \<noteq> None"
    and "EvictEnv (url, n) \<notin> set xs"
  shows "get_fork_info q url n (fold env_step xs ec') = (Inr (chain, env), fold env_step xs ec')"
proof -
  have "knows url n chain env (fold env_step xs ec')"
    using get_fork_info_knows [OF assms(1)] assms(3)
  proof (induction xs arbitrary: ec')
    case (Cons x xs)
    then show ?case using env_step_keeps [of url n chain env ec' x] assms(2) by auto
  qed simp
  then show ?thesis
    using assms(2) by (auto simp: knows_def get_fork_info_def get_chain_id_def get_block_env_by_number_def)
qed

end
