(* ===== verification/Fork_Handler.thy ===== *)
theory Fork_Handler
  imports State_Db Fork_Cache
begin

text \<open>
  The task that answers the database requests of a fork: \<^verbatim>\<open>crates/evm/core/src/fork/backend.rs\<close> and
  \<^verbatim>\<open>reset\<close> of \<^verbatim>\<open>fork/database.rs\<close>.

  \<^item> \<open>poll_each\<close> is the loop \<^verbatim>\<open>for n in (0..v.len()).rev()\<close> that takes every future out of a vector with
    \<^verbatim>\<open>swap_remove\<close>, polls it and pushes it back if it is not ready; the handlers of this and the next
    theory share it. \<open>poll_seq\<close> is its meaning: every future is polled exactly once.
  \<^item> \<open>handler\<close> is \<^verbatim>\<open>BackendHandler\<close> with the \<^verbatim>\<open>MemDb\<close> of its \<^verbatim>\<open>BlockchainDb\<close>. A listener (a oneshot sender) is
    a number, and \<open>h_sent\<close> lists the messages sent. What a future returns when it is polled is the record
    \<open>provider_poll\<close>.
  \<^item> \<open>account_reply\<close> is the future that fetches an account, which goes through the code cache.
  \<^item> \<open>on_request\<close> and the \<open>request_\<close> functions register listeners and start futures, \<open>poll_request\<close> completes a
    future, \<open>handler_round\<close> is one iteration of the loop of \<^verbatim>\<open>poll\<close> and \<open>handler_poll\<close> the loop, in which the
    first argument lists what arrives in successive iterations.

  The lemmas show that there is one request in flight per item and that every listener is answered
  exactly once, that a round in which all futures are ready leaves nobody waiting, that answers are
  the data of the pinned block, and that \<^verbatim>\<open>reset\<close> races with requests in flight.
\<close>

section \<open>Polling a vector of futures\<close>

text \<open>\<open>f r s\<close> polls the future \<open>r\<close> in state \<open>s\<close>: \<open>None\<close> when it has completed, \<open>Some r'\<close> to be pushed back.\<close>

fun poll_each :: "('r \<Rightarrow> 's \<Rightarrow> 'r option \<times> 's) \<Rightarrow> nat \<Rightarrow> 'r list \<Rightarrow> 's \<Rightarrow> 'r list \<times> 's" where
  "poll_each f 0 rs s = (rs, s)"
| "poll_each f (Suc n) rs s =
     (case f (rs ! n) s of
        (None, s') \<Rightarrow> poll_each f n (swap_remove n rs) s'
      | (Some r, s') \<Rightarrow> poll_each f n (swap_remove n rs @ [r]) s')"

fun poll_seq :: "('r \<Rightarrow> 's \<Rightarrow> 'r option \<times> 's) \<Rightarrow> 'r list \<Rightarrow> 's \<Rightarrow> 'r list \<times> 's" where
  "poll_seq f [] s = ([], s)"
| "poll_seq f (r # rs) s =
     (case f r s of
        (None, s') \<Rightarrow> poll_seq f rs s'
      | (Some r', s') \<Rightarrow> (case poll_seq f rs s' of (ks, s'') \<Rightarrow> (r' # ks, s'')))"

lemma swap_remove_length: "n < length rs \<Longrightarrow> length (swap_remove n rs) = length rs - 1"
  by (simp add: swap_remove_def)

lemma take_swap_remove: "n < length rs \<Longrightarrow> take n (swap_remove n rs) = take n rs"
  by (simp add: swap_remove_def take_butlast)

lemma mset_take_drop: "mset (take n rs) + mset (drop n rs) = mset rs"
  by (metis append_take_drop_id mset_append)

lemma drop_swap_remove:
  assumes "n < length rs"
  shows "mset (drop n (swap_remove n rs)) = mset (drop (Suc n) rs)"
proof -
  have rs: "mset rs = add_mset (rs ! n) (mset (take n rs) + mset (drop (Suc n) rs))"
    using mset_take_drop [of "Suc n" rs] assms by (simp add: take_Suc_conv_app_nth)
  have "mset (take n (swap_remove n rs)) + mset (drop n (swap_remove n rs)) = mset rs - {#rs ! n#}"
    using mset_take_drop [of n "swap_remove n rs"] mset_swap_remove [OF assms] by simp
  also have "\<dots> = mset (take n rs) + mset (drop (Suc n) rs)" by (simp add: rs)
  finally show ?thesis using take_swap_remove [OF assms] by simp
qed

lemma poll_each_seq:
  assumes "n \<le> length rs" "poll_each f n rs s = (ks, t)"
  shows "t = snd (poll_seq f (rev (take n rs)) s) \<and>
         mset ks = mset (fst (poll_seq f (rev (take n rs)) s)) + mset (drop n rs)"
  using assms
proof (induction n arbitrary: rs s)
  case (Suc n)
  then have n: "n < length rs" by simp
  obtain r s' where f: "f (rs ! n) s = (r, s')" by fastforce
  have tk: "rev (take (Suc n) rs) = rs ! n # rev (take n rs)" using n by (simp add: take_Suc_conv_app_nth)
  let ?rs = "case r of None \<Rightarrow> swap_remove n rs | Some r' \<Rightarrow> swap_remove n rs @ [r']"
  have "n \<le> length ?rs" "take n ?rs = take n rs"
    using n by (auto simp: swap_remove_length take_swap_remove split: option.splits)
  moreover have "mset (drop n ?rs) = mset (drop (Suc n) rs) + (case r of None \<Rightarrow> {#} | Some r' \<Rightarrow> {#r'#})"
    using n drop_swap_remove [OF n] by (auto simp: swap_remove_length split: option.splits)
  moreover have "poll_each f n ?rs s' = (ks, t)" using Suc.prems(2) f by (auto split: option.splits)
  ultimately show ?case
    using Suc.IH [of ?rs s'] f tk by (auto split: option.splits prod.splits)
qed simp

text \<open>An invariant of the futures and the state that polling one future keeps.\<close>

locale polled =
  fixes poll1 :: "'r \<Rightarrow> 's \<Rightarrow> 'r option \<times> 's"
    and kept :: "'r multiset \<Rightarrow> 's \<Rightarrow> bool"
  assumes done1: "kept (add_mset r M) s \<Longrightarrow> poll1 r s = (None, s') \<Longrightarrow> kept M s'"
    and again1: "kept (add_mset r M) s \<Longrightarrow> poll1 r s = (Some r', s') \<Longrightarrow> kept (add_mset r' M) s'"
begin

lemma seq_kept:
  assumes "kept (mset rs + M) s" "poll_seq poll1 rs s = (ks, t)"
  shows "kept (mset ks + M) t"
  using assms
proof (induction rs arbitrary: s M ks)
  case (Cons r rs)
  obtain o1 s' where f: "poll1 r s = (o1, s')" by fastforce
  show ?case
  proof (cases o1)
    case None
    then show ?thesis using Cons.IH [of M s' ks] Cons.prems done1 [of r "mset rs + M" s s'] f by simp
  next
    case (Some r')
    then obtain ks' where ks: "poll_seq poll1 rs s' = (ks', t)" "ks = r' # ks'"
      using Cons.prems(2) f by (auto split: prod.splits)
    have "kept (mset rs + add_mset r' M) s'" using again1 [of r "mset rs + M" s r' s'] Cons.prems(1) f Some by simp
    then show ?thesis using Cons.IH ks by fastforce
  qed
qed simp

lemma each_kept:
  assumes "kept (mset rs) s" "poll_each poll1 (length rs) rs s = (ks, t)"
  shows "kept (mset ks) t"
proof -
  obtain ks' t' where seq: "poll_seq poll1 (rev rs) s = (ks', t')" by fastforce
  then have "mset ks = mset ks'" "t = t'" using poll_each_seq [OF order_refl assms(2)] by auto
  then show ?thesis using seq_kept [of "rev rs" "{#}" s ks' t'] assms(1) seq by simp
qed

end

section \<open>The handler\<close>

datatype 'i database_error =
    MissingCode b256
  | GetAccount address string
  | GetStorage address u256 string
  | GetBlockHash u64 string
  | GetFullBlock 'i string
  | BlockNotFoundById 'i
  | GetTransaction b256 string

datatype 'i backend_request =
    Basic address u64 nat
  | StorageAt address u256 nat
  | BlockHashOf u64 nat
  | FullBlock 'i nat
  | TransactionOf b256 nat
  | SetPinnedBlock u64

text \<open>The futures; the account and storage futures carry the block they ask for.\<close>

datatype 'i provider_request =
    AccountFut address u64 u64
  | StorageFut address u256 u64
  | HashFut u64
  | BlockFut 'i nat
  | TxFut b256 nat

datatype ('i, 'b, 'x) message =
    AccountMsg "('i database_error, account_info) result"
  | StorageMsg "('i database_error, u256) result"
  | HashMsg "('i database_error, b256) result"
  | BlockMsg "('i database_error, 'b) result"
  | TransactionMsg "('i database_error, 'x) result"

text \<open>What the futures return when they are polled, \<open>None\<close> while they are not ready. A block is
  represented by its hash in \<open>pp_block_hash\<close>, \<open>None\<close> when the provider does not know the number.\<close>

record ('i, 'b, 'x) provider_poll =
  pp_account :: "address \<Rightarrow> u64 \<Rightarrow> u64 \<Rightarrow> (string, u256 \<times> u64 \<times> u8 list) result option"
  pp_storage :: "address \<Rightarrow> u256 \<Rightarrow> u64 \<Rightarrow> (string, u256) result option"
  pp_block_hash :: "u64 \<Rightarrow> (string, b256 option) result option"
  pp_full_block :: "'i \<Rightarrow> (string, 'b option) result option"
  pp_transaction :: "b256 \<Rightarrow> (string, 'x) result option"

record ('i, 'b, 'x) handler =
  h_accounts :: "(address, account_info) fmap"
  h_storage :: "(address, (u256, u256) fmap) fmap"
  h_block_hashes :: "(u256, b256) fmap"
  h_pending :: "'i provider_request list"
  h_account_requests :: "(address, nat list) fmap"
  h_storage_requests :: "(address \<times> u256, nat list) fmap"
  h_block_requests :: "(u64, nat list) fmap"
  h_queued :: "'i backend_request list"
  h_block_number :: u64
  h_sent :: "(nat \<times> ('i, 'b, 'x) message) list"

definition handler_new :: "u64 \<Rightarrow> ('i, 'b, 'x) handler" where
  "handler_new block_number =
     \<lparr>h_accounts = fmempty, h_storage = fmempty, h_block_hashes = fmempty, h_pending = [],
      h_account_requests = fmempty, h_storage_requests = fmempty, h_block_requests = fmempty,
      h_queued = [], h_block_number = block_number, h_sent = []\<rparr>"

definition send :: "nat list \<Rightarrow> ('i, 'b, 'x) message \<Rightarrow> ('i, 'b, 'x) handler \<Rightarrow> ('i, 'b, 'x) handler" where
  "send listeners m s = s\<lparr>h_sent := h_sent s @ map (\<lambda>l. (l, m)) listeners\<rparr>"

definition request_account_storage ::
  "address \<Rightarrow> u256 \<Rightarrow> nat \<Rightarrow> ('i, 'b, 'x) handler \<Rightarrow> ('i, 'b, 'x) handler" where
  "request_account_storage addr idx listener s =
     (case fmlookup (h_storage_requests s) (addr, idx) of
        Some ls \<Rightarrow> s\<lparr>h_storage_requests := fmupd (addr, idx) (ls @ [listener]) (h_storage_requests s)\<rparr>
      | None \<Rightarrow> s\<lparr>h_storage_requests := fmupd (addr, idx) [listener] (h_storage_requests s),
                  h_pending := h_pending s @ [StorageFut addr idx (h_block_number s)]\<rparr>)"

definition request_account ::
  "address \<Rightarrow> u64 \<Rightarrow> nat \<Rightarrow> ('i, 'b, 'x) handler \<Rightarrow> ('i, 'b, 'x) handler" where
  "request_account addr chain listener s =
     (case fmlookup (h_account_requests s) addr of
        Some ls \<Rightarrow> s\<lparr>h_account_requests := fmupd addr (ls @ [listener]) (h_account_requests s)\<rparr>
      | None \<Rightarrow> s\<lparr>h_account_requests := fmupd addr [listener] (h_account_requests s),
                  h_pending := h_pending s @ [AccountFut addr chain (h_block_number s)]\<rparr>)"

definition request_hash :: "u64 \<Rightarrow> nat \<Rightarrow> ('i, 'b, 'x) handler \<Rightarrow> ('i, 'b, 'x) handler" where
  "request_hash number listener s =
     (case fmlookup (h_block_requests s) number of
        Some ls \<Rightarrow> s\<lparr>h_block_requests := fmupd number (ls @ [listener]) (h_block_requests s)\<rparr>
      | None \<Rightarrow> s\<lparr>h_block_requests := fmupd number [listener] (h_block_requests s),
                  h_pending := h_pending s @ [HashFut number]\<rparr>)"

fun on_request :: "'i backend_request \<Rightarrow> ('i, 'b, 'x) handler \<Rightarrow> ('i, 'b, 'x) handler" where
  "on_request (Basic addr chain sender) s =
     (case fmlookup (h_accounts s) addr of
        Some basic \<Rightarrow> send [sender] (AccountMsg (Inr basic)) s
      | None \<Rightarrow> request_account addr chain sender s)"
| "on_request (BlockHashOf number sender) s =
     (case fmlookup (h_block_hashes s) (ucast number) of
        Some hash \<Rightarrow> send [sender] (HashMsg (Inr hash)) s
      | None \<Rightarrow> request_hash number sender s)"
| "on_request (FullBlock number sender) s = s\<lparr>h_pending := h_pending s @ [BlockFut number sender]\<rparr>"
| "on_request (TransactionOf tx sender) s = s\<lparr>h_pending := h_pending s @ [TxFut tx sender]\<rparr>"
| "on_request (StorageAt addr idx sender) s =
     (case Option.bind (fmlookup (h_storage s) addr) (\<lambda>acc. fmlookup acc idx) of
        Some val \<Rightarrow> send [sender] (StorageMsg (Inr val)) s
      | None \<Rightarrow> request_account_storage addr idx sender s)"
| "on_request (SetPinnedBlock block_number) s = s\<lparr>h_block_number := block_number\<rparr>"

definition account_info_of :: "(u8 list \<Rightarrow> b256) \<Rightarrow> b256 \<Rightarrow> u256 \<times> u64 \<times> u8 list \<Rightarrow> account_info" where
  "account_info_of keccak256 KECCAK_EMPTY resp =
     (case resp of (balance, nonce, code) \<Rightarrow>
        \<lparr>ai_balance = balance, ai_nonce = nonce,
         ai_code_hash = (if code \<noteq> [] then keccak256 code else KECCAK_EMPTY), ai_code = Some code\<rparr>)"

text \<open>What the account future of \<^verbatim>\<open>get_account_req\<close> returns: the balance and the nonce from the provider, the code
  through the code cache, or an error.\<close>

definition account_reply ::
  "(string, u256) result \<Rightarrow> (string, u64) result \<Rightarrow> (string, u8 list) result \<Rightarrow> code_cache \<Rightarrow>
   address \<Rightarrow> u64 \<Rightarrow> u64 \<Rightarrow> (string, u256 \<times> u64 \<times> u8 list) result \<times> code_cache" where
  "account_reply balance nonce code_at cache addr chain block_number =
     (case get_code code_at cache addr chain block_number of
        (code, cache') \<Rightarrow>
          (case (balance, nonce, code) of
             (Inr x, Inr n, Inr c) \<Rightarrow> (Inr (x, n, c), cache')
           | (Inl err, _, _) \<Rightarrow> (Inl err, cache')
           | (_, Inl err, _) \<Rightarrow> (Inl err, cache')
           | (_, _, Inl err) \<Rightarrow> (Inl err, cache')))"

definition listeners_at :: "('k, nat list) fmap \<Rightarrow> 'k \<Rightarrow> nat list" where
  "listeners_at m k = (case fmlookup m k of Some ls \<Rightarrow> ls | None \<Rightarrow> [])"

text \<open>The completion of each kind of future.\<close>

definition complete_account ::
  "(u8 list \<Rightarrow> b256) \<Rightarrow> b256 \<Rightarrow> address \<Rightarrow> (string, u256 \<times> u64 \<times> u8 list) result \<Rightarrow>
   ('i, 'b, 'x) handler \<Rightarrow> ('i, 'b, 'x) handler" where
  "complete_account keccak256 ke addr resp s =
     (let ls = listeners_at (h_account_requests s) addr;
          s1 = s\<lparr>h_account_requests := fmdrop addr (h_account_requests s)\<rparr>
      in case resp of
           Inl err \<Rightarrow> send ls (AccountMsg (Inl (GetAccount addr err))) s1
         | Inr res \<Rightarrow>
             (let acc = account_info_of keccak256 ke res
              in send ls (AccountMsg (Inr acc)) (s1\<lparr>h_accounts := fmupd addr acc (h_accounts s)\<rparr>)))"

definition complete_storage ::
  "address \<Rightarrow> u256 \<Rightarrow> (string, u256) result \<Rightarrow> ('i, 'b, 'x) handler \<Rightarrow> ('i, 'b, 'x) handler" where
  "complete_storage addr idx resp s =
     (let ls = listeners_at (h_storage_requests s) (addr, idx);
          s1 = s\<lparr>h_storage_requests := fmdrop (addr, idx) (h_storage_requests s)\<rparr>
      in case resp of
           Inl err \<Rightarrow> send ls (StorageMsg (Inl (GetStorage addr idx err))) s1
         | Inr val \<Rightarrow>
             (let acc = (case fmlookup (h_storage s) addr of Some acc \<Rightarrow> acc | None \<Rightarrow> fmempty)
              in send ls (StorageMsg (Inr val)) (s1\<lparr>h_storage := fmupd addr (fmupd idx val acc) (h_storage s)\<rparr>)))"

definition complete_hash ::
  "b256 \<Rightarrow> u64 \<Rightarrow> (string, b256 option) result \<Rightarrow> ('i, 'b, 'x) handler \<Rightarrow> ('i, 'b, 'x) handler" where
  "complete_hash ke number resp s =
     (let ls = listeners_at (h_block_requests s) number;
          s1 = s\<lparr>h_block_requests := fmdrop number (h_block_requests s)\<rparr>
      in case resp of
           Inl err \<Rightarrow> send ls (HashMsg (Inl (GetBlockHash number err))) s1
         | Inr block \<Rightarrow>
             (let hash = (case block of Some h \<Rightarrow> h | None \<Rightarrow> ke)
              in send ls (HashMsg (Inr hash)) (s1\<lparr>h_block_hashes := fmupd (ucast number) hash (h_block_hashes s)\<rparr>)))"

definition full_block_msg :: "'i \<Rightarrow> (string, 'b option) result \<Rightarrow> ('i, 'b, 'x) message" where
  "full_block_msg number resp =
     BlockMsg (case resp of
         Inr (Some block) \<Rightarrow> Inr block
       | Inr None \<Rightarrow> Inl (BlockNotFoundById number)
       | Inl err \<Rightarrow> Inl (GetFullBlock number err))"

definition transaction_msg :: "b256 \<Rightarrow> (string, 'x) result \<Rightarrow> ('i, 'b, 'x) message" where
  "transaction_msg tx resp = TransactionMsg (map_sum (GetTransaction tx) id resp)"

text \<open>One pass of the body of the polling loop.\<close>

fun poll_request ::
  "(u8 list \<Rightarrow> b256) \<Rightarrow> b256 \<Rightarrow> ('i, 'b, 'x) provider_poll \<Rightarrow> 'i provider_request \<Rightarrow> ('i, 'b, 'x) handler \<Rightarrow>
   'i provider_request option \<times> ('i, 'b, 'x) handler" where
  "poll_request kec ke pp (AccountFut addr chain b) s =
     (case pp_account pp addr chain b of
        Some resp \<Rightarrow> (None, complete_account kec ke addr resp s)
      | None \<Rightarrow> (Some (AccountFut addr chain b), s))"
| "poll_request kec ke pp (StorageFut addr idx b) s =
     (case pp_storage pp addr idx b of
        Some resp \<Rightarrow> (None, complete_storage addr idx resp s)
      | None \<Rightarrow> (Some (StorageFut addr idx b), s))"
| "poll_request kec ke pp (HashFut number) s =
     (case pp_block_hash pp number of
        Some resp \<Rightarrow> (None, complete_hash ke number resp s)
      | None \<Rightarrow> (Some (HashFut number), s))"
| "poll_request kec ke pp (BlockFut number sender) s =
     (case pp_full_block pp number of
        Some resp \<Rightarrow> (None, send [sender] (full_block_msg number resp) s)
      | None \<Rightarrow> (Some (BlockFut number sender), s))"
| "poll_request kec ke pp (TxFut tx sender) s =
     (case pp_transaction pp tx of
        Some resp \<Rightarrow> (None, send [sender] (transaction_msg tx resp) s)
      | None \<Rightarrow> (Some (TxFut tx sender), s))"

definition poll_pending ::
  "(u8 list \<Rightarrow> b256) \<Rightarrow> b256 \<Rightarrow> ('i, 'b, 'x) provider_poll \<Rightarrow> ('i, 'b, 'x) handler \<Rightarrow> ('i, 'b, 'x) handler" where
  "poll_pending kec ke pp s =
     (case poll_each (poll_request kec ke pp) (length (h_pending s)) (h_pending s) s of
        (rs, t) \<Rightarrow> t\<lparr>h_pending := rs\<rparr>)"

text \<open>An iteration of the loop of \<^verbatim>\<open>poll\<close>: the requests that arrive, whether the channel is closed, and the
  replies of the provider. \<open>None\<close> starts the next iteration.\<close>

datatype poll_outcome = PollReady | PollPending

type_synonym ('i, 'b, 'x) arrivals = "'i backend_request list \<times> bool \<times> ('i, 'b, 'x) provider_poll"

definition handler_round ::
  "(u8 list \<Rightarrow> b256) \<Rightarrow> b256 \<Rightarrow> ('i, 'b, 'x) arrivals \<Rightarrow> ('i, 'b, 'x) handler \<Rightarrow>
   poll_outcome option \<times> ('i, 'b, 'x) handler" where
  "handler_round kec ke arr s =
     (case arr of (reqs, closed, pp) \<Rightarrow>
        let s1 = (fold on_request (h_queued s) (s\<lparr>h_queued := []\<rparr>))\<lparr>h_queued := reqs\<rparr>
        in if closed then (Some PollReady, s1)
           else let s2 = poll_pending kec ke pp s1
                in (if h_queued s2 = [] then Some PollPending else None, s2))"

definition quiet :: "('i, 'b, 'x) arrivals" where
  "quiet = ([], False, \<lparr>pp_account = \<lambda>_ _ _. None, pp_storage = \<lambda>_ _ _. None, pp_block_hash = \<lambda>_. None,
                        pp_full_block = \<lambda>_. None, pp_transaction = \<lambda>_. None\<rparr>)"

fun handler_poll ::
  "(u8 list \<Rightarrow> b256) \<Rightarrow> b256 \<Rightarrow> ('i, 'b, 'x) arrivals list \<Rightarrow> ('i, 'b, 'x) handler \<Rightarrow>
   poll_outcome \<times> ('i, 'b, 'x) handler" where
  "handler_poll kec ke [] s = (PollPending, snd (handler_round kec ke quiet s))"
| "handler_poll kec ke (arr # arrs) s =
     (case handler_round kec ke arr s of
        (Some p, s') \<Rightarrow> (p, s')
      | (None, s') \<Rightarrow> handler_poll kec ke arrs s')"

definition handler_rounds ::
  "(u8 list \<Rightarrow> b256) \<Rightarrow> b256 \<Rightarrow> ('i, 'b, 'x) arrivals list \<Rightarrow> ('i, 'b, 'x) handler \<Rightarrow> ('i, 'b, 'x) handler" where
  "handler_rounds kec ke arrs s = fold (\<lambda>arr s. snd (handler_round kec ke arr s)) arrs s"

text \<open>\<^verbatim>\<open>ForkedDatabase::reset\<close>: the new block number goes to the handler as a request, the data fetched so far is
  wiped at once.\<close>

definition reset_request :: "u64 \<Rightarrow> 'i backend_request" where
  "reset_request block_number = SetPinnedBlock block_number"

definition wipe :: "('i, 'b, 'x) handler \<Rightarrow> ('i, 'b, 'x) handler" where
  "wipe s = s\<lparr>h_accounts := fmempty, h_storage := fmempty, h_block_hashes := fmempty\<rparr>"

section \<open>One request per item, one answer per listener\<close>

definition pick :: "('r \<Rightarrow> 'k option) \<Rightarrow> 'r multiset \<Rightarrow> 'k multiset" where
  "pick f M = image_mset (\<lambda>r. the (f r)) (filter_mset (\<lambda>r. f r \<noteq> None) M)"

lemma pick_simps [simp]:
  "pick f {#} = {#}"
  "pick f (add_mset r M) = (case f r of None \<Rightarrow> pick f M | Some k \<Rightarrow> add_mset k (pick f M))"
  by (auto simp: pick_def split: option.splits)

fun account_key :: "'i provider_request \<Rightarrow> address option" where
  "account_key (AccountFut a c b) = Some a"
| "account_key _ = None"

fun storage_key :: "'i provider_request \<Rightarrow> (address \<times> u256) option" where
  "storage_key (StorageFut a i b) = Some (a, i)"
| "storage_key _ = None"

fun hash_key :: "'i provider_request \<Rightarrow> u64 option" where
  "hash_key (HashFut n) = Some n"
| "hash_key _ = None"

text \<open>The futures of full blocks and transactions own their listener.\<close>

fun direct_listener :: "'i provider_request \<Rightarrow> nat option" where
  "direct_listener (BlockFut i l) = Some l"
| "direct_listener (TxFut h l) = Some l"
| "direct_listener _ = None"

fun request_listener :: "'i backend_request \<Rightarrow> nat option" where
  "request_listener (Basic a c l) = Some l"
| "request_listener (StorageAt a i l) = Some l"
| "request_listener (BlockHashOf n l) = Some l"
| "request_listener (FullBlock i l) = Some l"
| "request_listener (TransactionOf h l) = Some l"
| "request_listener (SetPinnedBlock b) = None"

definition listeners :: "('k, nat list) fmap \<Rightarrow> nat multiset" where
  "listeners m = (\<Sum>k\<in>fset (fmdom m). mset (listeners_at m k))"

lemma listeners_empty [simp]: "listeners fmempty = {#}"
  by (simp add: listeners_def)

lemma listeners_drop: "listeners m = mset (listeners_at m k) + listeners (fmdrop k m)"
proof (cases "k |\<in>| fmdom m")
  case True
  then have "listeners m = mset (listeners_at m k) + (\<Sum>j\<in>fset (fmdom m) - {k}. mset (listeners_at m j))"
    unfolding listeners_def by (intro sum.remove) auto
  also have "(\<Sum>j\<in>fset (fmdom m) - {k}. mset (listeners_at m j)) = listeners (fmdrop k m)"
    unfolding listeners_def by (rule sum.cong) (auto simp: listeners_at_def)
  finally show ?thesis .
next
  case False
  then have "fmlookup m k = None" by (rule fmdom_notD)
  then have "fmdrop k m = m" "listeners_at m k = []" by (auto simp: listeners_at_def intro!: fmap_ext)
  then show ?thesis by simp
qed

lemma listeners_upd: "listeners (fmupd k ls m) = mset ls + listeners (fmdrop k m)"
proof -
  have "fmdrop k (fmupd k ls m) = fmdrop k m" by (rule fmap_ext) simp
  then show ?thesis using listeners_drop [of "fmupd k ls m" k] by (simp add: listeners_at_def)
qed

lemma listeners_push:
  "listeners (fmupd k (listeners_at m k @ [l]) m) = add_mset l (listeners m)"
  using listeners_drop [of m k] by (simp add: listeners_upd)

definition owed :: "'i provider_request multiset \<Rightarrow> ('i, 'b, 'x) handler \<Rightarrow> nat multiset" where
  "owed M s = listeners (h_account_requests s) + listeners (h_storage_requests s) +
              listeners (h_block_requests s) + pick direct_listener M"

definition answered :: "('i, 'b, 'x) handler \<Rightarrow> nat multiset" where
  "answered s = mset (map fst (h_sent s))"

definition keys :: "('k, 'v) fmap \<Rightarrow> 'k multiset" where
  "keys m = mset_set (fset (fmdom m))"

lemma keys_simps [simp]:
  "keys fmempty = {#}"
  "fmlookup m k = None \<Longrightarrow> keys (fmupd k v m) = add_mset k (keys m)"
  "fmlookup m k = Some w \<Longrightarrow> keys (fmupd k v m) = keys m"
  by (auto simp: keys_def insert_absorb dest: fmdom_notI fmdomI)

lemma keys_drop: "add_mset k M = keys m \<Longrightarrow> M = keys (fmdrop k m)"
proof -
  assume "add_mset k M = keys m"
  moreover from this have "k |\<in>| fmdom m"
    by (metis elem_mset_set finite_fset keys_def union_single_eq_member)
  then have "keys m = add_mset k (keys (fmdrop k m))"
    by (simp add: keys_def mset_set.remove)
  ultimately show ?thesis by simp
qed

definition tidy :: "nat multiset \<Rightarrow> 'i provider_request multiset \<Rightarrow> ('i, 'b, 'x) handler \<Rightarrow> bool" where
  "tidy A M s \<longleftrightarrow>
     pick account_key M = keys (h_account_requests s) \<and> pick storage_key M = keys (h_storage_requests s) \<and>
     pick hash_key M = keys (h_block_requests s) \<and> owed M s + answered s = A"

lemma answered_send [simp]: "answered (send ls m s) = mset ls + answered s"
  by (simp add: answered_def send_def comp_def)

lemma send_simps [simp]:
  "h_account_requests (send ls m s) = h_account_requests s"
  "h_storage_requests (send ls m s) = h_storage_requests s"
  "h_block_requests (send ls m s) = h_block_requests s"
  "h_pending (send ls m s) = h_pending s"
  "h_queued (send ls m s) = h_queued s"
  "h_block_number (send ls m s) = h_block_number s"
  "h_accounts (send ls m s) = h_accounts s"
  "h_storage (send ls m s) = h_storage s"
  "h_block_hashes (send ls m s) = h_block_hashes s"
  "h_sent (send ls m s) = h_sent s @ map (\<lambda>l. (l, m)) ls"
  by (simp_all add: send_def)

lemma listeners_at_simps [simp]:
  "fmlookup m k = None \<Longrightarrow> listeners_at m k = []"
  "fmlookup m k = Some ls \<Longrightarrow> listeners_at m k = ls"
  by (simp_all add: listeners_at_def)

lemma on_request_tidy:
  assumes "tidy A (mset (h_pending s)) s"
  shows "tidy ((case request_listener r of None \<Rightarrow> {#} | Some l \<Rightarrow> {#l#}) + A) (mset (h_pending (on_request r s))) (on_request r s)"
proof (cases r)
  case (Basic a c l)
  show ?thesis
    using assms listeners_push [of a "h_account_requests s" l] Basic
    by (cases "fmlookup (h_accounts s) a"; cases "fmlookup (h_account_requests s) a")
       (auto simp: tidy_def owed_def request_account_def answered_def)
next
  case (StorageAt a i l)
  show ?thesis
    using assms listeners_push [of "(a, i)" "h_storage_requests s" l] StorageAt
    by (cases "Option.bind (fmlookup (h_storage s) a) (\<lambda>acc. fmlookup acc i)"; cases "fmlookup (h_storage_requests s) (a, i)")
       (auto simp: tidy_def owed_def request_account_storage_def answered_def)
next
  case (BlockHashOf n l)
  show ?thesis
    using assms listeners_push [of n "h_block_requests s" l] BlockHashOf
    by (cases "fmlookup (h_block_hashes s) (ucast n)"; cases "fmlookup (h_block_requests s) n")
       (auto simp: tidy_def owed_def request_hash_def answered_def)
qed (use assms in \<open>auto simp: tidy_def owed_def answered_def\<close>)

lemma complete_tidy:
  "tidy A (add_mset (AccountFut a c b) M) s \<Longrightarrow> tidy A M (complete_account kec ke a resp s)"
  "tidy A (add_mset (StorageFut a i b) M) s \<Longrightarrow> tidy A M (complete_storage a i resp' s)"
  "tidy A (add_mset (HashFut n) M) s \<Longrightarrow> tidy A M (complete_hash ke n resp'' s)"
  using listeners_drop [of "h_account_requests s" a] listeners_drop [of "h_storage_requests s" "(a, i)"]
    listeners_drop [of "h_block_requests s" n]
  by (auto simp: tidy_def owed_def answered_def complete_account_def complete_storage_def complete_hash_def
      Let_def multiset.map_comp comp_def keys_drop split: sum.splits)

interpretation tidy_poll: polled "poll_request kec ke pp" "tidy A" for kec ke pp A
proof (unfold_locales, goal_cases)
  case (1 r M s s')
  then show ?case
    by (cases r) (auto simp: complete_tidy split: option.splits, auto simp: tidy_def owed_def answered_def)
next
  case (2 r M s r' s')
  then show ?case by (cases r) (auto split: option.splits)
qed

lemma poll_pending_tidy:
  assumes "tidy A (mset (h_pending s)) s"
  shows "tidy A (mset (h_pending (poll_pending kec ke pp s))) (poll_pending kec ke pp s)"
proof -
  obtain rs t where p: "poll_each (poll_request kec ke pp) (length (h_pending s)) (h_pending s) s = (rs, t)"
    by fastforce
  have "tidy A (mset rs) t" using tidy_poll.each_kept [OF assms p] .
  then show ?thesis by (simp add: poll_pending_def p tidy_def owed_def answered_def)
qed

interpretation frame_poll: polled "poll_request kec ke pp" "\<lambda>M s. h_queued s = q \<and> h_block_number s = b" for kec ke pp q b
proof (unfold_locales, goal_cases)
  case (1 r M s s')
  then show ?case
    by (cases r) (auto simp: complete_account_def complete_storage_def complete_hash_def Let_def split: option.splits sum.splits)
next
  case (2 r M s r' s')
  then show ?case by (cases r) (auto split: option.splits)
qed

lemma poll_pending_frame:
  "h_queued (poll_pending kec ke pp s) = h_queued s" "h_block_number (poll_pending kec ke pp s) = h_block_number s"
proof -
  obtain rs t where p: "poll_each (poll_request kec ke pp) (length (h_pending s)) (h_pending s) s = (rs, t)"
    by fastforce
  show "h_queued (poll_pending kec ke pp s) = h_queued s" "h_block_number (poll_pending kec ke pp s) = h_block_number s"
    using frame_poll.each_kept [OF _ p, of "h_queued s" "h_block_number s"] by (simp_all add: poll_pending_def p)
qed

lemma fold_on_request_tidy:
  "tidy A (mset (h_pending s)) s \<Longrightarrow>
   tidy (pick request_listener (mset rs) + A) (mset (h_pending (fold on_request rs s))) (fold on_request rs s)"
proof (induction rs arbitrary: s A)
  case (Cons r rs)
  show ?case
    using Cons.IH [OF on_request_tidy [OF Cons.prems, of r]] by (cases "request_listener r") simp_all
qed simp

definition settled :: "nat multiset \<Rightarrow> ('i, 'b, 'x) handler \<Rightarrow> bool" where
  "settled A s \<longleftrightarrow> (\<exists>B. tidy B (mset (h_pending s)) s \<and> pick request_listener (mset (h_queued s)) + B = A)"

lemma tidy_queued [simp]: "tidy A M (s\<lparr>h_queued := q\<rparr>) = tidy A M s"
  by (simp add: tidy_def owed_def answered_def)

lemma handler_round_settled:
  assumes "settled A s"
  shows "settled (pick request_listener (mset (fst arr)) + A) (snd (handler_round kec ke arr s))"
proof -
  obtain reqs closed pp where arr: "arr = (reqs, closed, pp)" by (cases arr)
  obtain B where B: "tidy B (mset (h_pending s)) s" "pick request_listener (mset (h_queued s)) + B = A"
    using assms by (auto simp: settled_def)
  let ?s = "fold on_request (h_queued s) (s\<lparr>h_queued := []\<rparr>)"
  have t: "tidy A (mset (h_pending (?s\<lparr>h_queued := reqs\<rparr>))) (?s\<lparr>h_queued := reqs\<rparr>)"
    using fold_on_request_tidy [of B "s\<lparr>h_queued := []\<rparr>" "h_queued s"] B by simp
  show ?thesis
    using t poll_pending_tidy [OF t, of kec ke pp]
    by (auto simp: settled_def handler_round_def arr Let_def poll_pending_frame)
qed

lemma handler_rounds_settled:
  "settled A s \<Longrightarrow> settled (pick request_listener (mset (concat (map fst arrs))) + A) (handler_rounds kec ke arrs s)"
proof (induction arrs arbitrary: s A)
  case (Cons arr arrs)
  have pick_append: "pick f (M + N) = pick f M + pick f N" for f :: "'z \<Rightarrow> 'k option" and M N
    by (simp add: pick_def)
  show ?case
    using Cons.IH [OF handler_round_settled [OF Cons.prems, of arr kec ke]]
    by (simp add: handler_rounds_def pick_append ac_simps)
qed (simp add: handler_rounds_def)

lemma handler_new_settled: "settled {#} (handler_new b)"
  by (simp add: settled_def tidy_def owed_def answered_def handler_new_def)

text \<open>
  C?. One request in flight per item, one answer per listener. After any sequence of iterations from
  a new handler, with any arrivals and any replies, the accounts, storage slots and block hashes that
  have listeners are exactly those with a future in flight, and each of them has only one; and the
  listeners of all requests that arrived are, each exactly once, answered, registered with a future,
  or still in the queue.
\<close>

theorem handler_answers_once:
  "let s = handler_rounds kec ke arrs (handler_new b) in
     pick account_key (mset (h_pending s)) = keys (h_account_requests s) \<and>
     pick storage_key (mset (h_pending s)) = keys (h_storage_requests s) \<and>
     pick hash_key (mset (h_pending s)) = keys (h_block_requests s) \<and>
     owed (mset (h_pending s)) s + answered s + pick request_listener (mset (h_queued s)) =
       pick request_listener (mset (concat (map fst arrs)))"
proof -
  let ?s = "handler_rounds kec ke arrs (handler_new b)"
  obtain B where "tidy B (mset (h_pending ?s)) ?s"
    "pick request_listener (mset (h_queued ?s)) + B = pick request_listener (mset (concat (map fst arrs)))"
    using handler_rounds_settled [OF handler_new_settled, of arrs kec ke b] unfolding settled_def by auto
  then show ?thesis unfolding Let_def tidy_def by (metis add.commute)
qed

section \<open>Progress\<close>

definition replies_to_all :: "('i, 'b, 'x) provider_poll \<Rightarrow> bool" where
  "replies_to_all pp \<longleftrightarrow>
     (\<forall>a c b. pp_account pp a c b \<noteq> None) \<and> (\<forall>a i b. pp_storage pp a i b \<noteq> None) \<and>
     (\<forall>n. pp_block_hash pp n \<noteq> None) \<and> (\<forall>i. pp_full_block pp i \<noteq> None) \<and> (\<forall>h. pp_transaction pp h \<noteq> None)"

lemma poll_seq_all_done: "(\<And>r s. fst (f r s) = None) \<Longrightarrow> fst (poll_seq f rs s) = []"
proof (induction rs arbitrary: s)
  case (Cons r rs)
  obtain s' where "f r s = (None, s')" using Cons.prems [of r s] by (cases "f r s") simp
  then show ?case using Cons.IH [OF Cons.prems] by simp
qed simp

lemma poll_pending_all_done:
  assumes "replies_to_all pp"
  shows "h_pending (poll_pending kec ke pp s) = []"
proof -
  obtain rs t where p: "poll_each (poll_request kec ke pp) (length (h_pending s)) (h_pending s) s = (rs, t)"
    by fastforce
  have "fst (poll_request kec ke pp r s') = None" for r s'
    using assms by (cases r) (auto simp: replies_to_all_def split: option.splits)
  then have "fst (poll_seq (poll_request kec ke pp) (rev (h_pending s)) s) = []" by (rule poll_seq_all_done)
  then have "mset rs = {#}" using poll_each_seq [OF order_refl p] by simp
  then show ?thesis by (simp add: poll_pending_def p)
qed

lemma keys_0: "keys m = {#} \<Longrightarrow> listeners m = {#}"
  by (simp add: keys_def listeners_def mset_set_empty_iff)

text \<open>
  C?. Nobody waits forever. Once every future in flight is ready, one more iteration without new
  requests ends the poll with nothing in flight and nobody waiting: every listener of every request
  that ever arrived has been sent exactly one message.
\<close>

theorem handler_serves_all:
  assumes "replies_to_all pp"
  shows "\<exists>t. handler_round kec ke ([], False, pp) (handler_rounds kec ke arrs (handler_new b)) = (Some PollPending, t) \<and>
           h_pending t = [] \<and> answered t = pick request_listener (mset (concat (map fst arrs)))"
proof -
  let ?s = "handler_rounds kec ke arrs (handler_new b)"
  let ?t = "snd (handler_round kec ke ([], False, pp) ?s)"
  have s: "settled (pick request_listener (mset (concat (map fst arrs)))) ?s"
    using handler_rounds_settled [OF handler_new_settled] by fastforce
  have "settled (pick request_listener (mset (concat (map fst arrs)))) ?t"
    using handler_round_settled [OF s, of "([], False, pp)" kec ke] by simp
  moreover have t: "h_queued ?t = []" "h_pending ?t = []" "fst (handler_round kec ke ([], False, pp) ?s) = Some PollPending"
    using poll_pending_all_done [OF assms] by (simp_all add: handler_round_def Let_def poll_pending_frame)
  ultimately have td: "tidy (pick request_listener (mset (concat (map fst arrs)))) {#} ?t"
    unfolding settled_def by auto
  have "listeners (h_account_requests ?t) = {#}" "listeners (h_storage_requests ?t) = {#}"
    "listeners (h_block_requests ?t) = {#}"
    using td unfolding tidy_def by (simp_all add: keys_0)
  then have "answered ?t = pick request_listener (mset (concat (map fst arrs)))"
    using td unfolding tidy_def owed_def by simp
  then show ?thesis using t by (metis prod.collapse)
qed

section \<open>Answers are the data of the pinned block\<close>

text \<open>The data on the chain; account and storage depend on the block.\<close>

record ('i, 'b, 'x) chain_data =
  ct_account :: "address \<Rightarrow> u64 \<Rightarrow> u256 \<times> u64 \<times> u8 list"
  ct_storage :: "address \<Rightarrow> u256 \<Rightarrow> u64 \<Rightarrow> u256"
  ct_hash :: "u64 \<Rightarrow> b256 option"
  ct_block :: "'i \<Rightarrow> 'b option"
  ct_transaction :: "b256 \<Rightarrow> 'x"

text \<open>A provider that may fail, but does not return wrong data.\<close>

definition truthful :: "('i, 'b, 'x) chain_data \<Rightarrow> ('i, 'b, 'x) provider_poll \<Rightarrow> bool" where
  "truthful d pp \<longleftrightarrow>
     (\<forall>a c b v. pp_account pp a c b = Some (Inr v) \<longrightarrow> v = ct_account d a b) \<and>
     (\<forall>a i b v. pp_storage pp a i b = Some (Inr v) \<longrightarrow> v = ct_storage d a i b) \<and>
     (\<forall>n v. pp_block_hash pp n = Some (Inr v) \<longrightarrow> v = ct_hash d n) \<and>
     (\<forall>i v. pp_full_block pp i = Some (Inr v) \<longrightarrow> v = ct_block d i) \<and>
     (\<forall>h v. pp_transaction pp h = Some (Inr v) \<longrightarrow> v = ct_transaction d h)"

text \<open>The message \<open>m\<close> is a right answer to a request of the listener \<open>l\<close> among the requests \<open>R\<close>.\<close>

definition right_answer ::
  "(u8 list \<Rightarrow> b256) \<Rightarrow> b256 \<Rightarrow> ('i, 'b, 'x) chain_data \<Rightarrow> u64 \<Rightarrow> 'i backend_request set \<Rightarrow>
   nat \<Rightarrow> ('i, 'b, 'x) message \<Rightarrow> bool" where
  "right_answer kec ke d b R l m =
     (case m of
        AccountMsg (Inr acc) \<Rightarrow> \<exists>a c. Basic a c l \<in> R \<and> acc = account_info_of kec ke (ct_account d a b)
      | AccountMsg (Inl e) \<Rightarrow> \<exists>a c err. Basic a c l \<in> R \<and> e = GetAccount a err
      | StorageMsg (Inr v) \<Rightarrow> \<exists>a i. StorageAt a i l \<in> R \<and> v = ct_storage d a i b
      | StorageMsg (Inl e) \<Rightarrow> \<exists>a i err. StorageAt a i l \<in> R \<and> e = GetStorage a i err
      | HashMsg (Inr h) \<Rightarrow> \<exists>n. BlockHashOf n l \<in> R \<and> h = (case ct_hash d n of Some h \<Rightarrow> h | None \<Rightarrow> ke)
      | HashMsg (Inl e) \<Rightarrow> \<exists>n err. BlockHashOf n l \<in> R \<and> e = GetBlockHash n err
      | BlockMsg (Inr blk) \<Rightarrow> \<exists>i. FullBlock i l \<in> R \<and> ct_block d i = Some blk
      | BlockMsg (Inl e) \<Rightarrow> \<exists>i. FullBlock i l \<in> R \<and>
          (e = BlockNotFoundById i \<and> ct_block d i = None \<or> (\<exists>err. e = GetFullBlock i err))
      | TransactionMsg (Inr tx) \<Rightarrow> \<exists>h. TransactionOf h l \<in> R \<and> tx = ct_transaction d h
      | TransactionMsg (Inl e) \<Rightarrow> \<exists>h err. TransactionOf h l \<in> R \<and> e = GetTransaction h err)"

text \<open>With a sound code cache the account future is truthful, and it leaves the cache sound.\<close>

lemma account_reply_truthful:
  assumes "sound_cache history cache" "immutable_code history"
    and "\<And>x. balance = Inr x \<Longrightarrow> x = fst (ct_account d a b)" "\<And>n. nonce = Inr n \<Longrightarrow> n = fst (snd (ct_account d a b))"
    and "\<And>code. code_at = Inr code \<Longrightarrow> code = history a c b" "history a c b = snd (snd (ct_account d a b))"
    and "account_reply balance nonce code_at cache a c b = (r, cache')"
  shows "(\<forall>v. r = Inr v \<longrightarrow> v = ct_account d a b) \<and> sound_cache history cache'"
proof -
  obtain code where code: "get_code code_at cache a c b = (code, cache')"
    "r = (case (balance, nonce, code) of (Inr x, Inr n, Inr cd) \<Rightarrow> Inr (x, n, cd)
          | (Inl e, _, _) \<Rightarrow> Inl e | (_, Inl e, _) \<Rightarrow> Inl e | (_, _, Inl e) \<Rightarrow> Inl e)"
    using assms(7) by (auto simp: account_reply_def split: prod.splits sum.splits)
  have "(\<forall>cd. code = Inr cd \<longrightarrow> cd = history a c b) \<and> sound_cache history cache'"
  proof (cases "check_cache cache a c b")
    case None
    then show ?thesis using code(1) assms(1,5) cache_code_sound [OF assms(1), of a c b]
      by (auto simp: get_code_def split: sum.splits)
  next
    case (Some cd)
    then show ?thesis using code(1) assms(1) check_cache_sound [OF assms(1,2) Some] by (auto simp: get_code_def)
  qed
  moreover have "v = ct_account d a b" if "r = Inr v" "\<forall>cd. code = Inr cd \<longrightarrow> cd = history a c b" for v
    using that code(2) assms(3,4,6) by (auto split: sum.splits)
  ultimately show ?thesis by blast
qed

definition data_right :: "(u8 list \<Rightarrow> b256) \<Rightarrow> b256 \<Rightarrow> ('i, 'b, 'x) chain_data \<Rightarrow> u64 \<Rightarrow> ('i, 'b, 'x) handler \<Rightarrow> bool" where
  "data_right kec ke d b s \<longleftrightarrow>
     (\<forall>a acc. fmlookup (h_accounts s) a = Some acc \<longrightarrow> acc = account_info_of kec ke (ct_account d a b)) \<and>
     (\<forall>a st i v. fmlookup (h_storage s) a = Some st \<longrightarrow> fmlookup st i = Some v \<longrightarrow> v = ct_storage d a i b) \<and>
     (\<forall>n h. fmlookup (h_block_hashes s) (ucast n) = Some h \<longrightarrow> h = (case ct_hash d n of Some h \<Rightarrow> h | None \<Rightarrow> ke))"

fun future_right :: "u64 \<Rightarrow> 'i backend_request set \<Rightarrow> 'i provider_request \<Rightarrow> bool" where
  "future_right b R (AccountFut a c b') = (b' = b)"
| "future_right b R (StorageFut a i b') = (b' = b)"
| "future_right b R (HashFut n) = True"
| "future_right b R (BlockFut i l) = (FullBlock i l \<in> R)"
| "future_right b R (TxFut h l) = (TransactionOf h l \<in> R)"

definition waiting_right :: "'i backend_request set \<Rightarrow> ('i, 'b, 'x) handler \<Rightarrow> bool" where
  "waiting_right R s \<longleftrightarrow>
     (\<forall>a. \<forall>l\<in>set (listeners_at (h_account_requests s) a). \<exists>c. Basic a c l \<in> R) \<and>
     (\<forall>a i. \<forall>l\<in>set (listeners_at (h_storage_requests s) (a, i)). StorageAt a i l \<in> R) \<and>
     (\<forall>n. \<forall>l\<in>set (listeners_at (h_block_requests s) n). BlockHashOf n l \<in> R)"

definition right ::
  "(u8 list \<Rightarrow> b256) \<Rightarrow> b256 \<Rightarrow> ('i, 'b, 'x) chain_data \<Rightarrow> u64 \<Rightarrow> 'i backend_request set \<Rightarrow>
   'i provider_request multiset \<Rightarrow> ('i, 'b, 'x) handler \<Rightarrow> bool" where
  "right kec ke d b R M s \<longleftrightarrow>
     h_block_number s = b \<and> data_right kec ke d b s \<and> (\<forall>r\<in>#M. future_right b R r) \<and> waiting_right R s \<and>
     (\<forall>(l, m)\<in>set (h_sent s). right_answer kec ke d b R l m)"

lemma ucast_u256_inject: "(ucast n :: u256) = ucast m \<longleftrightarrow> n = m" for n m :: u64
proof
  assume "(ucast n :: u256) = ucast m"
  then have "unat (ucast n :: u256) = unat (ucast m :: u256)" by simp
  moreover have "unat n < 2 ^ 256" "unat m < 2 ^ 256"
    using unsigned_less [of n, where ?'a = nat] unsigned_less [of m, where ?'a = nat] by simp_all
  ultimately show "n = m" by (simp add: unat_ucast_mod word_eq_unat)
qed simp

lemma listeners_at_upd [simp]:
  "listeners_at (fmupd k ls m) j = (if j = k then ls else listeners_at m j)"
  "listeners_at (fmdrop k m) j = (if j = k then [] else listeners_at m j)"
  by (auto simp: listeners_at_def)

lemma right_send:
  assumes "right kec ke d b R M s" "\<forall>l\<in>set ls. right_answer kec ke d b R l m"
  shows "right kec ke d b R M (send ls m s)"
  using assms by (auto simp: right_def data_right_def waiting_right_def)

lemma right_drop:
  assumes "right kec ke d b R (add_mset r M) s"
  shows "right kec ke d b R M (s\<lparr>h_account_requests := fmdrop a (h_account_requests s)\<rparr>)"
    "right kec ke d b R M (s\<lparr>h_storage_requests := fmdrop k (h_storage_requests s)\<rparr>)"
    "right kec ke d b R M (s\<lparr>h_block_requests := fmdrop n (h_block_requests s)\<rparr>)"
    "right kec ke d b R M s"
  using assms by (auto simp: right_def data_right_def waiting_right_def)

lemma right_data:
  assumes "right kec ke d b R M s"
  shows "right kec ke d b R M (s\<lparr>h_accounts := fmupd a (account_info_of kec ke (ct_account d a b)) (h_accounts s)\<rparr>)"
    "right kec ke d b R M (s\<lparr>h_storage := fmupd a (fmupd i (ct_storage d a i b)
        (case fmlookup (h_storage s) a of Some acc \<Rightarrow> acc | None \<Rightarrow> fmempty)) (h_storage s)\<rparr>)"
    "right kec ke d b R M (s\<lparr>h_block_hashes := fmupd (ucast n) (case ct_hash d n of Some h \<Rightarrow> h | None \<Rightarrow> ke) (h_block_hashes s)\<rparr>)"
  using assms
  by (auto simp: right_def data_right_def waiting_right_def ucast_u256_inject split: option.splits if_splits)

lemma right_waiting:
  assumes "right kec ke d b R M s"
  shows "l \<in> set (listeners_at (h_account_requests s) a) \<Longrightarrow> \<exists>c. Basic a c l \<in> R"
    "l \<in> set (listeners_at (h_storage_requests s) (a, i)) \<Longrightarrow> StorageAt a i l \<in> R"
    "l \<in> set (listeners_at (h_block_requests s) n) \<Longrightarrow> BlockHashOf n l \<in> R"
  using assms by (simp_all add: right_def waiting_right_def)

lemma complete_account_right:
  assumes r: "right kec ke d b R (add_mset (AccountFut a c b) M) s" and v: "\<And>v. resp = Inr v \<Longrightarrow> v = ct_account d a b"
  shows "right kec ke d b R M (complete_account kec ke a resp s)"
proof (cases resp)
  case (Inl e)
  then show ?thesis using right_send [OF right_drop(1) [OF r]] right_waiting(1) [OF r]
    by (fastforce simp: complete_account_def Let_def right_answer_def)
next
  case (Inr x)
  have "right kec ke d b R M (s\<lparr>h_account_requests := fmdrop a (h_account_requests s),
      h_accounts := fmupd a (account_info_of kec ke (ct_account d a b)) (h_accounts s)\<rparr>)"
    using right_data(1) [OF right_drop(1) [OF r, of a], of a] by simp
  from right_send [OF this, of "listeners_at (h_account_requests s) a"
      "AccountMsg (Inr (account_info_of kec ke (ct_account d a b)))"]
  show ?thesis using right_waiting(1) [OF r] v Inr
    by (fastforce simp: complete_account_def Let_def right_answer_def)
qed

lemma complete_storage_right:
  assumes r: "right kec ke d b R (add_mset (StorageFut a i b) M) s" and v: "\<And>v. resp = Inr v \<Longrightarrow> v = ct_storage d a i b"
  shows "right kec ke d b R M (complete_storage a i resp s)"
proof (cases resp)
  case (Inl e)
  then show ?thesis using right_send [OF right_drop(2) [OF r]] right_waiting(2) [OF r]
    by (fastforce simp: complete_storage_def Let_def right_answer_def)
next
  case (Inr x)
  have "right kec ke d b R M (s\<lparr>h_storage_requests := fmdrop (a, i) (h_storage_requests s),
      h_storage := fmupd a (fmupd i (ct_storage d a i b)
        (case fmlookup (h_storage s) a of Some acc \<Rightarrow> acc | None \<Rightarrow> fmempty)) (h_storage s)\<rparr>)"
    using right_data(2) [OF right_drop(2) [OF r, of "(a, i)"], of a i] by simp
  from right_send [OF this, of "listeners_at (h_storage_requests s) (a, i)" "StorageMsg (Inr (ct_storage d a i b))"]
  show ?thesis using right_waiting(2) [OF r] v Inr
    by (fastforce simp: complete_storage_def Let_def right_answer_def)
qed

lemma complete_hash_right:
  assumes r: "right kec ke d b R (add_mset (HashFut n) M) s" and v: "\<And>v. resp = Inr v \<Longrightarrow> v = ct_hash d n"
  shows "right kec ke d b R M (complete_hash ke n resp s)"
proof (cases resp)
  case (Inl e)
  then show ?thesis using right_send [OF right_drop(3) [OF r]] right_waiting(3) [OF r]
    by (fastforce simp: complete_hash_def Let_def right_answer_def)
next
  case (Inr x)
  let ?h = "case ct_hash d n of Some h \<Rightarrow> h | None \<Rightarrow> ke"
  have "right kec ke d b R M (s\<lparr>h_block_requests := fmdrop n (h_block_requests s),
      h_block_hashes := fmupd (ucast n) ?h (h_block_hashes s)\<rparr>)"
    using right_data(3) [OF right_drop(3) [OF r, of n], of n] by simp
  from right_send [OF this, of "listeners_at (h_block_requests s) n" "HashMsg (Inr ?h)"]
  show ?thesis using right_waiting(3) [OF r] v Inr
    by (fastforce simp: complete_hash_def Let_def right_answer_def)
qed

lemma right_future: "right kec ke d b R (add_mset r M) s \<Longrightarrow> future_right b R r"
  by (simp add: right_def)

lemma truthfulD:
  assumes "truthful d pp"
  shows "pp_account pp a c b = Some (Inr v) \<Longrightarrow> v = ct_account d a b"
    "pp_storage pp a i b = Some (Inr w) \<Longrightarrow> w = ct_storage d a i b"
    "pp_block_hash pp n = Some (Inr h) \<Longrightarrow> h = ct_hash d n"
    "pp_full_block pp j = Some (Inr blk) \<Longrightarrow> blk = ct_block d j"
    "pp_transaction pp tx = Some (Inr t) \<Longrightarrow> t = ct_transaction d tx"
  using assms unfolding truthful_def by metis+

lemma poll_request_right:
  assumes "right kec ke d b R (add_mset r M) s" "truthful d pp" "poll_request kec ke pp r s = (None, s')"
  shows "right kec ke d b R M s'"
proof (cases r)
  case (AccountFut a c b')
  then obtain resp where "pp_account pp a c b = Some resp" "s' = complete_account kec ke a resp s" "b' = b"
    using assms(3) right_future [OF assms(1)] by (auto split: option.splits)
  then show ?thesis
    using complete_account_right [of kec ke d b R a c M s resp] truthfulD(1) [OF assms(2)] assms(1) AccountFut by blast
next
  case (StorageFut a i b')
  then obtain resp where "pp_storage pp a i b = Some resp" "s' = complete_storage a i resp s" "b' = b"
    using assms(3) right_future [OF assms(1)] by (auto split: option.splits)
  then show ?thesis
    using complete_storage_right [of kec ke d b R a i M s resp] truthfulD(2) [OF assms(2)] assms(1) StorageFut by blast
next
  case (HashFut n)
  then obtain resp where "pp_block_hash pp n = Some resp" "s' = complete_hash ke n resp s"
    using assms(3) by (auto split: option.splits)
  then show ?thesis
    using complete_hash_right [of kec ke d b R n M s resp] truthfulD(3) [OF assms(2)] assms(1) HashFut by blast
next
  case (BlockFut i l)
  then obtain resp where resp: "pp_full_block pp i = Some resp" "s' = send [l] (full_block_msg i resp) s"
    using assms(3) by (auto split: option.splits)
  have "right_answer kec ke d b R l (full_block_msg i resp)"
    using right_future [OF assms(1)] truthfulD(4) [OF assms(2), of i] resp(1) BlockFut
    by (auto simp: right_answer_def full_block_msg_def split: sum.splits option.splits)
  then show ?thesis using right_send [OF right_drop(4) [OF assms(1)], of "[l]"] resp(2) by simp
next
  case (TxFut h l)
  then obtain resp where resp: "pp_transaction pp h = Some resp" "s' = send [l] (transaction_msg h resp) s"
    using assms(3) by (auto split: option.splits)
  have "right_answer kec ke d b R l (transaction_msg h resp)"
    using right_future [OF assms(1)] truthfulD(5) [OF assms(2), of h] resp(1) TxFut
    by (cases resp) (auto simp: right_answer_def transaction_msg_def)
  then show ?thesis using right_send [OF right_drop(4) [OF assms(1)], of "[l]"] resp(2) by simp
qed

interpretation right_poll: polled "poll_request kec ke pp" "\<lambda>M s. truthful d pp \<longrightarrow> right kec ke d b R M s"
  for kec ke pp d b R
proof (unfold_locales, goal_cases)
  case (1 r M s s')
  then show ?case using poll_request_right by blast
next
  case (2 r M s r' s')
  then show ?case by (cases r) (auto split: option.splits)
qed

lemma right_frame [simp]:
  "right kec ke d b R M (s\<lparr>h_queued := q\<rparr>) = right kec ke d b R M s"
  "right kec ke d b R M (s\<lparr>h_pending := rs\<rparr>) = right kec ke d b R M s"
  by (simp_all add: right_def data_right_def waiting_right_def)

lemma poll_pending_right:
  assumes "right kec ke d b R (mset (h_pending s)) s" "truthful d pp"
  shows "right kec ke d b R (mset (h_pending (poll_pending kec ke pp s))) (poll_pending kec ke pp s)"
proof -
  obtain rs t where p: "poll_each (poll_request kec ke pp) (length (h_pending s)) (h_pending s) s = (rs, t)"
    by fastforce
  show ?thesis using right_poll.each_kept [OF _ p, of d b R] assms by (simp add: poll_pending_def p)
qed

lemma right_push:
  assumes "right kec ke d b R (mset (h_pending s)) s"
  shows "Basic a c l \<in> R \<Longrightarrow> right kec ke d b R (mset (h_pending (request_account a c l s))) (request_account a c l s)"
    "StorageAt a i l \<in> R \<Longrightarrow>
       right kec ke d b R (mset (h_pending (request_account_storage a i l s))) (request_account_storage a i l s)"
    "BlockHashOf n l \<in> R \<Longrightarrow> right kec ke d b R (mset (h_pending (request_hash n l s))) (request_hash n l s)"
  using assms
  by (auto simp: right_def data_right_def waiting_right_def request_account_def request_account_storage_def
      request_hash_def split: option.splits)

lemma right_cached:
  assumes "right kec ke d b R M s"
  shows "fmlookup (h_accounts s) a = Some acc \<Longrightarrow> acc = account_info_of kec ke (ct_account d a b)"
    "Option.bind (fmlookup (h_storage s) a) (\<lambda>st. fmlookup st i) = Some v \<Longrightarrow> v = ct_storage d a i b"
    "fmlookup (h_block_hashes s) (ucast n) = Some h \<Longrightarrow> h = (case ct_hash d n of Some h \<Rightarrow> h | None \<Rightarrow> ke)"
  using assms by (auto simp: right_def data_right_def Option.bind_eq_Some_conv)

lemma on_request_right:
  assumes "right kec ke d b R (mset (h_pending s)) s" "r \<in> R" "\<And>n. r \<noteq> SetPinnedBlock n"
  shows "right kec ke d b R (mset (h_pending (on_request r s))) (on_request r s)"
proof (cases r)
  case (Basic a c l)
  show ?thesis
  proof (cases "fmlookup (h_accounts s) a")
    case None
    then show ?thesis using right_push(1) [OF assms(1)] assms(2) Basic by simp
  next
    case (Some acc)
    have "right_answer kec ke d b R l (AccountMsg (Inr acc))"
      using right_cached(1) [OF assms(1) Some] assms(2) Basic by (auto simp: right_answer_def)
    then show ?thesis using right_send [OF assms(1), of "[l]"] Basic Some by simp
  qed
next
  case (StorageAt a i l)
  show ?thesis
  proof (cases "Option.bind (fmlookup (h_storage s) a) (\<lambda>acc. fmlookup acc i)")
    case None
    then show ?thesis using right_push(2) [OF assms(1)] assms(2) StorageAt by simp
  next
    case (Some v)
    have "right_answer kec ke d b R l (StorageMsg (Inr v))"
      using right_cached(2) [OF assms(1) Some] assms(2) StorageAt by (auto simp: right_answer_def)
    then show ?thesis using right_send [OF assms(1), of "[l]"] StorageAt Some by simp
  qed
next
  case (BlockHashOf n l)
  show ?thesis
  proof (cases "fmlookup (h_block_hashes s) (ucast n)")
    case None
    then show ?thesis using right_push(3) [OF assms(1)] assms(2) BlockHashOf by simp
  next
    case (Some h)
    have "right_answer kec ke d b R l (HashMsg (Inr h))"
      using right_cached(3) [OF assms(1) Some] assms(2) BlockHashOf by (auto simp: right_answer_def)
    then show ?thesis using right_send [OF assms(1), of "[l]"] BlockHashOf Some by simp
  qed
qed (use assms in \<open>auto simp: right_def data_right_def waiting_right_def\<close>)

lemma fold_on_request_right:
  assumes "right kec ke d b R (mset (h_pending s)) s" "set rs \<subseteq> R" "\<And>n. SetPinnedBlock n \<notin> R"
  shows "right kec ke d b R (mset (h_pending (fold on_request rs s))) (fold on_request rs s)"
  using assms(1,2)
proof (induction rs arbitrary: s)
  case (Cons r rs)
  then have "right kec ke d b R (mset (h_pending (on_request r s))) (on_request r s)"
    using assms(3) by (intro on_request_right) auto
  then show ?case using Cons by simp
qed simp

lemma handler_round_right:
  assumes "right kec ke d b R (mset (h_pending s)) s" "set (h_queued s) \<subseteq> R" "\<And>n. SetPinnedBlock n \<notin> R"
    and "set (fst arr) \<subseteq> R" "truthful d (snd (snd arr))"
  shows "right kec ke d b R (mset (h_pending (snd (handler_round kec ke arr s)))) (snd (handler_round kec ke arr s)) \<and>
         set (h_queued (snd (handler_round kec ke arr s))) \<subseteq> R"
proof -
  obtain reqs closed pp where arr: "arr = (reqs, closed, pp)" by (cases arr)
  let ?s = "fold on_request (h_queued s) (s\<lparr>h_queued := []\<rparr>)\<lparr>h_queued := reqs\<rparr>"
  have t: "right kec ke d b R (mset (h_pending ?s)) ?s"
    using fold_on_request_right [of kec ke d b R "s\<lparr>h_queued := []\<rparr>" "h_queued s"] assms(1-3) by simp
  show ?thesis
    using t poll_pending_right [OF t, of pp] assms(4,5)
    by (simp add: handler_round_def arr Let_def poll_pending_frame)
qed

lemma handler_rounds_right:
  assumes "right kec ke d b R (mset (h_pending s)) s" "set (h_queued s) \<subseteq> R" "\<And>n. SetPinnedBlock n \<notin> R"
    and "\<And>arr. arr \<in> set arrs \<Longrightarrow> set (fst arr) \<subseteq> R \<and> truthful d (snd (snd arr))"
  shows "right kec ke d b R (mset (h_pending (handler_rounds kec ke arrs s))) (handler_rounds kec ke arrs s)"
  using assms(1,2,4)
proof (induction arrs arbitrary: s)
  case (Cons arr arrs)
  then show ?case
    using handler_round_right [OF Cons.prems(1,2) assms(3), of arr] by (simp add: handler_rounds_def)
qed (simp add: handler_rounds_def)

text \<open>
  C?. Answers are right. As long as the pinned block is not changed and the provider, which may fail
  and be slow, does not return wrong data, every message the handler sends answers a request of its
  listener, and every data in it is that of the pinned block: cached or fetched, alone or together
  with other listeners.
\<close>

theorem handler_answers_right:
  assumes "\<forall>(reqs, closed, pp) \<in> set arrs. truthful d pp \<and> (\<forall>n. SetPinnedBlock n \<notin> set reqs)"
    and "(l, m) \<in> set (h_sent (handler_rounds kec ke arrs (handler_new b)))"
  shows "right_answer kec ke d b (set (concat (map fst arrs))) l m"
proof -
  let ?R = "set (concat (map fst arrs))"
  have "right kec ke d b ?R (mset (h_pending (handler_new b))) (handler_new b)"
    by (simp add: right_def data_right_def waiting_right_def handler_new_def)
  moreover have "set (fst arr) \<subseteq> ?R \<and> truthful d (snd (snd arr))" if "arr \<in> set arrs" for arr
    using assms(1) that by fastforce
  moreover have "SetPinnedBlock n \<notin> ?R" for n using assms(1) by fastforce
  ultimately have "right kec ke d b ?R (mset (h_pending (handler_rounds kec ke arrs (handler_new b))))
      (handler_rounds kec ke arrs (handler_new b))"
    by (intro handler_rounds_right) (simp_all add: handler_new_def)
  then show ?thesis using assms(2) by (auto simp: right_def)
qed

lemma handler_poll_rounds:
  "\<exists>k. snd (handler_poll kec ke arrs s) = handler_rounds kec ke (take k (arrs @ [quiet])) s"
proof (induction arrs arbitrary: s)
  case Nil
  show ?case by (rule exI [of _ 1]) (simp add: handler_rounds_def)
next
  case (Cons arr arrs)
  obtain p s' where r: "handler_round kec ke arr s = (p, s')" by fastforce
  show ?case
  proof (cases p)
    case None
    then obtain k where "snd (handler_poll kec ke arrs s') = handler_rounds kec ke (take k (arrs @ [quiet])) s'"
      using Cons.IH by blast
    then show ?thesis using r None by (intro exI [of _ "Suc k"]) (simp add: handler_rounds_def)
  next
    case (Some q)
    then show ?thesis using r by (intro exI [of _ 1]) (simp add: handler_rounds_def)
  qed
qed

section \<open>Resetting a fork\<close>

text \<open>The only future for account \<open>a\<close> is in flight, or it is done and has stored \<open>acc\<close>.\<close>

definition racing :: "address \<Rightarrow> u64 \<Rightarrow> u64 \<Rightarrow> account_info \<Rightarrow> 'i provider_request multiset \<Rightarrow> ('i, 'b, 'x) handler \<Rightarrow> bool" where
  "racing a c b acc M s \<longleftrightarrow>
     (\<exists>N. M = add_mset (AccountFut a c b) N \<and> a \<notin># pick account_key N) \<or>
     a \<notin># pick account_key M \<and> fmlookup (h_accounts s) a = Some acc"

lemma pick_member: "r \<in># M \<Longrightarrow> f r = Some k \<Longrightarrow> k \<in># pick f M"
  by (force simp: pick_def)

lemma not_account_key: "a \<notin># pick account_key (add_mset r M) \<longleftrightarrow> account_key r \<noteq> Some a \<and> a \<notin># pick account_key M"
  by (auto split: option.splits)

lemma poll_request_other:
  assumes "poll_request kec ke pp r s = (x, s')" "account_key r \<noteq> Some a"
  shows "fmlookup (h_accounts s') a = fmlookup (h_accounts s) a"
  using assms
  by (cases r) (auto simp: complete_account_def complete_storage_def complete_hash_def Let_def split: option.splits sum.splits)

lemma racing_done:
  assumes "racing a c b (account_info_of kec ke v) (add_mset r M) s"
    and "pp_account pp a c b = None \<or> pp_account pp a c b = Some (Inr v)"
    and "poll_request kec ke pp r s = (None, s')"
  shows "racing a c b (account_info_of kec ke v) M s'"
proof (cases "account_key r = Some a")
  case True
  then obtain N where N: "add_mset r M = add_mset (AccountFut a c b) N" "a \<notin># pick account_key N"
    using assms(1) by (auto simp: racing_def)
  have "r \<in># add_mset (AccountFut a c b) N" using N(1) by (metis union_single_eq_member)
  then have "r = AccountFut a c b" using N(2) True pick_member [of r N account_key a] by auto
  then have "M = N" "s' = complete_account kec ke a (Inr v) s" using N assms(2,3) by auto
  then show ?thesis using N by (simp add: racing_def complete_account_def Let_def)
next
  case False
  show ?thesis
  proof (cases "a \<in># pick account_key (add_mset r M)")
    case True
    then obtain N where N: "add_mset r M = add_mset (AccountFut a c b) N" "a \<notin># pick account_key N"
      using assms(1) by (auto simp: racing_def)
    then have "r \<noteq> AccountFut a c b" using False by auto
    then obtain K where K: "M = add_mset (AccountFut a c b) K" "N = add_mset r K"
      using N(1) by (auto simp: add_eq_conv_ex)
    have "a \<notin># pick account_key K" using N(2) unfolding K(2) not_account_key by simp
    then show ?thesis using K(1) by (auto simp: racing_def)
  next
    case k: False
    then have "a \<notin># pick account_key M" unfolding not_account_key by simp
    moreover have "fmlookup (h_accounts s) a = Some (account_info_of kec ke v)"
      using k assms(1) unfolding racing_def by (metis account_key.simps(1) not_account_key)
    ultimately show ?thesis using poll_request_other [OF assms(3) False] by (simp add: racing_def)
  qed
qed

interpretation race_poll: polled "poll_request kec ke pp"
  "\<lambda>M s. (pp_account pp a c b = None \<or> pp_account pp a c b = Some (Inr v)) \<longrightarrow>
         racing a c b (account_info_of kec ke v) M s" for kec ke pp a c b v
proof (unfold_locales, goal_cases)
  case (1 r M s s')
  then show ?case using racing_done by blast
next
  case (2 r M s r' s')
  then show ?case by (cases r) (auto split: option.splits)
qed

text \<open>What is pushed back was not ready.\<close>

lemma poll_seq_not_ready:
  assumes "\<And>r s r' s'. f r s = (Some r', s') \<Longrightarrow> P r'" "r \<in> set (fst (poll_seq f rs s))"
  shows "P r"
  using assms(2)
proof (induction rs arbitrary: s)
  case (Cons r0 rs)
  obtain x s' where f: "f r0 s = (x, s')" by fastforce
  then show ?case
    using Cons.IH [of s'] Cons.prems assms(1) by (cases x) (auto split: prod.splits)
qed simp

lemma poll_pending_not_ready:
  assumes "AccountFut a c b \<in> set (h_pending (poll_pending kec ke pp s))"
  shows "pp_account pp a c b = None"
proof -
  obtain rs t where p: "poll_each (poll_request kec ke pp) (length (h_pending s)) (h_pending s) s = (rs, t)"
    by fastforce
  then have "set rs = set (fst (poll_seq (poll_request kec ke pp) (rev (h_pending s)) s))"
    using poll_each_seq [OF order_refl p] by (metis mset_eq_setD append.right_neutral mset_append drop_all order_refl rev_rev_ident take_all)
  then have "AccountFut a c b \<in> set (fst (poll_seq (poll_request kec ke pp) (rev (h_pending s)) s))"
    using assms by (simp add: poll_pending_def p)
  then show ?thesis
    by (rule poll_seq_not_ready [where P = "\<lambda>r. r = AccountFut a c b \<longrightarrow> pp_account pp a c b = None", THEN mp, rotated])
       (auto elim!: poll_request.elims split: option.splits)
qed

lemma poll_pending_racing:
  assumes "racing a c b (account_info_of kec ke v) (mset (h_pending s)) s"
    and "pp_account pp a c b = None \<or> pp_account pp a c b = Some (Inr v)"
  shows "racing a c b (account_info_of kec ke v) (mset (h_pending (poll_pending kec ke pp s))) (poll_pending kec ke pp s)"
proof -
  obtain rs t where p: "poll_each (poll_request kec ke pp) (length (h_pending s)) (h_pending s) s = (rs, t)"
    by fastforce
  show ?thesis using race_poll.each_kept [OF _ p, of a c b v] assms by (simp add: poll_pending_def p racing_def)
qed

interpretation sent_poll: polled "poll_request kec ke pp" "\<lambda>M s. x \<in> set (h_sent s)" for kec ke pp x
proof (unfold_locales, goal_cases)
  case (1 r M s s')
  then show ?case
    by (cases r) (auto simp: complete_account_def complete_storage_def complete_hash_def Let_def split: option.splits sum.splits)
next
  case (2 r M s r' s')
  then show ?case by (cases r) (auto split: option.splits)
qed

lemma poll_pending_sent: "x \<in> set (h_sent s) \<Longrightarrow> x \<in> set (h_sent (poll_pending kec ke pp s))"
proof -
  obtain rs t where p: "poll_each (poll_request kec ke pp) (length (h_pending s)) (h_pending s) s = (rs, t)"
    by fastforce
  show "x \<in> set (h_sent s) \<Longrightarrow> ?thesis" using sent_poll.each_kept [OF _ p, of x] by (simp add: poll_pending_def p)
qed

lemma settled_racing:
  assumes "settled A s" "AccountFut a c b \<in> set (h_pending s)"
  shows "racing a c b acc (mset (h_pending s)) t"
proof -
  obtain N where N: "mset (h_pending s) = add_mset (AccountFut a c b) N"
    using assms(2) by (meson in_multiset_in_set multi_member_split)
  have "add_mset a (pick account_key N) = keys (h_account_requests s)"
    using assms(1) N by (auto simp: settled_def tidy_def)
  then have "count (add_mset a (pick account_key N)) a = count (keys (h_account_requests s)) a" by simp
  then have "count (pick account_key N) a = 0" by (simp add: keys_def count_mset_set' split: if_splits)
  then show ?thesis using N by (auto simp: racing_def not_in_iff)
qed

text \<open>
  C?. Resetting a fork races with requests in flight. \<^verbatim>\<open>ForkedDatabase::reset\<close> wipes the fetched data and
  asks the handler to pin the new block. An account request in flight at that moment still fetches
  the old block; its reply is stored after the wipe, and from then on every request for the account,
  also one made after the handler has pinned the new block, is answered with the account's state
  at the old block.
\<close>

theorem reset_race:
  assumes "settled A s" "h_queued s = []" "AccountFut a c b \<in> set (h_pending s)"
    and "pp_account pp a c b = Some (Inr v)"
  shows "let t = handler_rounds kec ke [([reset_request b', Basic a c l], False, pp), ([], False, pp')] (wipe s) in
           h_block_number t = b' \<and> (l, AccountMsg (Inr (account_info_of kec ke v))) \<in> set (h_sent t)"
proof -
  let ?reqs = "[SetPinnedBlock b', Basic a c l]" and ?acc = "account_info_of kec ke v"
  let ?s1 = "(wipe s)\<lparr>h_queued := ?reqs\<rparr>"
  let ?t1 = "poll_pending kec ke pp ?s1"
  let ?u = "send [l] (AccountMsg (Inr ?acc)) (?t1\<lparr>h_queued := [], h_block_number := b'\<rparr>)\<lparr>h_queued := []\<rparr>"
  have r1: "snd (handler_round kec ke (?reqs, False, pp) (wipe s)) = ?t1"
    using assms(2) by (simp add: handler_round_def Let_def wipe_def)
  have "racing a c b ?acc (mset (h_pending ?t1)) ?t1"
    using settled_racing [OF assms(1,3), of ?acc] assms(4) by (intro poll_pending_racing) (simp_all add: wipe_def)
  moreover have "AccountFut a c b \<notin> set (h_pending ?t1)"
    using poll_pending_not_ready [of a c b kec ke pp ?s1] assms(4) by auto
  ultimately have acc: "fmlookup (h_accounts ?t1) a = Some ?acc"
    unfolding racing_def by (metis in_multiset_in_set union_single_eq_member)
  have q: "h_queued ?t1 = ?reqs" by (simp add: poll_pending_frame)
  have "fold on_request (h_queued ?t1) (?t1\<lparr>h_queued := []\<rparr>)\<lparr>h_queued := []\<rparr> = ?u"
    unfolding q using acc by simp
  then have r2: "snd (handler_round kec ke ([], False, pp') ?t1) = poll_pending kec ke pp' ?u"
    by (simp add: handler_round_def Let_def)
  have "(l, AccountMsg (Inr ?acc)) \<in> set (h_sent ?u)" by simp
  then show ?thesis
    using r1 r2 poll_pending_sent [of "(l, AccountMsg (Inr ?acc))" ?u kec ke pp']
    by (simp add: handler_rounds_def reset_request_def poll_pending_frame)
qed

section \<open>Witnesses\<close>

definition sample_poll :: "u256 \<Rightarrow> (nat, nat, nat) provider_poll" where
  "sample_poll balance =
     \<lparr>pp_account = \<lambda>_ _ b. Some (Inr (balance, 0, [])), pp_storage = \<lambda>_ _ _. Some (Inr 0),
      pp_block_hash = \<lambda>_. Some (Inr None), pp_full_block = \<lambda>i. Some (Inr (Some i)), pp_transaction = \<lambda>_. Some (Inr 0)\<rparr>"

definition sample_data :: "u256 \<Rightarrow> (nat, nat, nat) chain_data" where
  "sample_data balance =
     \<lparr>ct_account = \<lambda>_ _. (balance, 0, []), ct_storage = \<lambda>_ _ _. 0, ct_hash = \<lambda>_. None, ct_block = Some,
      ct_transaction = \<lambda>_. 0\<rparr>"

lemma sample_truthful: "truthful (sample_data x) (sample_poll x)"
  by (auto simp: truthful_def sample_data_def sample_poll_def)

text \<open>Two listeners ask for the same account before it is fetched.\<close>

definition sample_arrivals :: "(nat, nat, nat) arrivals list" where
  "sample_arrivals = [([Basic 1 1 7, Basic 1 1 8], False, snd (snd quiet)), ([], False, sample_poll 5)]"

lemma sample_sent:
  "h_sent (handler_rounds (\<lambda>_. 0) 0 sample_arrivals (handler_new 3)) =
     [(7, AccountMsg (Inr (account_info_of (\<lambda>_. 0) 0 (5, 0, [])))), (8, AccountMsg (Inr (account_info_of (\<lambda>_. 0) 0 (5, 0, []))))]"
  by (simp add: handler_rounds_def handler_round_def sample_arrivals_def handler_new_def poll_pending_def quiet_def
      request_account_def sample_poll_def swap_remove_def complete_account_def listeners_at_def Let_def)

theorem handler_serves_all_witness:
  "replies_to_all (sample_poll 5) \<and>
   (\<exists>t. handler_round (\<lambda>_. 0) 0 ([], False, sample_poll 5) (handler_rounds (\<lambda>_. 0) 0 sample_arrivals (handler_new 3)) =
          (Some PollPending, t) \<and> h_pending t = [] \<and> answered t = {#7, 8#})"
proof -
  have all: "replies_to_all (sample_poll 5)" by (simp add: replies_to_all_def sample_poll_def)
  have listeners: "pick request_listener (mset (concat (map fst sample_arrivals))) = {#7, 8#}"
    by (simp add: sample_arrivals_def)
  show ?thesis
    using all handler_serves_all [OF all, of "\<lambda>_. 0" 0 sample_arrivals 3] unfolding listeners by blast
qed

theorem handler_answers_right_witness:
  "(\<forall>(reqs, closed, pp) \<in> set sample_arrivals. truthful (sample_data 5) pp \<and> (\<forall>n. SetPinnedBlock n \<notin> set reqs)) \<and>
   right_answer (\<lambda>_. 0) 0 (sample_data 5) 3 {Basic 1 1 7, Basic 1 1 8} 8
     (AccountMsg (Inr (account_info_of (\<lambda>_. 0) 0 (5, 0, []))))"
proof -
  have ok: "\<forall>(reqs, closed, pp) \<in> set sample_arrivals. truthful (sample_data 5) pp \<and> (\<forall>n. SetPinnedBlock n \<notin> set reqs)"
    using sample_truthful [of 5] by (auto simp: sample_arrivals_def truthful_def quiet_def)
  have reqs: "set (concat (map fst sample_arrivals)) = {Basic 1 1 7, Basic 1 1 8}"
    by (auto simp: sample_arrivals_def)
  show ?thesis
    using ok handler_answers_right [OF ok, of 8 _ "\<lambda>_. 0" 0 3] unfolding sample_sent reqs by simp
qed

definition sample_start :: "(nat, nat, nat) arrivals list" where
  "sample_start = [([Basic 1 1 7], False, snd (snd quiet)), quiet]"

definition sample_racing :: "(nat, nat, nat) handler" where
  "sample_racing = handler_rounds (\<lambda>_. 0) 0 sample_start (handler_new 3)"

theorem reset_race_witness:
  "\<exists>t. t = handler_rounds (\<lambda>_. 0) 0 [([reset_request 4, Basic 1 1 8], False, sample_poll 5), ([], False, sample_poll 6)] (wipe sample_racing) \<and>
     h_block_number t = 4 \<and> (8, AccountMsg (Inr (account_info_of (\<lambda>_. 0) 0 (5, 0, [])))) \<in> set (h_sent t)"
proof -
  have st: "settled (pick request_listener (mset (concat (map fst sample_start))) + {#}) sample_racing"
    unfolding sample_racing_def by (rule handler_rounds_settled [OF handler_new_settled])
  have p: "h_pending sample_racing = [AccountFut 1 1 3]" "h_queued sample_racing = []"
    by (simp_all add: sample_racing_def sample_start_def handler_rounds_def handler_round_def handler_new_def poll_pending_def quiet_def
        request_account_def swap_remove_def Let_def)
  show ?thesis
    using reset_race [OF st p(2), of 1 1 3 "sample_poll 5" "(5, 0, [])" "\<lambda>_. 0" 0 4 8 "sample_poll 6"]
    by (simp add: p Let_def sample_poll_def)
qed

end
