(* ===== verification/Multi_Fork.thy ===== *)
theory Multi_Fork
  imports Fork_Handler
begin

text \<open>
  The task that manages the forks of a backend: \<^verbatim>\<open>crates/evm/core/src/fork/multi.rs\<close>, the recorded data accesses
  of \<^verbatim>\<open>backend/data_access.rs\<close> and the end of \<^verbatim>\<open>backend/mod.rs\<close>, which loads them again.

  \<^item> \<open>multi\<close> is \<^verbatim>\<open>MultiForkHandler\<close>. What Rust shares through an \<^verbatim>\<open>Arc\<close> is a reference here: \<open>mf_senders\<close> holds the
    \<^verbatim>\<open>num_senders\<close> counters, a \<open>shared_backend\<close> refers to its set of data accesses, and the sets are the
    function \<open>access_store\<close>. The future that creates a fork returns the environment, the block number
    and the chain, or an error.
  \<^item> \<open>multi_create_fork\<close>, \<open>insert_new_fork\<close>, \<open>multi_on_request\<close> and \<open>multi_poll\<close> are the methods; the loops over the tasks
    and over the fork handlers are \<open>poll_each\<close>.
  \<^item> \<open>execute_access\<close> and \<open>load_accesses\<close> replay recorded accesses.

  The lemmas show that every fork id handed out is fresh and leads to its fork, that every sender is
  answered once, which block a replayed access reads, and that accesses are recorded in the set of
  the backend that created the fork first.
\<close>

section \<open>Fork ids\<close>

fun decimal :: "nat \<Rightarrow> string" where
  "decimal n = (if n < 10 then [char_of (48 + n)] else decimal (n div 10) @ [char_of (48 + n mod 10)])"

declare decimal.simps [simp del]

definition fork_id_new :: "string \<Rightarrow> u64 \<Rightarrow> string" where
  "fork_id_new url num = url @ CHR ''@'' # decimal (unat num)"

text \<open>All ids the handler makes: a url and a block number, then numbers separated by dashes.\<close>

fun dashed :: "nat \<Rightarrow> nat list \<Rightarrow> string" where
  "dashed n [] = decimal n"
| "dashed n (m # ms) = decimal n @ CHR ''-'' # dashed m ms"

definition render :: "string \<Rightarrow> u64 \<Rightarrow> nat list \<Rightarrow> string" where
  "render url num ns = url @ CHR ''@'' # dashed (unat num) ns"

lemma render_Nil: "render url num [] = fork_id_new url num"
  by (simp add: render_def fork_id_new_def)

lemma render_snoc: "render url num ns @ CHR ''-'' # decimal m = render url num (ns @ [m])"
proof -
  have "dashed n ns @ CHR ''-'' # decimal m = dashed n (ns @ [m])" for n
    by (induction ns arbitrary: n) auto
  then show ?thesis by (simp add: render_def)
qed

lemma decimal_digits: "c \<in> set (decimal n) \<Longrightarrow> \<exists>k < 10. c = char_of (48 + k :: nat)"
proof (induction n rule: decimal.induct)
  case (1 n)
  show ?case
  proof (cases "n < 10")
    case True
    then show ?thesis using 1 by (auto simp: decimal.simps)
  next
    case False
    then have "c \<in> set (decimal (n div 10)) \<or> c = char_of (48 + n mod 10)"
      using 1(2) by (subst (asm) decimal.simps) auto
    then show ?thesis using 1(1) False by (auto intro: exI [of _ "n mod 10"])
  qed
qed

lemma decimal_free: "CHR ''@'' \<notin> set (decimal n)" "CHR ''-'' \<notin> set (decimal n)"
proof -
  have "of_char (char_of (48 + k)) = 48 + k" if "k < 10" for k :: nat
    using that by simp
  moreover have "of_char CHR ''@'' = (64 :: nat)" "of_char CHR ''-'' = (45 :: nat)" by code_simp+
  ultimately show "CHR ''@'' \<notin> set (decimal n)" "CHR ''-'' \<notin> set (decimal n)"
    using decimal_digits [of "CHR ''@''" n] decimal_digits [of "CHR ''-''" n] by fastforce+
qed

lemma decimal_value: "foldl (\<lambda>v c. 10 * v + (of_char c - 48)) 0 (decimal n) = n"
proof (induction n rule: decimal.induct)
  case (1 n)
  have digit: "of_char (char_of (48 + k)) - 48 = k" if "k < 10" for k :: nat
    using that by simp
  show ?case
  proof (cases "n < 10")
    case True
    then show ?thesis using digit [of n] by (simp add: decimal.simps)
  next
    case False
    then have "foldl (\<lambda>v c. 10 * v + (of_char c - 48)) 0 (decimal n) = 10 * (n div 10) + n mod 10"
      using 1 digit [of "n mod 10"] by (subst decimal.simps) simp
    then show ?thesis by simp
  qed
qed

lemma decimal_inject: "decimal m = decimal n \<longleftrightarrow> m = n"
  using decimal_value by metis

lemma takeWhile_until: "x \<notin> set v \<Longrightarrow> takeWhile (\<lambda>y. y \<noteq> x) (v @ x # z) = v"
  by (induction v) auto

lemma split_last:
  assumes "x \<notin> set w" "x \<notin> set w'" "u @ x # w = u' @ x # w'"
  shows "u = u' \<and> w = w'"
proof -
  have "rev w @ x # rev u = rev w' @ x # rev u'" using arg_cong [OF assms(3), of rev] by simp
  then have "rev w = rev w'"
    using takeWhile_until [of x "rev w" "rev u"] takeWhile_until [of x "rev w'" "rev u'"] assms(1,2) by simp
  then show ?thesis using assms(3) by simp
qed

lemma dashed_free: "CHR ''@'' \<notin> set (dashed n ns)"
  by (induction ns arbitrary: n) (auto simp: decimal_free)

lemma split_first:
  assumes "x \<notin> set v" "x \<notin> set v'" "v @ z = v' @ z'" "z = [] \<or> hd z = x" "z' = [] \<or> hd z' = x"
  shows "v = v' \<and> z = z'"
proof -
  have tw: "takeWhile (\<lambda>y. y \<noteq> x) (v @ z) = v" if "x \<notin> set v" "z = [] \<or> hd z = x" for v z
    using that by (cases z) (auto simp: takeWhile_until takeWhile_eq_all_conv)
  have "v = v'" using tw [OF assms(1,4)] tw [OF assms(2,5)] assms(3) by simp
  then show ?thesis using assms(3) by simp
qed

lemma dashed_inject: "dashed n ns = dashed m ms \<Longrightarrow> n = m \<and> ns = ms"
proof (induction ns arbitrary: n m ms)
  case Nil
  show ?case
  proof (cases ms)
    case Nil
    then show ?thesis using \<open>dashed n [] = dashed m ms\<close> by (simp add: decimal_inject)
  next
    case (Cons l ls)
    then have "decimal m @ CHR ''-'' # dashed l ls = decimal n" using \<open>dashed n [] = dashed m ms\<close> by simp
    then have "CHR ''-'' \<in> set (decimal n)" by (metis in_set_conv_decomp)
    then show ?thesis using decimal_free(2) by blast
  qed
next
  case (Cons k ks)
  show ?case
  proof (cases ms)
    case Nil
    then have "decimal n @ CHR ''-'' # dashed k ks = decimal m" using Cons.prems by simp
    then have "CHR ''-'' \<in> set (decimal m)" by (metis in_set_conv_decomp)
    then show ?thesis using decimal_free(2) by blast
  next
    case ms: (Cons l ls)
    have "decimal n = decimal m \<and> CHR ''-'' # dashed k ks = CHR ''-'' # dashed l ls"
      using Cons.prems ms decimal_free(2) by (intro split_first [of "CHR ''-''"]) auto
    then show ?thesis using Cons.IH [of k l ls] ms by (simp add: decimal_inject)
  qed
qed

lemma render_inject: "render u n ns = render v m ms \<longleftrightarrow> u = v \<and> n = m \<and> ns = ms"
proof
  assume "render u n ns = render v m ms"
  then have "u = v \<and> dashed (unat n) ns = dashed (unat m) ms"
    unfolding render_def by (intro split_last [of "CHR ''@''"]) (simp_all add: dashed_free)
  then show "u = v \<and> n = m \<and> ns = ms" using dashed_inject by (fastforce simp: word_eq_unat)
qed simp

section \<open>Data accesses\<close>

datatype state_lookup = RollN "64 word" | RollAt u64

datatype revm_db_access =
    AccStorage address u256
  | AccBasic address
  | AccCodeByHash b256
  | AccBlockHash u256

datatype access_type = RevmDbAccess revm_db_access | AccCreateFork string

record access =
  ac_type :: access_type
  ac_chain :: u64
  ac_lookup :: state_lookup

type_synonym access_store = "nat \<Rightarrow> access fset"

definition to_access :: "revm_db_access \<Rightarrow> u64 \<Rightarrow> state_lookup \<Rightarrow> access" where
  "to_access a chain lookup = \<lparr>ac_type = RevmDbAccess a, ac_chain = chain, ac_lookup = lookup\<rparr>"

text \<open>\<open>sb_handler\<close> is the channel to the handler, \<open>sb_accesses\<close> the shared set.\<close>

record shared_backend =
  sb_handler :: nat
  sb_chain :: u64
  sb_lookup :: state_lookup
  sb_accesses :: nat

definition record_revm_data_access :: "shared_backend \<Rightarrow> revm_db_access \<Rightarrow> access_store \<Rightarrow> access_store" where
  "record_revm_data_access sb a st =
     st(sb_accesses sb := finsert (to_access a (sb_chain sb) (sb_lookup sb)) (st (sb_accesses sb)))"

text \<open>The reads of \<^verbatim>\<open>DatabaseRef for SharedBackend\<close>: what is recorded, and the request that goes to the handler
  for the listener \<open>l\<close>, or the answer given at once.\<close>

definition basic_ref :: "shared_backend \<Rightarrow> address \<Rightarrow> nat \<Rightarrow> access_store \<Rightarrow> 'i backend_request \<times> access_store" where
  "basic_ref sb addr l st = (Basic addr (sb_chain sb) l, record_revm_data_access sb (AccBasic addr) st)"

definition storage_ref :: "shared_backend \<Rightarrow> address \<Rightarrow> u256 \<Rightarrow> nat \<Rightarrow> access_store \<Rightarrow> 'i backend_request \<times> access_store" where
  "storage_ref sb addr idx l st = (StorageAt addr idx l, record_revm_data_access sb (AccStorage addr idx) st)"

definition block_hash_ref ::
  "b256 \<Rightarrow> shared_backend \<Rightarrow> u256 \<Rightarrow> nat \<Rightarrow> access_store \<Rightarrow> ('i backend_request + b256) \<times> access_store" where
  "block_hash_ref KECCAK_EMPTY sb number l st =
     (if 2 ^ 64 \<le> unat number then (Inr KECCAK_EMPTY, st)
      else (Inl (BlockHashOf (ucast number) l), record_revm_data_access sb (AccBlockHash number) st))"

definition code_by_hash_ref :: "b256 \<Rightarrow> 'i database_error" where
  "code_by_hash_ref hash = MissingCode hash"

text \<open>\<^verbatim>\<open>RevmDbAccess::execute\<close>: the request a recorded access leads to; reading code by hash fails.\<close>

fun execute_revm_access ::
  "b256 \<Rightarrow> shared_backend \<Rightarrow> revm_db_access \<Rightarrow> nat \<Rightarrow> access_store \<Rightarrow>
   ('i database_error, 'i backend_request option) result \<times> access_store" where
  "execute_revm_access ke sb (AccBasic addr) l st = (case basic_ref sb addr l st of (r, st') \<Rightarrow> (Inr (Some r), st'))"
| "execute_revm_access ke sb (AccStorage addr key) l st = (case storage_ref sb addr key l st of (r, st') \<Rightarrow> (Inr (Some r), st'))"
| "execute_revm_access ke sb (AccCodeByHash hash) l st = (Inl (code_by_hash_ref hash), st)"
| "execute_revm_access ke sb (AccBlockHash n) l st =
     (case block_hash_ref ke sb n l st of
        (Inl r, st') \<Rightarrow> (Inr (Some r), st')
      | (Inr _, st') \<Rightarrow> (Inr None, st'))"

definition get_accesses :: "access iter_order \<Rightarrow> nat \<Rightarrow> access_store \<Rightarrow> access list \<times> access_store" where
  "get_accesses it r st = (it (st r), st(r := {||}))"

section \<open>The handler of all forks\<close>

record 'e create_fork =
  cf_enable_caching :: bool
  cf_url :: string
  cf_env :: 'e
  cf_fork_block_number :: "u64 option"

definition lookup_of :: "'e create_fork \<Rightarrow> state_lookup" where
  "lookup_of fork = (case cf_fork_block_number fork of Some n \<Rightarrow> RollAt n | None \<Rightarrow> RollN 0)"

record 'e created_fork =
  cr_opts :: "'e create_fork"
  cr_backend :: shared_backend
  cr_num_senders :: nat

datatype 'e fork_request =
    CreateForkReq "'e create_fork" nat nat
  | GetForkReq string nat
  | RollForkReq string u64 nat nat
  | GetEnvReq string nat
  | ShutDownReq nat
  | GetForkUrlReq string nat

datatype 'e fork_reply =
    Created "(string, string \<times> shared_backend \<times> 'e) result"
  | GotFork "shared_backend option"
  | GotEnv "'e option"
  | GotUrl "string option"
  | IsDown

record 'e fork_task =
  ft_opts :: "'e create_fork"
  ft_accesses :: nat
  ft_url :: string
  ft_block :: "u64 option"
  ft_sender :: nat
  ft_additional :: "nat list"

record ('e, 'i, 'b, 'x) multi =
  mf_handlers :: "(string \<times> nat \<times> ('i, 'b, 'x) handler) list"
  mf_pending :: "'e fork_task list"
  mf_forks :: "(string, 'e created_fork) fmap"
  mf_senders :: "nat list"
  mf_channels :: nat
  mf_sent :: "(nat \<times> 'e fork_reply) list"

definition multi_new :: "('e, 'i, 'b, 'x) multi" where
  "multi_new = \<lparr>mf_handlers = [], mf_pending = [], mf_forks = fmempty, mf_senders = [], mf_channels = 0, mf_sent = []\<rparr>"

definition tell :: "nat list \<Rightarrow> 'e fork_reply \<Rightarrow> ('e, 'i, 'b, 'x) multi \<Rightarrow> ('e, 'i, 'b, 'x) multi" where
  "tell ls m s = s\<lparr>mf_sent := mf_sent s @ map (\<lambda>l. (l, m)) ls\<rparr>"

definition find_in_progress_task :: "string \<Rightarrow> u64 option \<Rightarrow> 'e fork_task list \<Rightarrow> nat option" where
  "find_in_progress_task url block_number tasks = position (\<lambda>t. ft_url t = url \<and> ft_block t = block_number) tasks"

definition multi_create_fork ::
  "'e create_fork \<Rightarrow> nat \<Rightarrow> nat \<Rightarrow> ('e, 'i, 'b, 'x) multi \<Rightarrow> ('e, 'i, 'b, 'x) multi" where
  "multi_create_fork fork sender accesses s =
     (let block_number = cf_fork_block_number fork
      in case find_in_progress_task (cf_url fork) block_number (mf_pending s) of
           Some i \<Rightarrow> s\<lparr>mf_pending := (mf_pending s)[i := (mf_pending s ! i)\<lparr>ft_additional := ft_additional (mf_pending s ! i) @ [sender]\<rparr>]\<rparr>
         | None \<Rightarrow> s\<lparr>mf_pending := mf_pending s @
             [\<lparr>ft_opts = fork, ft_accesses = accesses, ft_url = cf_url fork, ft_block = block_number,
               ft_sender = sender, ft_additional = []\<rparr>]\<rparr>)"

text \<open>\<^verbatim>\<open>fetch_add\<close> on the shared counter; the counter does not reach \<^verbatim>\<open>usize::MAX\<close>.\<close>

definition inc_senders :: "'e created_fork \<Rightarrow> string \<Rightarrow> ('e, 'i, 'b, 'x) multi \<Rightarrow> string \<times> ('e, 'i, 'b, 'x) multi" where
  "inc_senders fork fork_id s =
     (let n = mf_senders s ! cr_num_senders fork
      in (fork_id @ CHR ''-'' # decimal n, s\<lparr>mf_senders := (mf_senders s)[cr_num_senders fork := n + 1]\<rparr>))"

definition register_fork :: "'e created_fork \<Rightarrow> nat \<Rightarrow> string \<Rightarrow> ('e, 'i, 'b, 'x) multi \<Rightarrow> ('e, 'i, 'b, 'x) multi" where
  "register_fork fork sender fork_id s =
     tell [sender] (Created (Inr (fork_id, cr_backend fork, cf_env (cr_opts fork))))
       (s\<lparr>mf_forks := fmupd fork_id fork (mf_forks s)\<rparr>)"

definition insert_new_fork ::
  "string \<Rightarrow> 'e created_fork \<Rightarrow> nat \<Rightarrow> nat list \<Rightarrow> ('e, 'i, 'b, 'x) multi \<Rightarrow> ('e, 'i, 'b, 'x) multi" where
  "insert_new_fork fork_id fork sender additional s =
     fold (\<lambda>l s. case inc_senders fork fork_id s of (next_id, s') \<Rightarrow> register_fork fork l next_id s') additional
       (register_fork fork sender fork_id s)"

fun multi_on_request :: "'e fork_request \<Rightarrow> ('e, 'i, 'b, 'x) multi \<Rightarrow> ('e, 'i, 'b, 'x) multi" where
  "multi_on_request (CreateForkReq fork sender accesses) s = multi_create_fork fork sender accesses s"
| "multi_on_request (GetForkReq fork_id sender) s =
     tell [sender] (GotFork (map_option cr_backend (fmlookup (mf_forks s) fork_id))) s"
| "multi_on_request (RollForkReq fork_id block sender accesses) s =
     (case fmlookup (mf_forks s) fork_id of
        Some fork \<Rightarrow> multi_create_fork ((cr_opts fork)\<lparr>cf_fork_block_number := Some block\<rparr>) sender accesses s
      | None \<Rightarrow> tell [sender] (Created (Inl (''No matching fork exits for '' @ fork_id))) s)"
| "multi_on_request (GetEnvReq fork_id sender) s =
     tell [sender] (GotEnv (map_option (\<lambda>fork. cf_env (cr_opts fork)) (fmlookup (mf_forks s) fork_id))) s"
| "multi_on_request (ShutDownReq sender) s = tell [sender] IsDown (s\<lparr>mf_forks := fmempty, mf_handlers := []\<rparr>)"
| "multi_on_request (GetForkUrlReq fork_id sender) s =
     tell [sender] (GotUrl (map_option (\<lambda>fork. cf_url (cr_opts fork)) (fmlookup (mf_forks s) fork_id))) s"

text \<open>The end of the future \<^verbatim>\<open>create_fork\<close>: the new fork with its backend, counter and handler. The counter is
  allocated at the end of \<open>mf_senders\<close>, the channel is a fresh number.\<close>

definition created_fork_of ::
  "'e create_fork \<Rightarrow> nat \<Rightarrow> 'e \<times> u64 \<times> u64 \<Rightarrow> ('e, 'i, 'b, 'x) multi \<Rightarrow>
   (string \<times> 'e created_fork \<times> ('i, 'b, 'x) handler) \<times> ('e, 'i, 'b, 'x) multi" where
  "created_fork_of opts accesses res s =
     (case res of (env, number, chain) \<Rightarrow>
        let fork = opts\<lparr>cf_env := env\<rparr>;
            backend = \<lparr>sb_handler = mf_channels s, sb_chain = chain, sb_lookup = lookup_of fork, sb_accesses = accesses\<rparr>
        in ((fork_id_new (cf_url fork) number,
             \<lparr>cr_opts = fork, cr_backend = backend, cr_num_senders = length (mf_senders s)\<rparr>, handler_new number),
            s\<lparr>mf_senders := mf_senders s @ [1], mf_channels := mf_channels s + 1\<rparr>))"

text \<open>One pass of the loop over the tasks; \<open>fp\<close> polls the future of a fork.\<close>

definition finish_task ::
  "'e fork_task \<Rightarrow> (string, 'e \<times> u64 \<times> u64) result \<Rightarrow> ('e, 'i, 'b, 'x) multi \<Rightarrow> ('e, 'i, 'b, 'x) multi" where
  "finish_task t resp s =
     (case resp of
        Inl err \<Rightarrow> tell (ft_sender t # ft_additional t) (Created (Inl err)) s
      | Inr res \<Rightarrow>
          (case created_fork_of (ft_opts t) (ft_accesses t) res s of
             ((fork_id, new, handler), s1) \<Rightarrow>
               (case fmlookup (mf_forks s1) fork_id of
                  Some fork \<Rightarrow>
                    (case inc_senders fork fork_id s1 of
                       (id', s2) \<Rightarrow> insert_new_fork id' fork (ft_sender t) (ft_additional t) s2)
                | None \<Rightarrow>
                    insert_new_fork fork_id new (ft_sender t) (ft_additional t)
                      (s1\<lparr>mf_handlers := mf_handlers s1 @ [(fork_id, sb_handler (cr_backend new), handler)]\<rparr>))))"

definition poll_task ::
  "('e create_fork \<Rightarrow> (string, 'e \<times> u64 \<times> u64) result option) \<Rightarrow> 'e fork_task \<Rightarrow> ('e, 'i, 'b, 'x) multi \<Rightarrow>
   'e fork_task option \<times> ('e, 'i, 'b, 'x) multi" where
  "poll_task fp t s = (case fp (ft_opts t) of None \<Rightarrow> (Some t, s) | Some resp \<Rightarrow> (None, finish_task t resp s))"

text \<open>One pass of the loop over the fork handlers; \<open>arrs\<close> is what arrives on a channel during the poll.\<close>

definition poll_handler ::
  "(u8 list \<Rightarrow> b256) \<Rightarrow> b256 \<Rightarrow> (nat \<Rightarrow> ('i, 'b, 'x) arrivals list) \<Rightarrow> string \<times> nat \<times> ('i, 'b, 'x) handler \<Rightarrow>
   unit \<Rightarrow> (string \<times> nat \<times> ('i, 'b, 'x) handler) option \<times> unit" where
  "poll_handler kec ke arrs h u =
     (case h of (fork_id, ch, handler) \<Rightarrow>
        (case handler_poll kec ke (arrs ch) handler of
           (PollReady, _) \<Rightarrow> (None, ())
         | (PollPending, handler') \<Rightarrow> (Some (fork_id, ch, handler'), ())))"

definition multi_poll ::
  "(u8 list \<Rightarrow> b256) \<Rightarrow> b256 \<Rightarrow> 'e fork_request list \<times> bool \<times> ('e create_fork \<Rightarrow> (string, 'e \<times> u64 \<times> u64) result option) \<times>
     (nat \<Rightarrow> ('i, 'b, 'x) arrivals list) \<Rightarrow>
   ('e, 'i, 'b, 'x) multi \<Rightarrow> poll_outcome \<times> ('e, 'i, 'b, 'x) multi" where
  "multi_poll kec ke inp s =
     (case inp of (reqs, closed, fp, arrs) \<Rightarrow>
        let s1 = fold multi_on_request reqs s;
            (tasks, s2) = poll_each (poll_task fp) (length (mf_pending s1)) (mf_pending s1) s1;
            s3 = s2\<lparr>mf_pending := tasks\<rparr>;
            (handlers, _) = poll_each (poll_handler kec ke arrs) (length (mf_handlers s3)) (mf_handlers s3) ();
            s4 = s3\<lparr>mf_handlers := handlers\<rparr>
        in (if mf_handlers s4 = [] \<and> closed then PollReady else PollPending, s4))"

section \<open>Loading recorded accesses\<close>

text \<open>The block a recorded access is looked up at; the sum is one of 64-bit signed integers.\<close>

definition lookup_block :: "u64 \<Rightarrow> state_lookup \<Rightarrow> u64" where
  "lookup_block current_block lookup =
     (case lookup of
        RollN n \<Rightarrow> if sint (current_block + n) < 0 then 0 else current_block + n
      | RollAt n \<Rightarrow> n)"

definition get_create_fork :: "'e \<Rightarrow> string \<Rightarrow> u64 \<Rightarrow> 'e create_fork" where
  "get_create_fork default_env url block_num =
     \<lparr>cf_enable_caching = False, cf_url = url, cf_env = default_env, cf_fork_block_number = Some block_num\<rparr>"

text \<open>\<^verbatim>\<open>MultiFork::create_fork\<close> waits for the answer; \<open>fetch\<close> is what the future of a fork returns.\<close>

definition create_fork_now ::
  "('e create_fork \<Rightarrow> (string, 'e \<times> u64 \<times> u64) result) \<Rightarrow> 'e create_fork \<Rightarrow> nat \<Rightarrow> nat \<Rightarrow> ('e, 'i, 'b, 'x) multi \<Rightarrow>
   (string, shared_backend) result \<times> ('e, 'i, 'b, 'x) multi" where
  "create_fork_now fetch opts accesses l s =
     (let s' = finish_task \<lparr>ft_opts = opts, ft_accesses = accesses, ft_url = cf_url opts, ft_block = cf_fork_block_number opts,
                           ft_sender = l, ft_additional = []\<rparr> (fetch opts) s
      in (case snd (last (mf_sent s')) of
            Created (Inr (_, backend, _)) \<Rightarrow> Inr backend
          | Created (Inl err) \<Rightarrow> Inl err
          | _ \<Rightarrow> Inl [], s'))"

text \<open>\<^verbatim>\<open>execute_access\<close> of a backend whose set of accesses is \<open>accesses\<close>; the result carries the request sent to the
  fork, if any.\<close>

definition execute_access ::
  "('e create_fork \<Rightarrow> (string, 'e \<times> u64 \<times> u64) result) \<Rightarrow> 'e \<Rightarrow> b256 \<Rightarrow> u64 \<Rightarrow> string \<Rightarrow> nat \<Rightarrow> nat \<Rightarrow> access \<Rightarrow>
   ('e, 'i, 'b, 'x) multi \<Rightarrow> access_store \<Rightarrow>
   (string + 'i database_error, (shared_backend \<times> 'i backend_request) option) result \<times> ('e, 'i, 'b, 'x) multi \<times> access_store" where
  "execute_access fetch env0 ke current_block url accesses l acc s st =
     (let block_num = lookup_block current_block (ac_lookup acc); fork_id = fork_id_new url block_num
      in case ac_type acc of
           RevmDbAccess a \<Rightarrow>
             (case (case fmlookup (mf_forks s) fork_id of
                      Some fork \<Rightarrow> (Inr (cr_backend fork), s)
                    | None \<Rightarrow> create_fork_now fetch (get_create_fork env0 url block_num) accesses l s) of
                (Inl err, s') \<Rightarrow> (Inl (Inl err), s', st)
              | (Inr fork, s') \<Rightarrow>
                  (case execute_revm_access ke fork a l st of
                     (Inl err, st') \<Rightarrow> (Inl (Inr err), s', st')
                   | (Inr r, st') \<Rightarrow> (Inr (map_option (\<lambda>r. (fork, r)) r), s', st')))
         | AccCreateFork url' \<Rightarrow>
             (case fmlookup (mf_forks s) fork_id of
                Some _ \<Rightarrow> (Inr None, s, st)
              | None \<Rightarrow>
                  (case create_fork_now fetch (get_create_fork env0 url' block_num) accesses l s of
                     (Inl err, s') \<Rightarrow> (Inl (Inl err), s', st)
                   | (Inr _, s') \<Rightarrow> (Inr None, s', st))))"

text \<open>The accesses of the chain, one after the other; \<^verbatim>\<open>rayon\<close> runs them in any order and stops at an error.\<close>

fun load_loop ::
  "('e create_fork \<Rightarrow> (string, 'e \<times> u64 \<times> u64) result) \<Rightarrow> 'e \<Rightarrow> b256 \<Rightarrow> u64 \<Rightarrow> string \<Rightarrow> nat \<Rightarrow> nat \<Rightarrow> access list \<Rightarrow>
   ('e, 'i, 'b, 'x) multi \<Rightarrow> access_store \<Rightarrow>
   (string + 'i database_error, unit) result \<times> ('e, 'i, 'b, 'x) multi \<times> access_store" where
  "load_loop fetch env0 ke cur url accesses l [] s st = (Inr (), s, st)"
| "load_loop fetch env0 ke cur url accesses l (acc # accs) s st =
     (case execute_access fetch env0 ke cur url accesses l acc s st of
        (Inl err, s', st') \<Rightarrow> (Inl err, s', st')
      | (Inr _, s', st') \<Rightarrow> load_loop fetch env0 ke cur url accesses l accs s' st')"

definition load_accesses ::
  "('e create_fork \<Rightarrow> (string, 'e \<times> u64 \<times> u64) result) \<Rightarrow> 'e \<Rightarrow> b256 \<Rightarrow> u64 \<Rightarrow> u64 \<Rightarrow> string \<Rightarrow> nat \<Rightarrow> nat \<Rightarrow> access list \<Rightarrow>
   ('e, 'i, 'b, 'x) multi \<Rightarrow> access_store \<Rightarrow>
   (string + 'i database_error, unit) result \<times> ('e, 'i, 'b, 'x) multi \<times> access_store" where
  "load_accesses fetch env0 ke chain current_block url accesses l accs s st =
     load_loop fetch env0 ke current_block url accesses l (filter (\<lambda>acc. ac_chain acc = chain) accs) s st"

section \<open>Fork ids are unique\<close>

definition wf_id :: "('e, 'i, 'b, 'x) multi \<Rightarrow> 'e created_fork \<Rightarrow> string \<Rightarrow> bool" where
  "wf_id s f fork_id \<longleftrightarrow>
     (\<exists>num ns. fork_id = render (cf_url (cr_opts f)) num ns \<and>
        fmlookup (mf_forks s) (fork_id_new (cf_url (cr_opts f)) num) = Some f \<and>
        cr_num_senders f < length (mf_senders s) \<and> (\<forall>n\<in>set ns. n < mf_senders s ! cr_num_senders f))"

definition created_ids :: "('e, 'i, 'b, 'x) multi \<Rightarrow> string list" where
  "created_ids s = concat (map (\<lambda>(l, m). case m of Created (Inr (fork_id, _, _)) \<Rightarrow> [fork_id] | _ \<Rightarrow> []) (mf_sent s))"

definition leads_to_fork :: "('e, 'i, 'b, 'x) multi \<Rightarrow> nat \<times> 'e fork_reply \<Rightarrow> bool" where
  "leads_to_fork s lm \<longleftrightarrow>
     (\<forall>fork_id b env. snd lm = Created (Inr (fork_id, b, env)) \<longrightarrow>
        (\<exists>f. fmlookup (mf_forks s) fork_id = Some f \<and> cr_backend f = b \<and> cf_env (cr_opts f) = env))"

definition multi_inv :: "('e, 'i, 'b, 'x) multi \<Rightarrow> bool" where
  "multi_inv s \<longleftrightarrow>
     (\<forall>fork_id f. fmlookup (mf_forks s) fork_id = Some f \<longrightarrow> wf_id s f fork_id) \<and>
     (\<forall>lm\<in>set (mf_sent s). leads_to_fork s lm) \<and> distinct (created_ids s)"

lemma wf_id_mono:
  assumes "wf_id s f fork_id" "length (mf_senders s) \<le> length (mf_senders s')"
    and "\<And>i. i < length (mf_senders s) \<Longrightarrow> mf_senders s ! i \<le> mf_senders s' ! i"
    and "\<And>num. fmlookup (mf_forks s) (fork_id_new (cf_url (cr_opts f)) num) = Some f \<Longrightarrow>
               fmlookup (mf_forks s') (fork_id_new (cf_url (cr_opts f)) num) = Some f"
  shows "wf_id s' f fork_id"
proof -
  obtain num ns where id: "fork_id = render (cf_url (cr_opts f)) num ns"
    "fmlookup (mf_forks s) (fork_id_new (cf_url (cr_opts f)) num) = Some f"
    "cr_num_senders f < length (mf_senders s)" "\<forall>n\<in>set ns. n < mf_senders s ! cr_num_senders f"
    using assms(1) by (auto simp: wf_id_def)
  then show ?thesis
    using assms(2) assms(3) [OF id(3)] assms(4) [OF id(2)] unfolding wf_id_def
    by (intro exI [of _ num] exI [of _ ns]) auto
qed

lemma multi_invD: "multi_inv s \<Longrightarrow> fmlookup (mf_forks s) fork_id = Some f \<Longrightarrow> wf_id s f fork_id"
  by (simp add: multi_inv_def)

lemma created_ids_in_forks:
  assumes "multi_inv s" "fork_id \<in> set (created_ids s)"
  shows "fmlookup (mf_forks s) fork_id \<noteq> None"
  using assms
  by (fastforce simp: multi_inv_def created_ids_def leads_to_fork_def split: fork_reply.splits sum.splits)

text \<open>A fresh number gives a fresh id.\<close>

lemma inc_senders_fresh:
  assumes "multi_inv s" "wf_id s f fork_id" "inc_senders f fork_id s = (id', s')"
  shows "multi_inv s' \<and> wf_id s' f fork_id \<and> wf_id s' f id' \<and> fmlookup (mf_forks s') id' = None"
proof -
  obtain num ns where id: "fork_id = render (cf_url (cr_opts f)) num ns"
    "fmlookup (mf_forks s) (fork_id_new (cf_url (cr_opts f)) num) = Some f"
    "cr_num_senders f < length (mf_senders s)" "\<forall>n\<in>set ns. n < mf_senders s ! cr_num_senders f"
    using assms(2) by (auto simp: wf_id_def)
  let ?k = "mf_senders s ! cr_num_senders f"
  have id': "id' = render (cf_url (cr_opts f)) num (ns @ [?k])"
    "s' = s\<lparr>mf_senders := (mf_senders s)[cr_num_senders f := ?k + 1]\<rparr>"
    using assms(3) id(1) by (simp_all add: inc_senders_def Let_def render_snoc)
  have mono: "wf_id s' g gid" if "wf_id s g gid" for g gid
    by (rule wf_id_mono [OF that]) (simp_all add: id'(2) nth_list_update id(3))
  have "fmlookup (mf_forks s) id' = None"
  proof (rule ccontr)
    assume "fmlookup (mf_forks s) id' \<noteq> None"
    then obtain g where g: "fmlookup (mf_forks s) id' = Some g" by auto
    then obtain num' ns' where "id' = render (cf_url (cr_opts g)) num' ns'"
      "fmlookup (mf_forks s) (fork_id_new (cf_url (cr_opts g)) num') = Some g"
      "\<forall>n\<in>set ns'. n < mf_senders s ! cr_num_senders g"
      using multi_invD [OF assms(1) g] by (auto simp: wf_id_def)
    then show False using id'(1) id(2) by (auto simp: render_inject)
  qed
  moreover have "wf_id s' f id'"
    unfolding wf_id_def using id id' by (intro exI [of _ num] exI [of _ "ns @ [?k]"]) auto
  moreover have "multi_inv s'"
    using assms(1) mono by (auto simp: multi_inv_def id'(2) leads_to_fork_def created_ids_def)
  ultimately show ?thesis using mono assms(2) id'(2) by auto
qed

lemma register_fork_simps [simp]:
  "mf_forks (register_fork f l fork_id s) = fmupd fork_id f (mf_forks s)"
  "mf_senders (register_fork f l fork_id s) = mf_senders s"
  "mf_sent (register_fork f l fork_id s) = mf_sent s @ [(l, Created (Inr (fork_id, cr_backend f, cf_env (cr_opts f))))]"
  by (simp_all add: register_fork_def tell_def)

lemma register_fork_inv:
  assumes "multi_inv s" "fmlookup (mf_forks s) fork_id = None" "wf_id (register_fork f l fork_id s) f fork_id"
  shows "multi_inv (register_fork f l fork_id s)"
proof -
  let ?s = "register_fork f l fork_id s"
  have wf: "wf_id ?s g gid" if "fmlookup (mf_forks ?s) gid = Some g" for gid g
  proof (cases "gid = fork_id")
    case True
    then show ?thesis using that assms(3) by simp
  next
    case False
    then have "wf_id s g gid" using that multi_invD [OF assms(1)] by simp
    then show ?thesis by (rule wf_id_mono) (use assms(2) in auto)
  qed
  moreover have "leads_to_fork ?s lm" if "lm \<in> set (mf_sent ?s)" for lm
    using that assms(1,2) by (fastforce simp: multi_inv_def leads_to_fork_def)
  moreover have "distinct (created_ids ?s)"
    using assms(1,2) created_ids_in_forks [OF assms(1), of fork_id]
    by (auto simp: multi_inv_def created_ids_def)
  ultimately show ?thesis unfolding multi_inv_def by blast
qed

lemma insert_new_fork_inv:
  assumes "multi_inv (register_fork f l fork_id s)" "wf_id (register_fork f l fork_id s) f fork_id"
  shows "multi_inv (insert_new_fork fork_id f l ls s)"
proof -
  let ?reg = "\<lambda>l s. case inc_senders f fork_id s of (next_id, s') \<Rightarrow> register_fork f l next_id s'"
  have "multi_inv (fold ?reg ls t)" if "multi_inv t" "wf_id t f fork_id" for t
    using that
  proof (induction ls arbitrary: t)
    case (Cons l ls)
    obtain id' t' where inc: "inc_senders f fork_id t = (id', t')" by fastforce
    note fresh = inc_senders_fresh [OF Cons.prems inc]
    have keep: "wf_id (register_fork f l id' t') f gid" if "wf_id t' f gid" for gid
      by (rule wf_id_mono [OF that]) (use fresh in auto)
    show ?case
      using Cons.IH [of "register_fork f l id' t'"] register_fork_inv [of t' id' f l] fresh keep inc by simp
  qed simp
  then show ?thesis using assms by (simp add: insert_new_fork_def)
qed

lemma created_fork_of_inv:
  assumes "multi_inv s" "created_fork_of opts accesses res s = ((fork_id, new, handler), s')"
  shows "multi_inv s' \<and> (fmlookup (mf_forks s') fork_id = None \<longrightarrow> wf_id (register_fork new l fork_id (s'\<lparr>mf_handlers := hs\<rparr>)) new fork_id)"
proof -
  obtain env number chain where res: "res = (env, number, chain)" by (cases res)
  have s': "s' = s\<lparr>mf_senders := mf_senders s @ [1], mf_channels := mf_channels s + 1\<rparr>"
    "fork_id = fork_id_new (cf_url opts) number" "cf_url (cr_opts new) = cf_url opts" "cr_num_senders new = length (mf_senders s)"
    using assms(2) by (auto simp: created_fork_of_def res Let_def)
  have "wf_id s' g gid" if "wf_id s g gid" for g gid
    by (rule wf_id_mono [OF that]) (simp_all add: s'(1) nth_append)
  then have "multi_inv s'" using assms(1) by (auto simp: multi_inv_def s'(1) leads_to_fork_def created_ids_def)
  moreover have "wf_id (register_fork new l fork_id (s'\<lparr>mf_handlers := hs\<rparr>)) new fork_id"
    unfolding wf_id_def using s' by (intro exI [of _ number] exI [of _ "[]"]) (simp add: render_Nil)
  ultimately show ?thesis by blast
qed

lemma multi_inv_handlers [simp]: "multi_inv (s\<lparr>mf_handlers := hs\<rparr>) = multi_inv s"
  by (simp add: multi_inv_def wf_id_def leads_to_fork_def created_ids_def)

lemma multi_inv_pending [simp]: "multi_inv (s\<lparr>mf_pending := ts\<rparr>) = multi_inv s"
  by (simp add: multi_inv_def wf_id_def leads_to_fork_def created_ids_def)

lemma tell_inv:
  assumes "multi_inv s" "\<And>x. m \<noteq> Created (Inr x)"
  shows "multi_inv (tell ls m s)"
proof -
  have "created_ids (tell ls m s) = created_ids s"
    using assms(2) by (induction ls) (auto simp: created_ids_def tell_def split: fork_reply.splits sum.splits)
  then show ?thesis using assms by (auto simp: multi_inv_def wf_id_def leads_to_fork_def tell_def)
qed

lemma finish_task_inv:
  assumes "multi_inv s"
  shows "multi_inv (finish_task t resp s)"
proof (cases resp)
  case (Inl err)
  then show ?thesis using tell_inv [OF assms] by (simp add: finish_task_def)
next
  case (Inr res)
  obtain fork_id new handler s1 where c: "created_fork_of (ft_opts t) (ft_accesses t) res s = ((fork_id, new, handler), s1)"
    by (metis prod.collapse)
  note inv1 = created_fork_of_inv [OF assms c]
  show ?thesis
  proof (cases "fmlookup (mf_forks s1) fork_id")
    case None
    let ?s = "s1\<lparr>mf_handlers := mf_handlers s1 @ [(fork_id, sb_handler (cr_backend new), handler)]\<rparr>"
    have "wf_id (register_fork new (ft_sender t) fork_id ?s) new fork_id" using inv1 None by blast
    moreover from this have "multi_inv (register_fork new (ft_sender t) fork_id ?s)"
      using register_fork_inv [of ?s fork_id new "ft_sender t"] inv1 None by simp
    ultimately show ?thesis using insert_new_fork_inv None Inr c by (simp add: finish_task_def)
  next
    case (Some fork)
    obtain id' s2 where inc: "inc_senders fork fork_id s1 = (id', s2)" by fastforce
    have "wf_id s1 fork fork_id" using multi_invD inv1 Some by blast
    note fresh = inc_senders_fresh [OF conjunct1 [OF inv1] this inc]
    have wf: "wf_id (register_fork fork (ft_sender t) id' s2) fork id'"
      by (rule wf_id_mono [of s2]) (use fresh in auto)
    then have "multi_inv (register_fork fork (ft_sender t) id' s2)"
      using register_fork_inv [of s2 id' fork "ft_sender t"] fresh by simp
    then show ?thesis using insert_new_fork_inv wf Some Inr c inc by (simp add: finish_task_def)
  qed
qed

interpretation task_poll: polled "poll_task fp" "\<lambda>M. multi_inv" for fp
  by unfold_locales (auto simp: poll_task_def finish_task_inv split: option.splits)

lemma multi_create_fork_inv: "multi_inv s \<Longrightarrow> multi_inv (multi_create_fork fork sender accesses s)"
  by (auto simp: multi_create_fork_def Let_def split: option.splits)

lemma multi_on_request_inv:
  assumes "multi_inv s" "\<And>l. r \<noteq> ShutDownReq l"
  shows "multi_inv (multi_on_request r s)"
  using assms by (cases r) (auto simp: tell_inv multi_create_fork_inv split: option.splits)

lemma fold_requests_inv:
  "multi_inv s \<Longrightarrow> \<forall>l. ShutDownReq l \<notin> set reqs \<Longrightarrow> multi_inv (fold multi_on_request reqs s)"
proof (induction reqs arbitrary: s)
  case (Cons r reqs)
  then have "multi_inv (multi_on_request r s)" by (intro multi_on_request_inv) auto
  then show ?case using Cons by simp
qed simp

lemma multi_poll_inv:
  assumes "multi_inv s" "\<And>l. ShutDownReq l \<notin> set (fst inp)"
  shows "multi_inv (snd (multi_poll kec ke inp s))"
proof -
  obtain reqs closed fp arrs where inp: "inp = (reqs, closed, fp, arrs)" by (cases inp)
  let ?s1 = "fold multi_on_request reqs s"
  have 1: "multi_inv ?s1" using fold_requests_inv assms inp by fastforce
  obtain tasks s2 where p: "poll_each (poll_task fp) (length (mf_pending ?s1)) (mf_pending ?s1) ?s1 = (tasks, s2)"
    by fastforce
  then have "multi_inv s2" using task_poll.each_kept [OF 1] by blast
  then show ?thesis by (simp add: multi_poll_def inp p Let_def split: prod.splits)
qed

definition multi_run ::
  "(u8 list \<Rightarrow> b256) \<Rightarrow> b256 \<Rightarrow> ('e fork_request list \<times> bool \<times> ('e create_fork \<Rightarrow> (string, 'e \<times> u64 \<times> u64) result option) \<times>
     (nat \<Rightarrow> ('i, 'b, 'x) arrivals list)) list \<Rightarrow> ('e, 'i, 'b, 'x) multi \<Rightarrow> ('e, 'i, 'b, 'x) multi" where
  "multi_run kec ke inps s = fold (\<lambda>inp s. snd (multi_poll kec ke inp s)) inps s"

lemma multi_run_inv:
  "multi_inv s \<Longrightarrow> (\<And>inp l. inp \<in> set inps \<Longrightarrow> ShutDownReq l \<notin> set (fst inp)) \<Longrightarrow> multi_inv (multi_run kec ke inps s)"
proof (induction inps arbitrary: s)
  case (Cons inp inps)
  then have "multi_inv (snd (multi_poll kec ke inp s))" by (intro multi_poll_inv) auto
  then show ?case using Cons by (simp add: multi_run_def)
qed (simp add: multi_run_def)

text \<open>
  C?. Fork ids are unique. Until a shutdown, however creations, rolls and merged requests interleave,
  all ids that the handler sends are distinct, although they are made by appending numbers to ids
  that may themselves carry numbers; and every id sent leads to the backend and environment that
  were sent with it.
\<close>

theorem fork_ids_unique:
  assumes "\<forall>inp\<in>set inps. \<forall>l. ShutDownReq l \<notin> set (fst inp)"
  shows "distinct (created_ids (multi_run kec ke inps multi_new)) \<and>
         (\<forall>l fork_id b env. (l, Created (Inr (fork_id, b, env))) \<in> set (mf_sent (multi_run kec ke inps multi_new)) \<longrightarrow>
            (\<exists>f. fmlookup (mf_forks (multi_run kec ke inps multi_new)) fork_id = Some f \<and> cr_backend f = b \<and> cf_env (cr_opts f) = env))"
proof -
  have "multi_inv (multi_new :: ('a, 'b, 'c, 'd) multi)"
    by (simp add: multi_inv_def multi_new_def created_ids_def)
  then have "multi_inv (multi_run kec ke inps multi_new)" using assms by (intro multi_run_inv) auto
  then show ?thesis unfolding multi_inv_def leads_to_fork_def by (metis snd_conv)
qed

section \<open>Every sender is answered once\<close>

definition task_senders :: "'e fork_task multiset \<Rightarrow> nat multiset" where
  "task_senders M = (\<Sum>t\<in>#M. mset (ft_sender t # ft_additional t))"

definition told :: "('e, 'i, 'b, 'x) multi \<Rightarrow> nat multiset" where
  "told s = mset (map fst (mf_sent s))"

fun request_sender :: "'e fork_request \<Rightarrow> nat" where
  "request_sender (CreateForkReq fork l a) = l"
| "request_sender (GetForkReq i l) = l"
| "request_sender (RollForkReq i b l a) = l"
| "request_sender (GetEnvReq i l) = l"
| "request_sender (ShutDownReq l) = l"
| "request_sender (GetForkUrlReq i l) = l"

lemma task_senders_simps [simp]:
  "task_senders {#} = {#}"
  "task_senders (add_mset t M) = add_mset (ft_sender t) (mset (ft_additional t)) + task_senders M"
  by (simp_all add: task_senders_def)

lemma told_simps [simp]:
  "told (tell ls m s) = mset ls + told s"
  "told (register_fork f l fork_id s) = add_mset l (told s)"
  by (simp_all add: told_def tell_def comp_def register_fork_def)

lemma told_inc_senders: "inc_senders f fork_id s = (id', s') \<Longrightarrow> told s' = told s"
  by (auto simp: inc_senders_def told_def Let_def)

lemma told_insert_new_fork:
  fixes s :: "('e, 'i, 'b, 'x) multi"
  shows "told (insert_new_fork fork_id f l ls s) = add_mset l (mset ls) + told s"
proof -
  let ?reg = "\<lambda>l (s :: ('e, 'i, 'b, 'x) multi). case inc_senders f fork_id s of (next_id, s') \<Rightarrow> register_fork f l next_id s'"
  have "told (fold ?reg ls t) = mset ls + told t" for t
    by (induction ls arbitrary: t) (auto simp: told_inc_senders split: prod.splits)
  then show ?thesis by (simp add: insert_new_fork_def)
qed

lemma told_finish_task:
  fixes s :: "('e, 'i, 'b, 'x) multi"
  shows "told (finish_task t resp s) = add_mset (ft_sender t) (mset (ft_additional t)) + told s"
proof -
  have "told s' = told s" if "created_fork_of opts accesses res s = ((fork_id, new, handler), s')"
    for opts accesses res fork_id new handler and s' :: "('e, 'i, 'b, 'x) multi"
    using that by (cases res) (auto simp: created_fork_of_def told_def Let_def)
  moreover have "told (s\<lparr>mf_handlers := hs\<rparr>) = told s" for s :: "('e, 'i, 'b, 'x) multi" and hs
    by (simp add: told_def)
  ultimately show ?thesis
    by (auto simp: finish_task_def told_insert_new_fork told_inc_senders split: sum.splits prod.splits option.splits)
qed

interpretation senders_poll: polled "poll_task fp" "\<lambda>M s. task_senders M + told s = A" for fp A
  by unfold_locales (auto simp: poll_task_def told_finish_task split: option.splits)

lemma multi_create_fork_senders:
  "task_senders (mset (mf_pending (multi_create_fork fork l a s))) + told (multi_create_fork fork l a s) =
   add_mset l (task_senders (mset (mf_pending s)) + told s)"
proof (cases "find_in_progress_task (cf_url fork) (cf_fork_block_number fork) (mf_pending s)")
  case None
  then show ?thesis by (simp add: multi_create_fork_def told_def)
next
  case (Some i)
  then have i: "i < length (mf_pending s)" using position_SomeD unfolding find_in_progress_task_def by blast
  then obtain N where "mset (mf_pending s) = add_mset (mf_pending s ! i) N"
    by (meson multi_member_split nth_mem_mset)
  then show ?thesis using Some i by (simp add: multi_create_fork_def told_def mset_update)
qed

lemma multi_on_request_senders:
  "task_senders (mset (mf_pending (multi_on_request r s))) + told (multi_on_request r s) =
   add_mset (request_sender r) (task_senders (mset (mf_pending s)) + told s)"
proof -
  have pend: "mf_pending (tell ls m s) = mf_pending s" for ls m and s :: "('a, 'b, 'c, 'd) multi"
    by (simp add: tell_def)
  have down: "told (s\<lparr>mf_forks := fmempty, mf_handlers := []\<rparr>) = told s" by (simp add: told_def)
  show ?thesis
    by (cases r) (simp_all add: multi_create_fork_senders pend down split: option.splits)
qed

lemma multi_poll_senders:
  assumes "task_senders (mset (mf_pending s)) + told s = A"
  shows "task_senders (mset (mf_pending (snd (multi_poll kec ke inp s)))) + told (snd (multi_poll kec ke inp s)) =
         mset (map request_sender (fst inp)) + A"
proof -
  obtain reqs closed fp arrs where inp: "inp = (reqs, closed, fp, arrs)" by (cases inp)
  let ?s1 = "fold multi_on_request reqs s"
  have 1: "task_senders (mset (mf_pending ?s1)) + told ?s1 = mset (map request_sender reqs) + A"
    using assms by (induction reqs arbitrary: s A) (simp_all add: multi_on_request_senders)
  obtain tasks s2 where p: "poll_each (poll_task fp) (length (mf_pending ?s1)) (mf_pending ?s1) ?s1 = (tasks, s2)"
    by fastforce
  then have "task_senders (mset tasks) + told s2 = mset (map request_sender reqs) + A"
    using senders_poll.each_kept [OF 1] by blast
  then show ?thesis by (simp add: multi_poll_def inp p Let_def told_def split: prod.splits)
qed

text \<open>
  C?. Nobody is forgotten. Over any sequence of polls, shutdowns included, the senders of all requests
  are, each exactly once, answered or kept with the task that creates their fork.
\<close>

theorem fork_requests_answered_once:
  "task_senders (mset (mf_pending (multi_run kec ke inps multi_new))) + told (multi_run kec ke inps multi_new) =
   mset (map request_sender (concat (map fst inps)))"
proof -
  have "task_senders (mset (mf_pending (multi_run kec ke inps s))) + told (multi_run kec ke inps s) =
      mset (map request_sender (concat (map fst inps))) + A"
    if "task_senders (mset (mf_pending s)) + told s = A" for A s
    using that
  proof (induction inps arbitrary: s A)
    case (Cons inp inps)
    show ?case using Cons.IH [OF multi_poll_senders [OF Cons.prems]] by (simp add: multi_run_def)
  qed (simp add: multi_run_def)
  from this [of multi_new "{#}"] show ?thesis by (simp add: multi_new_def told_def)
qed

section \<open>Where accesses are recorded\<close>

lemma insert_new_fork_sent:
  fixes s :: "('e, 'i, 'b, 'x) multi"
  assumes "l' \<in> set (l # ls)"
  shows "\<exists>id'. (l', Created (Inr (id', cr_backend f, cf_env (cr_opts f)))) \<in> set (mf_sent (insert_new_fork fork_id f l ls s))"
proof -
  let ?reg = "\<lambda>l (s :: ('e, 'i, 'b, 'x) multi). case inc_senders f fork_id s of (next_id, s') \<Rightarrow> register_fork f l next_id s'"
  let ?has = "\<lambda>l' t. \<exists>id'. (l', Created (Inr (id', cr_backend f, cf_env (cr_opts f)))) \<in> set (mf_sent t)"
  have step: "?has l (?reg l t) \<and> (?has l' t \<longrightarrow> ?has l' (?reg l t))" for l l' t
    by (auto simp: inc_senders_def Let_def)
  have "?has l' (fold ?reg ls t)" if "?has l' t \<or> l' \<in> set ls" for t
    using that
  proof (induction ls arbitrary: t)
    case (Cons l ls)
    then have "?has l' (?reg l t) \<or> l' \<in> set ls" using step [of l t] by auto
    then show ?case using Cons.IH [of "?reg l t"] by simp
  qed simp
  from this [of "register_fork f l fork_id s"] show ?thesis using assms by (auto simp: insert_new_fork_def)
qed

text \<open>The backend that the senders of a task get.\<close>

definition task_backend :: "'e fork_task \<Rightarrow> u64 \<Rightarrow> u64 \<Rightarrow> ('e, 'i, 'b, 'x) multi \<Rightarrow> shared_backend" where
  "task_backend t number chain s =
     (case fmlookup (mf_forks s) (fork_id_new (cf_url (ft_opts t)) number) of
        Some fork \<Rightarrow> cr_backend fork
      | None \<Rightarrow> \<lparr>sb_handler = mf_channels s, sb_chain = chain, sb_lookup = lookup_of (ft_opts t), sb_accesses = ft_accesses t\<rparr>)"

lemma finish_task_backend:
  assumes "l \<in> set (ft_sender t # ft_additional t)"
  shows "\<exists>fork_id e. (l, Created (Inr (fork_id, task_backend t number chain s, e)))
           \<in> set (mf_sent (finish_task t (Inr (env, number, chain)) s))"
proof (cases "fmlookup (mf_forks s) (fork_id_new (cf_url (ft_opts t)) number)")
  case None
  let ?fork = "\<lparr>cr_opts = (ft_opts t)\<lparr>cf_env := env\<rparr>, cr_backend = task_backend t number chain s,
      cr_num_senders = length (mf_senders s)\<rparr>"
  have "lookup_of ((ft_opts t)\<lparr>cf_env := env\<rparr>) = lookup_of (ft_opts t)" by (simp add: lookup_of_def)
  then have "\<exists>s1. finish_task t (Inr (env, number, chain)) s =
      insert_new_fork (fork_id_new (cf_url (ft_opts t)) number) ?fork (ft_sender t) (ft_additional t) s1"
    using None by (auto simp: finish_task_def created_fork_of_def Let_def task_backend_def)
  then show ?thesis using insert_new_fork_sent [OF assms, of ?fork] by fastforce
next
  case (Some fork)
  obtain id' s2 where "inc_senders fork (fork_id_new (cf_url (ft_opts t)) number)
      (s\<lparr>mf_senders := mf_senders s @ [1], mf_channels := mf_channels s + 1\<rparr>) = (id', s2)" by fastforce
  then have "finish_task t (Inr (env, number, chain)) s = insert_new_fork id' fork (ft_sender t) (ft_additional t) s2"
    using Some by (simp add: finish_task_def created_fork_of_def Let_def)
  then show ?thesis using insert_new_fork_sent [OF assms, of fork id' s2] Some by (auto simp: task_backend_def)
qed

text \<open>
  C?. Accesses are recorded where the fork was created first. When the fork of a finished task is new,
  every sender gets a backend that records its reads, with the chain and the block lookup of the fork,
  in the set given by the request that started the task. When a fork with the same url and block
  exists already, every sender gets the backend of that fork, and no read through it is recorded in
  the set of the requester: a later \<^verbatim>\<open>get_accesses\<close> of the requester does not report it.
\<close>

theorem accesses_of_first_creator:
  assumes "l \<in> set (ft_sender t # ft_additional t)"
  shows "\<exists>fork_id e. let s' = finish_task t (Inr (env, number, chain)) s; b = task_backend t number chain s in
           (l, Created (Inr (fork_id, b, e))) \<in> set (mf_sent s') \<and>
           to_access (AccBasic addr) (sb_chain b) (sb_lookup b) |\<in>| snd (basic_ref b addr k st) (sb_accesses b) \<and>
           (fmlookup (mf_forks s) (fork_id_new (cf_url (ft_opts t)) number) = None \<longrightarrow>
              sb_accesses b = ft_accesses t \<and> sb_chain b = chain \<and> sb_lookup b = lookup_of (ft_opts t)) \<and>
           (sb_accesses b \<noteq> ft_accesses t \<longrightarrow>
              snd (basic_ref b addr k st) (ft_accesses t) = st (ft_accesses t) \<and>
              snd (storage_ref b addr idx k st) (ft_accesses t) = st (ft_accesses t) \<and>
              snd (block_hash_ref ke b num k st) (ft_accesses t) = st (ft_accesses t))"
proof -
  have "fmlookup (mf_forks s) (fork_id_new (cf_url (ft_opts t)) number) = None \<longrightarrow>
      sb_accesses (task_backend t number chain s) = ft_accesses t \<and> sb_chain (task_backend t number chain s) = chain \<and>
      sb_lookup (task_backend t number chain s) = lookup_of (ft_opts t)"
    by (simp add: task_backend_def)
  then show ?thesis
    using finish_task_backend [OF assms, of number chain s env]
    by (simp add: Let_def basic_ref_def storage_ref_def block_hash_ref_def record_revm_data_access_def)
qed

section \<open>Loaded accesses\<close>

lemma lookup_block_simps:
  "lookup_block cur (RollAt n) = n"
  "0 \<le> sint cur \<Longrightarrow> lookup_block cur (RollN 0) = cur"
  by (simp_all add: lookup_block_def)

definition knows_fork :: "('e, 'i, 'b, 'x) multi \<Rightarrow> string \<Rightarrow> bool" where
  "knows_fork s fork_id \<longleftrightarrow> fmlookup (mf_forks s) fork_id \<noteq> None"

lemma insert_new_fork_knows:
  fixes s :: "('e, 'i, 'b, 'x) multi"
  shows "knows_fork (insert_new_fork fork_id f l ls s) fork_id"
    "knows_fork s gid \<Longrightarrow> knows_fork (insert_new_fork fork_id f l ls s) gid"
proof -
  let ?reg = "\<lambda>l (s :: ('e, 'i, 'b, 'x) multi). case inc_senders f fork_id s of (next_id, s') \<Rightarrow> register_fork f l next_id s'"
  have keep: "knows_fork t gid \<Longrightarrow> knows_fork (fold ?reg ls t) gid" for t gid
    by (induction ls arbitrary: t) (auto simp: knows_fork_def inc_senders_def Let_def)
  show "knows_fork (insert_new_fork fork_id f l ls s) fork_id"
    unfolding insert_new_fork_def by (rule keep) (simp add: knows_fork_def)
  show "knows_fork s gid \<Longrightarrow> knows_fork (insert_new_fork fork_id f l ls s) gid"
    unfolding insert_new_fork_def by (rule keep) (simp add: knows_fork_def)
qed

lemma finish_task_knows: "knows_fork s gid \<Longrightarrow> knows_fork (finish_task t resp s) gid"
proof -
  assume k: "knows_fork s gid"
  have c: "knows_fork s' gid" if "created_fork_of opts a res s = (x, s')" for opts a res x s'
    using that k by (cases res) (auto simp: created_fork_of_def knows_fork_def Let_def)
  have h: "knows_fork (s'\<lparr>mf_handlers := hs\<rparr>) gid = knows_fork s' gid" for s' hs by (simp add: knows_fork_def)
  have i: "inc_senders f fid s' = (id', s'') \<Longrightarrow> knows_fork s'' gid = knows_fork s' gid" for f fid s' id' s''
    by (auto simp: inc_senders_def knows_fork_def Let_def)
  show ?thesis
    using k c by (auto simp: finish_task_def h i insert_new_fork_knows(2) tell_def knows_fork_def [of "s\<lparr>mf_sent := _\<rparr>"] split: sum.splits prod.splits option.splits)
       (auto simp: knows_fork_def)
qed

text \<open>The provider reports the requested block under its number.\<close>

definition fetches_by_number :: "('e create_fork \<Rightarrow> (string, 'e \<times> u64 \<times> u64) result) \<Rightarrow> bool" where
  "fetches_by_number fetch \<longleftrightarrow>
     (\<forall>opts env number chain. fetch opts = Inr (env, number, chain) \<longrightarrow> cf_fork_block_number opts = Some number)"

lemma create_fork_now_knows:
  assumes "create_fork_now fetch (get_create_fork env0 url n) a l s = (Inr b, s')" "fetches_by_number fetch"
    and "\<not> knows_fork s (fork_id_new url n)"
  shows "knows_fork s' (fork_id_new url n)"
proof (cases "fetch (get_create_fork env0 url n)")
  case (Inl err)
  then show ?thesis using assms(1) by (simp add: create_fork_now_def finish_task_def tell_def Let_def)
next
  case (Inr res)
  obtain env number chain where res: "res = (env, number, chain)" by (cases res)
  then have n: "number = n" using assms(2) Inr by (fastforce simp: fetches_by_number_def get_create_fork_def)
  have "\<exists>new s1. s' = insert_new_fork (fork_id_new url n) new l [] s1"
    using assms(1,3) Inr
    by (auto simp: create_fork_now_def finish_task_def created_fork_of_def Let_def res n get_create_fork_def knows_fork_def)
  then show ?thesis using insert_new_fork_knows(1) by blast
qed

lemma create_fork_now_keeps:
  "create_fork_now fetch opts a l s = (r, s') \<Longrightarrow> knows_fork s gid \<Longrightarrow> knows_fork s' gid"
  using finish_task_knows by (auto simp: create_fork_now_def Let_def)

lemma execute_access_keeps:
  assumes "execute_access fetch env0 ke cur url a l acc s st = (r, s', st')" "knows_fork s gid"
  shows "knows_fork s' gid"
  using assms create_fork_now_keeps [of fetch _ a l s _ s' gid]
  by (auto simp: execute_access_def Let_def split: access_type.splits option.splits sum.splits prod.splits)

lemma execute_access_knows:
  assumes "execute_access fetch env0 ke cur url a l acc s st = (Inr r, s', st')" "ac_type acc = RevmDbAccess x"
    and "fetches_by_number fetch"
  shows "knows_fork s' (fork_id_new url (lookup_block cur (ac_lookup acc))) \<and> (\<forall>hash. x \<noteq> AccCodeByHash hash)"
proof -
  let ?id = "fork_id_new url (lookup_block cur (ac_lookup acc))"
  have "knows_fork s' ?id"
  proof (cases "fmlookup (mf_forks s) ?id")
    case None
    then obtain b where "create_fork_now fetch (get_create_fork env0 url (lookup_block cur (ac_lookup acc))) a l s = (Inr b, s')"
      using assms(1,2) by (auto simp: execute_access_def Let_def split: sum.splits prod.splits)
    then show ?thesis using create_fork_now_knows assms(3) None by (fastforce simp: knows_fork_def)
  next
    case (Some f)
    then show ?thesis
      using assms(1,2) by (auto simp: execute_access_def Let_def knows_fork_def split: sum.splits prod.splits)
  qed
  moreover have "x \<noteq> AccCodeByHash hash" for hash
    using assms(1,2) by (auto simp: execute_access_def Let_def split: sum.splits prod.splits)
  ultimately show ?thesis by blast
qed

lemma load_loop_keeps:
  "load_loop fetch env0 ke cur url a l accs s st = (r, s', st') \<Longrightarrow> knows_fork s gid \<Longrightarrow> knows_fork s' gid"
proof (induction accs arbitrary: s st)
  case (Cons acc accs)
  then show ?case using execute_access_keeps by (fastforce split: prod.splits sum.splits)
qed simp

lemma load_loop_knows:
  assumes "load_loop fetch env0 ke cur url a l accs s st = (Inr (), s', st')" "fetches_by_number fetch"
    and "acc \<in> set accs" "ac_type acc = RevmDbAccess x"
  shows "knows_fork s' (fork_id_new url (lookup_block cur (ac_lookup acc))) \<and> (\<forall>hash. x \<noteq> AccCodeByHash hash)"
  using assms(1,3)
proof (induction accs arbitrary: s st)
  case (Cons y ys)
  obtain r s1 st1 where y: "execute_access fetch env0 ke cur url a l y s st = (Inr r, s1, st1)"
    "load_loop fetch env0 ke cur url a l ys s1 st1 = (Inr (), s', st')"
    using Cons.prems(1) by (auto split: prod.splits sum.splits)
  show ?case
  proof (cases "acc = y")
    case True
    then show ?thesis using execute_access_knows [OF y(1) _ assms(2)] load_loop_keeps [OF y(2)] assms(4) by blast
  next
    case False
    then show ?thesis using Cons.IH [OF y(2)] Cons.prems(2) by simp
  qed
qed simp

text \<open>
  C?. Loading accesses makes their forks available. When \<^verbatim>\<open>load_accesses\<close> succeeds and the provider reports
  blocks under their numbers, every read recorded for the chain has a fork at the block that its
  lookup gives for the current block: the block itself, or the current block plus the recorded
  offset; and none of them reads code by hash, which a fork cannot answer.
\<close>

theorem load_accesses_forks:
  assumes "load_accesses fetch env0 ke chain cur url a l accs s st = (Inr (), s', st')" "fetches_by_number fetch"
    and "acc \<in> set accs" "ac_chain acc = chain" "ac_type acc = RevmDbAccess x"
  shows "fmlookup (mf_forks s') (fork_id_new url
           (case ac_lookup acc of RollAt n \<Rightarrow> n | RollN n \<Rightarrow> if sint (cur + n) < 0 then 0 else cur + n)) \<noteq> None \<and>
         (\<forall>hash. x \<noteq> AccCodeByHash hash)"
  using load_loop_knows [of fetch env0 ke cur url a l "filter (\<lambda>acc. ac_chain acc = chain) accs" s st s' st' acc x] assms
  by (simp add: load_accesses_def knows_fork_def lookup_block_def)

section \<open>Witnesses\<close>

text \<open>Two requests for one fork are merged; a third one comes after it was created.\<close>

definition sample_opts :: "nat create_fork" where
  "sample_opts = \<lparr>cf_enable_caching = False, cf_url = ''u'', cf_env = 0, cf_fork_block_number = Some 7\<rparr>"

definition sample_fetch :: "nat create_fork \<Rightarrow> (string, nat \<times> u64 \<times> u64) result" where
  "sample_fetch opts = (case cf_fork_block_number opts of Some n \<Rightarrow> Inr (1, n, 1) | None \<Rightarrow> Inl ''no block'')"

definition sample_inputs :: "(nat fork_request list \<times> bool \<times> (nat create_fork \<Rightarrow> (string, nat \<times> u64 \<times> u64) result option) \<times>
    (nat \<Rightarrow> (nat, nat, nat) arrivals list)) list" where
  "sample_inputs =
     [([CreateForkReq sample_opts 1 10, CreateForkReq sample_opts 2 20], False, Some \<circ> sample_fetch, \<lambda>_. []),
      ([CreateForkReq sample_opts 3 30], False, Some \<circ> sample_fetch, \<lambda>_. [])]"

theorem fork_ids_unique_witness:
  "created_ids (multi_run (\<lambda>_. 0) 0 sample_inputs multi_new) = [''u@7'', ''u@7-1'', ''u@7-2''] \<and>
   distinct (created_ids (multi_run (\<lambda>_. 0) 0 sample_inputs multi_new))"
proof -
  have ok: "\<forall>inp\<in>set sample_inputs. \<forall>l. ShutDownReq l \<notin> set (fst inp)" by (simp add: sample_inputs_def)
  have "created_ids (multi_run (\<lambda>_. 0) 0 sample_inputs multi_new) = [''u@7'', ''u@7-1'', ''u@7-2'']" by code_simp
  then show ?thesis using fork_ids_unique [OF ok, of "\<lambda>_. 0" 0] by blast
qed

definition sample_task :: "nat fork_task" where
  "sample_task = \<lparr>ft_opts = sample_opts, ft_accesses = 30, ft_url = ''u'', ft_block = Some 7, ft_sender = 3, ft_additional = []\<rparr>"

definition sample_forks :: "(nat, nat, nat, nat) multi" where
  "sample_forks = multi_run (\<lambda>_. 0) 0 (take 1 sample_inputs) multi_new"

text \<open>The requester with the set 30 gets the fork that records in the set 10.\<close>

theorem accesses_of_first_creator_witness:
  "sb_accesses (task_backend sample_task 7 1 sample_forks) = 10 \<and>
   snd (basic_ref (task_backend sample_task 7 1 sample_forks) 5 0 (\<lambda>_. {||})) 30 = {||} \<and>
   (\<exists>fork_id e. (3, Created (Inr (fork_id, task_backend sample_task 7 1 sample_forks, e)))
      \<in> set (mf_sent (finish_task sample_task (Inr (1, 7, 1)) sample_forks)))"
proof -
  have b: "sb_accesses (task_backend sample_task 7 1 sample_forks) = 10" by code_simp
  have l: "3 \<in> set (ft_sender sample_task # ft_additional sample_task)" "ft_accesses sample_task = 30"
    by (simp_all add: sample_task_def)
  show ?thesis
    using accesses_of_first_creator [OF l(1), of 1 7 1 sample_forks 5 0 "\<lambda>_. {||}" 0 0 0] b l(2) by (auto simp: Let_def)
qed

definition sample_access :: access where
  "sample_access = to_access (AccBasic 5) 1 (RollN (- 2))"

theorem load_accesses_forks_witness:
  "\<exists>s' st'. load_accesses sample_fetch 0 0 1 9 ''u'' 40 8 [sample_access] sample_forks (\<lambda>_. {||}) = (Inr () :: (string + nat database_error) + unit, s', st') \<and>
     fmlookup (mf_forks s') (fork_id_new ''u'' 7) \<noteq> None"
proof -
  let ?r = "load_accesses sample_fetch 0 0 1 9 ''u'' 40 8 [sample_access] sample_forks (\<lambda>_. {||})
    :: ((string + nat database_error) + unit) \<times> _ \<times> _"
  have ok: "fst ?r = Inr ()" by code_simp
  then have r: "?r = (Inr (), fst (snd ?r), snd (snd ?r))" by (metis prod.collapse)
  have f: "fetches_by_number sample_fetch" by (auto simp: fetches_by_number_def sample_fetch_def split: option.splits)
  have "sint (9 + - 2 :: u64) = 7" "(9 + - 2 :: u64) = 7" by code_simp+
  then show ?thesis
    using r load_accesses_forks [OF r f, of sample_access "AccBasic 5"] by (fastforce simp: sample_access_def to_access_def)
qed

end
