(* ===== verification/Spec2Isabelle.thy ===== *)
theory Spec2Isabelle
  imports Pool_Properties Fees Block_Time State_Db Chain_Storage Mining Tx_Rlp Backend_Properties
    Fuzz_Trees Invariant_Campaign Multi_Fork
begin

text \<open>
  A verification library for the Foundry fork in \<^verbatim>\<open>src/\<close>.

  \<^bold>\<open>The program.\<close> The node \<^verbatim>\<open>anvil\<close> takes transactions over RPC, keeps them in a pool, mines them into
  blocks and stores the chain.

  \<^bold>\<open>Theories.\<close>

  \<^item> \<open>Prelude\<close>: machine words, saturating and checked arithmetic, \<^verbatim>\<open>Vec\<close> and hash container helpers, and
    the interface \<open>op_system\<close>: operations that keep an invariant and do not panic.
  \<^item> \<open>Eth_Tx\<close>: transactions (\<^verbatim>\<open>crates/anvil/core/src/eth/transaction\<close>).
  \<^item> \<open>Pool_Pending\<close>, \<open>Pool_Ready\<close>, \<open>Ready_Invariant\<close>, \<open>Pool\<close>, \<open>Pool_Invariant\<close>, \<open>Pool_Properties\<close>: the
    transaction pool (\<^verbatim>\<open>crates/anvil/src/eth/pool\<close>).
  \<^item> \<open>Fees\<close>, \<open>Block_Time\<close>: fees and the fee history, block timestamps.
  \<^item> \<open>State_Db\<close>, \<open>Chain_Storage\<close>: the state database with its snapshots, historic states and the chain.

  \<^bold>\<open>Conventions.\<close> Rust integers are words of their width, so \<open>+\<close> wraps as in a release build; lengths are
  naturals. A hash map is an \<open>fmap\<close>, a hash set an \<open>fset\<close>; the order in which they iterate is an argument
  with the hypothesis \<open>iter_ok\<close>. A panic is \<open>None\<close>, an error \<open>Inl\<close>, returned with the state left behind.
\<close>

end
